(* ===== verification/Prelude.thy ===== *)
theory Prelude
  imports Main "HOL-Library.Word" "HOL-Library.Monad_Syntax"
begin

text \<open>
  What the component theories share.

  \<^item> C++ integer types: \<open>uint64_t\<close> and \<open>uint32_t\<close> bit patterns are words;
    \<open>size_t\<close> and counters are \<open>nat\<close> with the wrap-around written out by \<open>u64\<close> and \<open>u32\<close>.
  \<^item> A call that can trip an \<open>assert\<close>, throw out of a container's \<open>at()\<close> or
    follow a null pointer aborts the process. Such a call returns an \<open>option\<close>, \<open>None\<close> being the
    abort, and calls are sequenced in the option monad. \<open>succeeds m Q\<close> is total
    correctness: the call does not abort and its result satisfies \<open>Q\<close>.
  \<^item> Facts on lists that model vectors and intrusive lists.
\<close>

section \<open>Machine integers\<close>

type_synonym uint64 = "64 word"
type_synonym uint32 = "32 word"

definition u64 :: "nat \<Rightarrow> nat" where
  "u64 n = n mod 2 ^ 64"

definition u32 :: "nat \<Rightarrow> nat" where
  "u32 n = n mod 2 ^ 32"

lemma u64_small [simp]: "n < 2 ^ 64 \<Longrightarrow> u64 n = n"
  by (simp add: u64_def)

lemma u32_small [simp]: "n < 2 ^ 32 \<Longrightarrow> u32 n = n"
  by (simp add: u32_def)

lemma u64_less: "u64 n < 2 ^ 64"
  by (simp add: u64_def)

lemma u32_less: "u32 n < 2 ^ 32"
  by (simp add: u32_def)

section \<open>Calls that may abort\<close>

named_theorems vcg \<open>rewrites a total-correctness statement into its parts\<close>

definition cpp_assert :: "bool \<Rightarrow> unit option" where
  "cpp_assert b = (if b then Some () else None)"

definition succeeds :: "'a option \<Rightarrow> ('a \<Rightarrow> bool) \<Rightarrow> bool" where
  "succeeds m Q = (case m of None \<Rightarrow> False | Some x \<Rightarrow> Q x)"

lemma succeeds_Some [vcg, simp]: "succeeds (Some x) Q = Q x"
  by (simp add: succeeds_def)

lemma succeeds_None [vcg, simp]: "succeeds None Q = False"
  by (simp add: succeeds_def)

lemma succeeds_bind [vcg]: "succeeds (m \<bind> f) Q = succeeds m (\<lambda>x. succeeds (f x) Q)"
  by (cases m) (simp_all add: succeeds_def)

lemma succeeds_assert [vcg]: "succeeds (cpp_assert b) Q = (b \<and> Q ())"
  by (simp add: cpp_assert_def)

lemma succeeds_if [vcg]:
  "succeeds (if b then m else n) Q = ((b \<longrightarrow> succeeds m Q) \<and> (\<not> b \<longrightarrow> succeeds n Q))"
  by simp

lemma succeeds_mono: "succeeds m P \<Longrightarrow> (\<And>x. P x \<Longrightarrow> Q x) \<Longrightarrow> succeeds m Q"
  by (cases m) simp_all

lemma succeeds_conj: "succeeds m (\<lambda>x. P x \<and> Q x) \<longleftrightarrow> succeeds m P \<and> succeeds m Q"
  by (cases m) auto

lemma succeedsD: "succeeds m Q \<Longrightarrow> m = Some x \<Longrightarrow> Q x"
  by simp

lemma succeeds_iff: "succeeds m Q \<longleftrightarrow> (\<exists>x. m = Some x \<and> Q x)"
  by (cases m) auto

lemma cpp_assert_True [simp]: "cpp_assert True = Some ()"
  by (simp add: cpp_assert_def)

lemma cpp_assert_Some [simp]: "cpp_assert b = Some u \<longleftrightarrow> b"
  by (simp add: cpp_assert_def)

section \<open>Vectors\<close>

definition vec_resize :: "'a \<Rightarrow> nat \<Rightarrow> 'a list \<Rightarrow> 'a list" where
  "vec_resize d n xs = take n xs @ replicate (n - length xs) d"

lemma length_vec_resize [simp]: "length (vec_resize d n xs) = n"
  by (simp add: vec_resize_def)

lemma nth_vec_resize:
  "i < n \<Longrightarrow> vec_resize d n xs ! i = (if i < length xs then xs ! i else d)"
  by (auto simp: vec_resize_def nth_append min_def)

lemma vec_resize_take: "n \<le> length xs \<Longrightarrow> vec_resize d n xs = take n xs"
  by (simp add: vec_resize_def)

section \<open>Transition systems\<close>

inductive reachable :: "('s \<Rightarrow> bool) \<Rightarrow> ('s \<Rightarrow> 's \<Rightarrow> bool) \<Rightarrow> 's \<Rightarrow> bool" for I R where
  initial: "I s \<Longrightarrow> reachable I R s"
| later: "reachable I R s \<Longrightarrow> R s s' \<Longrightarrow> reachable I R s'"

lemma reachable_steps: "R\<^sup>*\<^sup>* s s' \<Longrightarrow> reachable I R s \<Longrightarrow> reachable I R s'"
  by (induction rule: rtranclp_induct) (auto intro: later)

text \<open>What holds at first and is kept by every step holds in every state that can be reached.\<close>

locale invariant =
  fixes I :: "'s \<Rightarrow> bool" and R :: "'s \<Rightarrow> 's \<Rightarrow> bool" and inv :: "'s \<Rightarrow> bool"
  assumes base: "I s \<Longrightarrow> inv s"
    and step: "inv s \<Longrightarrow> R s s' \<Longrightarrow> inv s'"
begin

lemma holds: "reachable I R s \<Longrightarrow> inv s"
  by (induction rule: reachable.induct) (auto intro: base step)

text \<open>A relation between states that every step from a good state respects.\<close>

lemma monotone:
  assumes "R\<^sup>*\<^sup>* s s'" "inv s" "\<And>s s'. inv s \<Longrightarrow> R s s' \<Longrightarrow> le s s'" "\<And>s. le s s" "\<And>a b c. le a b \<Longrightarrow> le b c \<Longrightarrow> le a c"
  shows "le s s' \<and> inv s'"
  using assms(1)
proof (induction rule: rtranclp_induct)
  case base
  show ?case using assms(2,4) by blast
next
  case (step y z)
  then show ?case using assms(3,5) invariant.step [OF invariant_axioms] by blast
qed

end

end
