(* ===== verification/Bit_Words.thy ===== *)
theory Bit_Words
  imports Prelude
begin

unbundle bit_operations_syntax

text \<open>
  The bit scans of one 64-bit block on which \<open>class BitSet\<close> is built
  (src/base/bitset.cc, first part), with the lemmas that tie each of them to the set of
  the bits of the word: \<open>find_first_set64\<close>, \<open>find_first_clear64\<close>, the binary searches
  \<open>find_last_set32\<close> and \<open>find_last_set64\<close>, and \<open>num_bits_set\<close>.
\<close>

section \<open>Bit scans of one block\<close>

text \<open>The C library's \<open>ffs\<close>: the position of the least set bit, counted from 1; 0 for none.\<close>

definition ffs :: "uint32 \<Rightarrow> nat" where
  "ffs w = (case find (\<lambda>i. bit w i) [0..<32] of None \<Rightarrow> 0 | Some i \<Rightarrow> Suc i)"

definition find_first_set64 :: "uint64 \<Rightarrow> nat" where
  "find_first_set64 value =
     (let lower = ucast value :: uint32; b = ffs lower in
      if b > 0 then b
      else (let upper = ucast (drop_bit 32 value) :: uint32; b = ffs upper in
            if b > 0 then 32 + b else 0))"

definition find_first_clear64 :: "uint64 \<Rightarrow> nat" where
  "find_first_clear64 value = find_first_set64 (NOT value)"

text \<open>One \<open>if\<close> of \<open>find_last_set32\<close>: shift left by \<open>k\<close> when the top \<open>k\<close> bits are clear.\<close>

definition fls_step :: "uint32 \<Rightarrow> nat \<Rightarrow> uint32 \<times> nat \<Rightarrow> uint32 \<times> nat" where
  "fls_step m k vb =
     (case vb of (value, b) \<Rightarrow>
        if value AND m = 0 then (push_bit k value, b - k) else (value, b))"

definition find_last_set32 :: "uint32 \<Rightarrow> nat" where
  "find_last_set32 value =
     (if value = 0 then 0
      else snd (fls_step 0x80000000 1
            (fls_step 0xC0000000 2
              (fls_step 0xF0000000 4
                (fls_step 0xFF000000 8
                  (fls_step 0xFFFF0000 16 (value, 32)))))))"

definition find_last_set64 :: "uint64 \<Rightarrow> nat" where
  "find_last_set64 value =
     (let upper = ucast (drop_bit 32 value) :: uint32; b = find_last_set32 upper in
      if b > 0 then 32 + b
      else (let lower = ucast value :: uint32; b = find_last_set32 lower in
            if b > 0 then b else 0))"

lemma clear_lowest_less: "w \<noteq> 0 \<Longrightarrow> unat (w AND (w - 1)) < unat (w :: 'a::len word)"
proof -
  assume w: "w \<noteq> 0"
  then have "0 < unat w" by (simp only: unat_gt_0 not_False_eq_True)
  with unat_minus_one [OF w] have "unat (w - 1) < unat w" by simp
  moreover have "unat (w AND (w - 1)) \<le> unat (w - 1)"
    by (simp add: word_le_nat_alt [symmetric] word_and_le1)
  ultimately show ?thesis by simp
qed

text \<open>The loop of \<open>num_bits_set\<close> clears the lowest set bit each time round.\<close>

function num_bits_set_loop :: "uint64 \<Rightarrow> nat \<Rightarrow> nat" where
  "num_bits_set_loop value count =
     (if value \<noteq> 0 then num_bits_set_loop (value AND (value - 1)) (count + 1) else count)"
  by pat_completeness auto
termination
  by (relation "measure (\<lambda>(v, c). unat v)") (auto simp: clear_lowest_less)

declare num_bits_set_loop.simps [simp del]

definition num_bits_set :: "uint64 \<Rightarrow> nat" where
  "num_bits_set value = num_bits_set_loop value 0"

section \<open>Facts\<close>

lemma find_upt_Some:
  "find P [0..<n] = Some i \<longleftrightarrow> i < n \<and> P i \<and> (\<forall>j<i. \<not> P j)"
  by (auto simp: find_Some_iff)

lemma find_upt_None: "find P [0..<n] = None \<longleftrightarrow> (\<forall>i<n. \<not> P i)"
  by (auto simp: find_None_iff)

lemma ffs_cases:
  obtains "ffs w = 0" "w = 0" | i where "ffs w = Suc i" "bit w i" "\<And>j. j < i \<Longrightarrow> \<not> bit w j"
proof (cases "find (bit w) [0..<32]")
  case None
  then have "\<not> bit w i" for i
    using bit_imp_le_length [of w i] by (auto simp: find_upt_None)
  then have w: "w = 0" by (simp add: bit_eq_iff)
  from None have "ffs w = 0" by (simp only: ffs_def option.case)
  with w that(1) show ?thesis by blast
next
  case (Some i)
  with that(2) [of i] show ?thesis by (auto simp: ffs_def find_upt_Some)
qed

lemma bit_ucast_lower: "j < 32 \<Longrightarrow> bit (ucast (w :: uint64) :: uint32) j = bit w j"
  by (simp add: bit_word_ucast_iff)

lemma bit_ucast_upper: "j < 32 \<Longrightarrow> bit (ucast (drop_bit 32 (w :: uint64)) :: uint32) j = bit w (32 + j)"
  by (auto simp: bit_word_ucast_iff bit_drop_bit_eq)

lemma find_first_set64_cases:
  obtains "find_first_set64 w = 0" "w = 0"
  | i where "find_first_set64 w = Suc i" "bit w i" "\<And>j. j < i \<Longrightarrow> \<not> bit w j"
proof (cases "ucast w :: uint32" rule: ffs_cases)
  case lower: 1
  then have lo: "\<not> bit w j" if "j < 32" for j
    using bit_ucast_lower [OF that, of w] by simp
  show ?thesis
  proof (cases "ucast (drop_bit 32 w) :: uint32" rule: ffs_cases)
    case upper: 1
    have "\<not> bit w j" for j
    proof (cases "j < 32 \<or> 64 \<le> j")
      case True
      with lo show ?thesis by (auto dest: bit_imp_le_length)
    next
      case False
      then have "j - 32 < 32" "32 + (j - 32) = j" by auto
      with bit_ucast_upper [of "j - 32" w] upper show ?thesis by simp
    qed
    then have "w = 0" by (simp add: bit_eq_iff)
    with lower upper that(1) show ?thesis by (simp add: find_first_set64_def)
  next
    case (2 i)
    from bit_imp_le_length [OF 2(2)] have i: "i < 32" by simp
    have "\<not> bit w j" if "j < 32 + i" for j
      using lo [of j] bit_ucast_upper [of "j - 32" w] 2(3) [of "j - 32"] i that
      by (cases "j < 32") auto
    moreover have "bit w (32 + i)"
      using 2(2) bit_ucast_upper [OF i, of w] by simp
    ultimately show ?thesis
      using that(2) [of "32 + i"] lower 2(1) by (simp add: find_first_set64_def)
  qed
next
  case (2 i)
  from bit_imp_le_length [OF 2(2)] have i: "i < 32" by simp
  with 2 that(2) [of i] show ?thesis
    by (simp add: find_first_set64_def bit_ucast_lower)
qed

lemma find_first_set64_eq_0: "find_first_set64 w = 0 \<longleftrightarrow> w = 0"
  by (rule find_first_set64_cases [of w]) auto

lemma find_first_set64_Suc:
  "find_first_set64 w = Suc i \<longleftrightarrow> bit w i \<and> (\<forall>j<i. \<not> bit w j)"
proof (cases w rule: find_first_set64_cases)
  case (2 k)
  then have "bit w i \<and> (\<forall>j<i. \<not> bit w j) \<longleftrightarrow> i = k"
    by (auto intro: linorder_neqE_nat [of i k])
  with 2 show ?thesis by auto
qed simp

lemma find_first_clear64_eq_0: "find_first_clear64 w = 0 \<longleftrightarrow> (\<forall>i<64. bit w i)"
proof -
  have "NOT w = 0 \<longleftrightarrow> (\<forall>i<64. \<not> bit (NOT w) i)"
    by (simp add: bit_eq_iff)
  then show ?thesis
    by (auto simp: find_first_clear64_def find_first_set64_eq_0 bit_not_iff)
qed

lemma find_first_clear64_Suc:
  "find_first_clear64 w = Suc i \<longleftrightarrow> i < 64 \<and> \<not> bit w i \<and> (\<forall>j<i. bit w j)"
  by (auto simp: find_first_clear64_def find_first_set64_Suc bit_not_iff)

text \<open>\<open>find_last_set32\<close> keeps \<open>value\<close> = input shifted left by \<open>32 - b\<close>.\<close>

definition fls_inv :: "uint32 \<Rightarrow> nat \<Rightarrow> uint32 \<times> nat \<Rightarrow> bool" where
  "fls_inv w k vb = (case vb of (v, b) \<Rightarrow>
     unat v = unat w * 2 ^ (32 - b) \<and> k \<le> b \<and> b \<le> 32 \<and> 2 ^ (32 - k) \<le> unat v)"

lemma and_high_mask_eq_0:
  "(v :: uint32) AND NOT (mask n) = 0 \<longleftrightarrow> unat v < 2 ^ n"
proof -
  have "v AND NOT (mask n) = 0 \<longleftrightarrow> (\<forall>i<32. bit v i \<longrightarrow> i < n)"
    by (auto simp: bit_eq_iff bit_and_iff bit_not_iff bit_mask_iff)
  also have "\<dots> \<longleftrightarrow> take_bit n v = v"
    by (auto simp: bit_eq_iff bit_take_bit_iff)
  also have "\<dots> \<longleftrightarrow> take_bit n (unat v) = unat v"
    by (metis unsigned_take_bit_eq word_unat_eq_iff)
  also have "\<dots> \<longleftrightarrow> unat v < 2 ^ n"
    by (rule take_bit_nat_eq_self_iff)
  finally show ?thesis .
qed

lemma unat_push_bit:
  assumes "unat (v :: uint32) * 2 ^ k < 2 ^ 32"
  shows "unat (push_bit k v) = unat v * 2 ^ k"
proof -
  have "unat (push_bit k v) = take_bit 32 (push_bit k (unat v))"
    by (simp only: unsigned_push_bit_eq) simp
  also have "push_bit k (unat v) = unat v * 2 ^ k" by (simp add: push_bit_eq_mult)
  finally show ?thesis using assms by (simp add: take_bit_nat_eq_self)
qed

lemma fls_step_inv:
  assumes inv: "fls_inv w (2 * k) vb" and m: "m = NOT (mask (32 - k))" and k: "0 < k" "2 * k \<le> 32"
  shows "fls_inv w k (fls_step m k vb)"
proof -
  obtain v b where vb: "vb = (v, b)" by (cases vb)
  from inv have i: "unat v = unat w * 2 ^ (32 - b)" "2 * k \<le> b" "b \<le> 32"
      "2 ^ (32 - 2 * k) \<le> unat v"
    by (simp_all add: fls_inv_def vb)
  have e: "2 ^ (32 - 2 * k) * 2 ^ k = (2 ^ (32 - k) :: nat)" "2 ^ (32 - k) * 2 ^ k = (2 ^ 32 :: nat)"
    unfolding power_add [symmetric] using k by (simp_all add: algebra_simps)
  have z: "v AND m = 0 \<longleftrightarrow> unat v < 2 ^ (32 - k)"
    unfolding m by (rule and_high_mask_eq_0)
  show ?thesis
  proof (cases "unat v < 2 ^ (32 - k)")
    case True
    then have "unat v * 2 ^ k < 2 ^ 32" unfolding e(2) [symmetric] by simp
    then have u: "unat (push_bit k v) = unat v * 2 ^ k" by (rule unat_push_bit)
    have "32 - (b - k) = (32 - b) + k" using i by simp
    then have s: "unat v * 2 ^ k = unat w * 2 ^ (32 - (b - k))"
      by (simp only: i(1) power_add mult.assoc)
    have "2 ^ (32 - k) \<le> unat v * 2 ^ k" unfolding e(1) [symmetric] using i by simp
    moreover have "k \<le> b - k" "b - k \<le> 32" using i by auto
    moreover have "fls_step m k (v, b) = (push_bit k v, b - k)"
      by (simp only: fls_step_def prod.case z True if_True)
    ultimately show ?thesis by (simp only: vb fls_inv_def prod.case u s)
  next
    case False
    then have "fls_step m k (v, b) = (v, b)"
      by (simp only: fls_step_def prod.case z if_False)
    moreover have "2 ^ (32 - k) \<le> unat v" "k \<le> b" using False i by linarith+
    ultimately show ?thesis using i by (simp only: vb fls_inv_def prod.case)
  qed
qed

lemma fls_masks:
  "(0xFFFF0000 :: uint32) = NOT (mask (32 - 16))" "(0xFF000000 :: uint32) = NOT (mask (32 - 8))"
  "(0xF0000000 :: uint32) = NOT (mask (32 - 4))" "(0xC0000000 :: uint32) = NOT (mask (32 - 2))"
  "(0x80000000 :: uint32) = NOT (mask (32 - 1))"
  by (simp_all add: mask_eq_exp_minus_1)

lemma find_last_set32_bounds:
  assumes "w \<noteq> 0"
  shows "0 < find_last_set32 w" "find_last_set32 w \<le> 32"
    "2 ^ (find_last_set32 w - 1) \<le> unat w" "unat w < 2 ^ find_last_set32 w"
proof -
  from assms have "0 < unat w" by (simp add: unat_gt_0)
  then have p0: "fls_inv w 32 (w, 32)" by (simp add: fls_inv_def)
  define p1 where "p1 = fls_step 0xFFFF0000 16 (w, 32)"
  define p2 where "p2 = fls_step 0xFF000000 8 p1"
  define p3 where "p3 = fls_step 0xF0000000 4 p2"
  define p4 where "p4 = fls_step 0xC0000000 2 p3"
  define p5 where "p5 = fls_step 0x80000000 1 p4"
  have "fls_inv w 16 p1" unfolding p1_def
    by (rule fls_step_inv [OF _ fls_masks(1)]) (use p0 in simp_all)
  then have "fls_inv w 8 p2" unfolding p2_def
    by (intro fls_step_inv [OF _ fls_masks(2)]) simp_all
  then have "fls_inv w 4 p3" unfolding p3_def
    by (intro fls_step_inv [OF _ fls_masks(3)]) simp_all
  then have "fls_inv w 2 p4" unfolding p4_def
    by (intro fls_step_inv [OF _ fls_masks(4)]) simp_all
  then have "fls_inv w 1 p5" unfolding p5_def
    by (intro fls_step_inv [OF _ fls_masks(5)]) simp_all
  moreover have r: "find_last_set32 w = snd p5"
    using assms by (simp add: find_last_set32_def p1_def p2_def p3_def p4_def p5_def)
  ultimately obtain v b where b: "find_last_set32 w = b" "unat v = unat w * 2 ^ (32 - b)"
      "1 \<le> b" "b \<le> 32" "2 ^ 31 \<le> unat (v :: uint32)"
    by (cases p5) (auto simp: fls_inv_def)
  have "unat w * 2 ^ (32 - b) < 2 ^ 32" using unsigned_less [of v, where ?'a = nat] b by simp
  also have "(2 ^ 32 :: nat) = 2 ^ b * 2 ^ (32 - b)" using b by (simp flip: power_add)
  finally have hi: "unat w < 2 ^ b" by simp
  have "2 ^ (b - 1) * 2 ^ (32 - b) = (2 ^ 31 :: nat)" using b by (simp flip: power_add)
  then have "2 ^ (b - 1) * 2 ^ (32 - b) \<le> unat w * 2 ^ (32 - b)" using b by simp
  then have lo: "2 ^ (b - 1) \<le> unat w" by simp
  show "0 < find_last_set32 w" "find_last_set32 w \<le> 32"
    "2 ^ (find_last_set32 w - 1) \<le> unat w" "unat w < 2 ^ find_last_set32 w"
    using b hi lo by simp_all
qed

lemma bit_of_bounds:
  fixes w :: "'a::len word"
  assumes "2 ^ n \<le> unat w" "unat w < 2 ^ Suc n"
  shows "bit w n" "\<And>j. n < j \<Longrightarrow> \<not> bit w j"
proof -
  have "unat w div 2 ^ n = 1"
    using assms by (simp add: div_nat_eqI)
  then have "bit (unat w) n" by (simp add: bit_iff_odd)
  then show "bit w n" by (simp add: bit_unsigned_iff)
  fix j assume "n < j"
  then have "(2 :: nat) ^ Suc n \<le> 2 ^ j" by (intro power_increasing) auto
  with assms have "unat w div 2 ^ j = 0" by simp
  then have "\<not> bit (unat w) j" by (simp add: bit_iff_odd)
  then show "\<not> bit w j" using bit_imp_le_length [of w j] by (auto simp: bit_unsigned_iff possible_bit_def)
qed

lemma find_last_set32_cases:
  obtains "find_last_set32 w = 0" "w = 0"
  | i where "find_last_set32 w = Suc i" "bit w i" "\<And>j. i < j \<Longrightarrow> \<not> bit w j"
proof (cases "w = 0")
  case True
  with that(1) show ?thesis by (simp add: find_last_set32_def)
next
  case False
  note b = find_last_set32_bounds [OF False]
  then obtain i where i: "find_last_set32 w = Suc i" by (metis gr0_implies_Suc)
  with b have "2 ^ i \<le> unat w" "unat w < 2 ^ Suc i" by simp_all
  from bit_of_bounds [OF this] i that(2) show ?thesis by blast
qed

lemma find_last_set64_cases:
  obtains "find_last_set64 w = 0" "w = 0"
  | i where "find_last_set64 w = Suc i" "bit w i" "\<And>j. i < j \<Longrightarrow> \<not> bit w j"
proof (cases "ucast (drop_bit 32 w) :: uint32" rule: find_last_set32_cases)
  case upper: 1
  have hi: "\<not> bit w j" if "32 \<le> j" for j
  proof (cases "j < 64")
    case True
    with that have "j - 32 < 32" "32 + (j - 32) = j" by auto
    with bit_ucast_upper [of "j - 32" w] upper show ?thesis by simp
  qed (auto dest: bit_imp_le_length)
  show ?thesis
  proof (cases "ucast w :: uint32" rule: find_last_set32_cases)
    case lower: 1
    have "\<not> bit w j" for j
      using hi [of j] bit_ucast_lower [of j w] lower by (cases "j < 32") auto
    then have "w = 0" by (simp add: bit_eq_iff)
    with that(1) upper lower show ?thesis by (simp add: find_last_set64_def)
  next
    case (2 i)
    from bit_imp_le_length [OF 2(2)] have i: "i < 32" by simp
    have "\<not> bit w j" if "i < j" for j
      using hi [of j] bit_ucast_lower [of j w] 2(3) [OF that] by (cases "j < 32") auto
    with that(2) [of i] upper 2 i show ?thesis
      by (simp add: find_last_set64_def bit_ucast_lower)
  qed
next
  case (2 i)
  from bit_imp_le_length [OF 2(2)] have i: "i < 32" by simp
  have "\<not> bit w j" if "32 + i < j" for j
  proof (cases "j < 64")
    case True
    with that have "j - 32 < 32" "32 + (j - 32) = j" "i < j - 32" by auto
    with bit_ucast_upper [of "j - 32" w] 2(3) show ?thesis by simp
  qed (auto dest: bit_imp_le_length)
  moreover have "bit w (32 + i)" using 2(2) bit_ucast_upper [OF i, of w] by simp
  ultimately show ?thesis
    using that(2) [of "32 + i"] 2(1) by (simp add: find_last_set64_def)
qed

lemma bit_clear_lowest_nat:
  assumes "bit a n" "\<And>j. j < n \<Longrightarrow> \<not> bit a j"
  shows "bit (a AND (a - 1)) i \<longleftrightarrow> bit (a :: nat) i \<and> i \<noteq> n"
  using assms
proof (induction n arbitrary: a i)
  case 0
  then have "odd a" by (simp add: bit_0)
  then obtain c where c: "a = 2 * c + 1" by (elim oddE)
  show ?case unfolding bit_and_iff c by (cases i) (simp_all add: bit_0 bit_Suc)
next
  case (Suc n)
  from Suc.prems(2) [of 0] have "even a" by (simp add: bit_0)
  then obtain c where c: "a = 2 * c" by (elim evenE)
  have b: "bit c n" using Suc.prems(1) by (simp add: c bit_Suc)
  have l: "\<not> bit c j" if "j < n" for j
    using Suc.prems(2) [of "Suc j"] that by (simp add: c bit_Suc)
  from b have "c \<noteq> 0" by (cases "c = 0") auto
  then have d: "(2 * c - 1) div 2 = c - 1" by auto
  show ?case
  proof (cases i)
    case 0
    show ?thesis unfolding bit_and_iff c 0 by (simp add: bit_0)
  next
    case (Suc k)
    have "bit (a AND (a - 1)) i \<longleftrightarrow> bit (c AND (c - 1)) k"
      unfolding bit_and_iff c Suc by (simp add: bit_Suc d [simplified])
    with Suc.IH [OF b l] show ?thesis by (simp add: Suc c bit_Suc)
  qed
qed

lemma bit_unat: "bit (unat (w :: 'a::len word)) i \<longleftrightarrow> bit w i"
  by (auto simp: bit_unsigned_iff dest: bit_imp_le_length)

lemma bit_clear_lowest:
  fixes w :: "'a::len word"
  assumes "bit w n" "\<And>j. j < n \<Longrightarrow> \<not> bit w j"
  shows "{i. bit (w AND (w - 1)) i} = {i. bit w i} - {n}"
proof -
  have "w \<noteq> 0" using assms(1) by auto
  then have "unat (w AND (w - 1)) = unat w AND (unat w - 1)"
    by (simp add: unsigned_and_eq unat_minus_one)
  moreover have "bit (unat w) n" "\<And>j. j < n \<Longrightarrow> \<not> bit (unat w) j"
    using assms by (auto simp: bit_unat)
  ultimately have "bit (unat (w AND (w - 1))) i \<longleftrightarrow> bit (unat w) i \<and> i \<noteq> n" for i
    using bit_clear_lowest_nat by simp
  then have "bit (w AND (w - 1)) i \<longleftrightarrow> bit w i \<and> i \<noteq> n" for i
    by (simp only: bit_unat)
  then show ?thesis by auto
qed

lemma finite_bits [simp]: "finite {i. bit (w :: 'a::len word) i}"
  by (rule finite_subset [of _ "{..<LENGTH('a)}"]) (auto dest: bit_imp_le_length)

lemma num_bits_set_loop_eq: "num_bits_set_loop w c = c + card {i. bit w i}"
proof (induction w c rule: num_bits_set_loop.induct)
  case (1 w c)
  show ?case
  proof (cases w rule: find_first_set64_cases)
    case 1
    then show ?thesis by (simp add: num_bits_set_loop.simps)
  next
    case (2 i)
    then have w: "w \<noteq> 0" by auto
    have "card {i. bit w i} = Suc (card ({i. bit w i} - {i}))"
      using 2(2) by (intro card.remove) simp_all
    with 1 [OF w] bit_clear_lowest [OF 2(2,3)] w show ?thesis
      by (simp add: num_bits_set_loop.simps [of w c])
  qed
qed

lemma num_bits_set_eq: "num_bits_set w = card {i. bit w i}"
  by (simp add: num_bits_set_def num_bits_set_loop_eq)

lemma find_first_set64_Min: "find_first_set64 w = (if w = 0 then 0 else Suc (Min {i. bit w i}))"
  by (rule find_first_set64_cases [of w]) (auto simp: not_less [symmetric] intro!: Min_eqI [symmetric])

lemma find_last_set64_Max: "find_last_set64 w = (if w = 0 then 0 else Suc (Max {i. bit w i}))"
  by (rule find_last_set64_cases [of w]) (auto simp: not_less [symmetric] intro!: Max_eqI [symmetric])

lemma find_first_clear64_LEAST:
  "find_first_clear64 w = (if w = - 1 then 0 else Suc (LEAST i. \<not> bit w i))"
proof (cases "find_first_clear64 w")
  case 0
  then have "w = - 1" unfolding find_first_clear64_eq_0 by (simp add: bit_eq_iff)
  with 0 show ?thesis by simp
next
  case (Suc i)
  then have i: "i < 64" "\<not> bit w i" "\<forall>j<i. bit w j" by (auto simp: find_first_clear64_Suc)
  then have "(LEAST i. \<not> bit w i) = i" by (intro Least_equality) (auto simp: not_less [symmetric])
  moreover have "w \<noteq> - 1" using i by auto
  ultimately show ?thesis using Suc by simp
qed

section \<open>Properties\<close>

text \<open>
  The scans of one block: \<open>find_first_set64\<close>, \<open>find_first_clear64\<close> and the binary search of
  \<open>find_last_set64\<close> return one more than the least set, least clear and greatest set position of the
  word and 0 when there is none; \<open>num_bits_set\<close> is the number of set bits.
\<close>

theorem block_scans:
  "find_first_set64 w = (if w = 0 then 0 else Suc (Min {i. bit w i})) \<and>
   find_last_set64 w = (if w = 0 then 0 else Suc (Max {i. bit w i})) \<and>
   find_first_clear64 w = (if w = - 1 then 0 else Suc (LEAST i. \<not> bit w i)) \<and>
   num_bits_set w = card {i. bit w i}"
  by (simp add: find_first_set64_Min find_last_set64_Max find_first_clear64_LEAST num_bits_set_eq)

end
