(* ===== verification/Bit_Set.thy ===== *)
theory Bit_Set
  imports Bit_Words
begin

unbundle bit_operations_syntax

text \<open>
  \<open>class BitSet\<close> (src/base/bitset.h, src/base/bitset.cc): a growing vector of 64-bit
  blocks whose last block is never zero. The model is the list of blocks; every method of the class
  is a definition here. \<open>bits\<close> is the abstraction, the set of the positions whose bit
  is set, and the lemmas show that each method computes on the blocks what its
  name says of that set and keeps the last block non-zero, so that
  \<open>check_invariants\<close> never aborts.
\<close>

section \<open>The class\<close>

type_synonym bitset = "uint64 list"

definition npos :: nat where
  "npos = 2 ^ 64 - 1"

definition block_index :: "nat \<Rightarrow> nat" where
  "block_index pos = pos div 64"

definition block_offset :: "nat \<Rightarrow> nat" where
  "block_offset pos = pos mod 64"

definition bit_position :: "nat \<Rightarrow> nat \<Rightarrow> nat" where
  "bit_position idx offset = u64 (idx * 64 + offset)"

definition bset :: "nat \<Rightarrow> bitset \<Rightarrow> bitset" where
  "bset pos bs =
     (let idx = block_index pos;
          bs = (if idx \<ge> length bs then vec_resize 0 (idx + 1) bs else bs)
      in bs[idx := bs ! idx OR push_bit (block_offset pos) 1])"

fun compact_loop :: "bitset \<Rightarrow> nat \<Rightarrow> bitset" where
  "compact_loop bs (Suc i) =
     (if bs ! Suc i \<noteq> 0 then vec_resize 0 (Suc i + 1) bs else compact_loop bs i)"
| "compact_loop bs 0 = (if bs ! 0 \<noteq> 0 then vec_resize 0 1 bs else [])"

definition compact :: "bitset \<Rightarrow> bitset" where
  "compact bs = (if length bs = 0 then bs else compact_loop bs (length bs - 1))"

definition breset :: "nat \<Rightarrow> bitset \<Rightarrow> bitset" where
  "breset pos bs =
     (let idx = block_index pos in
      if idx < length bs
      then compact (bs[idx := bs ! idx AND NOT (push_bit (block_offset pos) 1)])
      else bs)"

definition btest :: "bitset \<Rightarrow> nat \<Rightarrow> bool" where
  "btest bs pos =
     (let idx = block_index pos in
      if idx < length bs then bs ! idx AND push_bit (block_offset pos) 1 \<noteq> 0 else False)"

definition bclear :: "bitset \<Rightarrow> bitset" where
  "bclear bs = vec_resize 0 0 bs"

definition bempty :: "bitset \<Rightarrow> bool" where
  "bempty bs = (length bs = 0)"

definition bnone :: "bitset \<Rightarrow> bool" where
  "bnone bs = (length bs = 0)"

definition bany :: "bitset \<Rightarrow> bool" where
  "bany bs = (length bs \<noteq> 0)"

definition bsize :: "bitset \<Rightarrow> nat" where
  "bsize bs = u64 (length bs * 64)"

definition bcount :: "bitset \<Rightarrow> nat" where
  "bcount bs = u64 (fold (\<lambda>b count. count + num_bits_set b) bs 0)"

definition check_invariants :: "bitset \<Rightarrow> bitset option" where
  "check_invariants bs =
     (if length bs \<noteq> 0 then do { _ \<leftarrow> cpp_assert (bs ! (length bs - 1) \<noteq> 0); Some bs }
      else Some bs)"

text \<open>
  The scans over the blocks: the \<open>for\<close> loop over \<open>idx\<close> is the recursion over the blocks
  from \<open>idx\<close> on; \<open>scan\<close> is the scan of one block.
\<close>

fun scan_blocks :: "(uint64 \<Rightarrow> nat) \<Rightarrow> nat \<Rightarrow> nat \<Rightarrow> bitset \<Rightarrow> nat" where
  "scan_blocks scan dflt idx [] = dflt"
| "scan_blocks scan dflt idx (b # bs) =
     (let r = scan b in
      if r > 0 then bit_position idx (r - 1) else scan_blocks scan dflt (idx + 1) bs)"

definition find_first :: "bitset \<Rightarrow> nat" where
  "find_first bs = scan_blocks find_first_set64 npos 0 bs"

definition find_next :: "bitset \<Rightarrow> nat \<Rightarrow> nat" where
  "find_next bs pos =
     (let idx = block_index pos in
      if idx \<ge> length bs then npos
      else
        (let r = (if block_offset pos < 63
                  then find_first_set64 (bs ! idx AND NOT (push_bit (block_offset pos + 1) 1 - 1))
                  else 0)
         in if r > 0 then bit_position idx (r - 1)
            else scan_blocks find_first_set64 npos (idx + 1) (drop (idx + 1) bs)))"

definition find_last :: "bitset \<Rightarrow> nat" where
  "find_last bs =
     (if length bs = 0 then npos
      else (let idx = length bs - 1; r = find_last_set64 (bs ! idx) in
            if r > 0 then bit_position idx (r - 1) else npos))"

definition find_first_clear :: "bitset \<Rightarrow> nat" where
  "find_first_clear bs = scan_blocks find_first_clear64 (bsize bs) 0 bs"

definition find_next_clear :: "bitset \<Rightarrow> nat \<Rightarrow> nat" where
  "find_next_clear bs pos =
     (let idx = block_index pos in
      if idx \<ge> length bs then u64 (pos + 1)
      else
        (let r = (if block_offset pos < 63
                  then find_first_clear64 (bs ! idx OR (push_bit (block_offset pos + 1) 1 - 1))
                  else 0)
         in if r > 0 then bit_position idx (r - 1)
            else scan_blocks find_first_clear64 (bsize bs) (idx + 1) (drop (idx + 1) bs)))"

definition intersects :: "bitset \<Rightarrow> bitset \<Rightarrow> bool" where
  "intersects bs rhs = list_ex (\<lambda>(a, b). a AND b \<noteq> 0) (zip bs rhs)"

definition beq :: "bitset \<Rightarrow> bitset \<Rightarrow> bool" where
  "beq bs rhs =
     (if length bs \<noteq> length rhs then False else list_all (\<lambda>(a, b). a = b) (zip bs rhs))"

definition bneq :: "bitset \<Rightarrow> bitset \<Rightarrow> bool" where
  "bneq bs rhs = (\<not> beq bs rhs)"

text \<open>
  \<open>BuildIntersection\<close> goes down from the last common block, so that the vector is resized
  once. \<open>build_inter_block\<close> is the body of its loop and of the block after it.
\<close>

definition build_inter_block :: "bitset \<Rightarrow> bitset \<Rightarrow> nat \<Rightarrow> bitset \<Rightarrow> bitset" where
  "build_inter_block lhs rhs idx bs =
     (if lhs ! idx AND rhs ! idx \<noteq> 0
      then (let bs = (if length bs = 0 then vec_resize 0 (idx + 1) bs else bs)
            in bs[idx := lhs ! idx AND rhs ! idx])
      else bs)"

fun build_inter_loop :: "bitset \<Rightarrow> bitset \<Rightarrow> nat \<Rightarrow> bitset \<Rightarrow> bitset" where
  "build_inter_loop lhs rhs (Suc i) bs =
     build_inter_loop lhs rhs i (build_inter_block lhs rhs (Suc i) bs)"
| "build_inter_loop lhs rhs 0 bs = build_inter_block lhs rhs 0 bs"

definition BuildIntersection :: "bitset \<Rightarrow> bitset \<Rightarrow> bitset option" where
  "BuildIntersection lhs rhs =
     (let minsize = min (length lhs) (length rhs) in
      if minsize = 0 then Some []
      else check_invariants (build_inter_loop lhs rhs (minsize - 1) []))"

definition band :: "bitset \<Rightarrow> bitset \<Rightarrow> bitset option" where
  "band bs rhs = do { temp \<leftarrow> BuildIntersection bs rhs; check_invariants temp }"

text \<open>A loop \<open>for idx = start .. stop: blocks[idx] = f idx\<close>.\<close>

definition for_blocks :: "nat \<Rightarrow> nat \<Rightarrow> (nat \<Rightarrow> bitset \<Rightarrow> uint64) \<Rightarrow> bitset \<Rightarrow> bitset" where
  "for_blocks start stop f bs = fold (\<lambda>idx bs. bs[idx := f idx bs]) [start..<stop] bs"

definition bor :: "bitset \<Rightarrow> bitset \<Rightarrow> bitset option" where
  "bor bs rhs =
     (let minsize = min (length bs) (length rhs);
          maxsize = max (length bs) (length rhs);
          temp = vec_resize 0 maxsize [];
          temp = for_blocks 0 minsize (\<lambda>idx _. bs ! idx OR rhs ! idx) temp;
          temp = for_blocks minsize (length bs) (\<lambda>idx _. bs ! idx) temp;
          temp = for_blocks minsize (length rhs) (\<lambda>idx _. rhs ! idx) temp
      in check_invariants temp)"

definition band_assign :: "bitset \<Rightarrow> bitset \<Rightarrow> bitset option" where
  "band_assign bs rhs =
     (let minsize = min (length bs) (length rhs);
          bs = for_blocks 0 minsize (\<lambda>idx bs. bs ! idx AND rhs ! idx) bs;
          bs = for_blocks minsize (length bs) (\<lambda>idx bs. 0) bs
      in check_invariants (compact bs))"

definition bor_assign :: "bitset \<Rightarrow> bitset \<Rightarrow> bitset option" where
  "bor_assign bs rhs =
     (let bs = (if length bs < length rhs then vec_resize 0 (length rhs) bs else bs);
          bs = for_blocks 0 (length rhs) (\<lambda>idx bs. bs ! idx OR rhs ! idx) bs
      in check_invariants bs)"

definition bSet :: "bitset \<Rightarrow> bitset \<Rightarrow> bitset option" where
  "bSet bs rhs = do { bs \<leftarrow> bor_assign bs rhs; check_invariants bs }"

definition bReset :: "bitset \<Rightarrow> bitset \<Rightarrow> bitset option" where
  "bReset bs rhs =
     (let minsize = min (length bs) (length rhs);
          bs = for_blocks 0 minsize (\<lambda>idx bs. bs ! idx AND NOT (rhs ! idx)) bs
      in check_invariants (compact bs))"

definition BuildComplement :: "bitset \<Rightarrow> bitset \<Rightarrow> bitset option" where
  "BuildComplement lhs rhs =
     (let bs = vec_resize 0 (length lhs) [];
          minsize = min (length bs) (length rhs);
          bs = for_blocks 0 minsize (\<lambda>idx _. lhs ! idx AND NOT (rhs ! idx)) bs;
          bs = for_blocks minsize (length lhs) (\<lambda>idx _. lhs ! idx) bs
      in check_invariants (compact bs))"

definition Contains :: "bitset \<Rightarrow> bitset \<Rightarrow> bool" where
  "Contains bs rhs =
     (if length bs < length rhs then False
      else list_all (\<lambda>(a, b). b AND NOT a = 0) (zip bs rhs))"

section \<open>Strings\<close>

text \<open>
  The loops \<open>for (pos = find_first(); pos != npos; pos = find_next(pos))\<close> are partial
  functions; the lemmas below show that they return.
\<close>

partial_function (option) to_string_loop :: "bitset \<Rightarrow> nat \<Rightarrow> string \<Rightarrow> string option" where
  "to_string_loop bs pos str =
     (if pos \<noteq> npos then to_string_loop bs (find_next bs pos) (str[pos := CHR ''1''])
      else Some str)"

definition ToString :: "bitset \<Rightarrow> string option" where
  "ToString bs =
     (let last_pos = find_last bs in
      if last_pos = npos then Some []
      else to_string_loop bs (find_first bs) (replicate (last_pos + 1) (CHR ''0'')))"

fun from_string_loop :: "string \<Rightarrow> nat \<Rightarrow> bitset \<Rightarrow> bitset" where
  "from_string_loop str (Suc i) bs =
     from_string_loop str i (if str ! Suc i = CHR ''1'' then bset (Suc i) bs else bs)"
| "from_string_loop str 0 bs = (if str ! 0 = CHR ''1'' then bset 0 bs else bs)"

definition FromString :: "string \<Rightarrow> bitset" where
  "FromString str =
     (if length str = 0 then [] else from_string_loop str (length str - 1) [])"

text \<open>
  \<open>integerToString\<close> (src/base/string_util.h) prints an integer in decimal.
\<close>

fun integerToString :: "nat \<Rightarrow> string" where
  "integerToString n =
     (if n < 10 then [char_of (48 + n)]
      else integerToString (n div 10) @ [char_of (48 + n mod 10)])"

declare integerToString.simps [simp del]

partial_function (option) numbered_loop ::
  "bitset \<Rightarrow> nat \<Rightarrow> nat \<Rightarrow> bool \<Rightarrow> string \<Rightarrow> (nat \<times> bool \<times> string) option" where
  "numbered_loop bs pos last_pos rng oss =
     (if pos = npos then Some (last_pos, rng, oss)
      else if last_pos = npos
      then numbered_loop bs (find_next bs pos) pos rng (oss @ integerToString pos)
      else if pos = last_pos + 1
      then numbered_loop bs (find_next bs pos) pos True oss
      else if rng
      then numbered_loop bs (find_next bs pos) pos False
             (oss @ ''-'' @ integerToString last_pos @ '','' @ integerToString pos)
      else numbered_loop bs (find_next bs pos) pos rng (oss @ '','' @ integerToString pos))"

definition ToNumberedString :: "bitset \<Rightarrow> string option" where
  "ToNumberedString bs =
     (if bempty bs then Some ''-''
      else do {
        (last_pos, rng, oss) \<leftarrow> numbered_loop bs (find_first bs) npos False [];
        Some (if rng then oss @ ''-'' @ integerToString last_pos else oss)
      })"

section \<open>Abstraction\<close>

definition bits :: "bitset \<Rightarrow> nat set" where
  "bits bs = {p. btest bs p}"

definition bs_inv :: "bitset \<Rightarrow> bool" where
  "bs_inv bs = (bs \<noteq> [] \<longrightarrow> last bs \<noteq> 0)"

definition blk :: "bitset \<Rightarrow> nat \<Rightarrow> uint64" where
  "blk bs i = (if i < length bs then bs ! i else 0)"

lemma btest_blk: "btest bs p \<longleftrightarrow> bit (blk bs (p div 64)) (p mod 64)"
  by (simp add: btest_def block_index_def block_offset_def blk_def and_exp_eq_0_iff_not_bit)

lemma mem_bits: "p \<in> bits bs \<longleftrightarrow> bit (blk bs (p div 64)) (p mod 64)"
  by (simp add: bits_def btest_blk)

lemma bit_blk: "bit (blk bs i) j \<longleftrightarrow> j < 64 \<and> i * 64 + j \<in> bits bs"
proof (cases "j < 64")
  case True
  then have "(i * 64 + j) div 64 = i" "(i * 64 + j) mod 64 = j" by simp_all
  with True show ?thesis by (simp add: mem_bits)
qed (auto dest: bit_imp_le_length)

lemma bits_eq_iff: "bits a = bits b \<longleftrightarrow> (\<forall>i. blk a i = blk b i)"
proof
  assume eq: "bits a = bits b"
  show "\<forall>i. blk a i = blk b i"
    by (intro allI bit_word_eqI) (simp add: bit_blk eq)
qed (auto simp: mem_bits)

lemma bits_bound: "p \<in> bits bs \<Longrightarrow> p < length bs * 64"
proof -
  assume "p \<in> bits bs"
  then have "p div 64 < length bs" by (auto simp: mem_bits blk_def split: if_splits)
  then show ?thesis by (simp add: less_mult_imp_div_less div_less_iff_less_mult)
qed

lemma finite_bits_set [simp]: "finite (bits bs)"
  by (rule finite_subset [of _ "{..<length bs * 64}"]) (auto dest: bits_bound)

lemma bits_Nil [simp]: "bits [] = {}"
  by (auto simp: mem_bits blk_def)

lemma blk_ext: "length a = length b \<Longrightarrow> (\<And>i. blk a i = blk b i) \<Longrightarrow> a = b"
  by (rule nth_equalityI) (simp, metis blk_def)

lemma length_le_of_blk:
  assumes "bs_inv a" "\<And>i. blk a i = blk b i"
  shows "length a \<le> length b"
proof (rule ccontr)
  assume n: "\<not> length a \<le> length b"
  then have "a \<noteq> []" by auto
  with assms(1) n have "blk a (length a - 1) \<noteq> 0"
    by (auto simp: blk_def bs_inv_def last_conv_nth)
  with assms(2) [of "length a - 1"] n show False by (auto simp: blk_def split: if_splits)
qed

lemma bits_inject: "bs_inv a \<Longrightarrow> bs_inv b \<Longrightarrow> bits a = bits b \<longleftrightarrow> a = b"
proof -
  assume i: "bs_inv a" "bs_inv b"
  { assume e: "bits a = bits b"
    then have "blk a k = blk b k" for k by (simp add: bits_eq_iff)
    with i have "length a = length b"
      by (intro le_antisym length_le_of_blk) simp_all
    with \<open>\<And>k. blk a k = blk b k\<close> have "a = b" by (intro blk_ext) }
  then show ?thesis by auto
qed

lemma bs_inv_check: "bs_inv bs \<Longrightarrow> check_invariants bs = Some bs"
  by (auto simp: check_invariants_def bs_inv_def last_conv_nth)

lemma check_invariants_Some: "check_invariants bs = Some r \<longleftrightarrow> r = bs \<and> bs_inv bs"
  by (auto simp: check_invariants_def bs_inv_def last_conv_nth cpp_assert_def)

section \<open>Single bits\<close>

lemma blk_vec_resize: "length bs \<le> n \<Longrightarrow> blk (vec_resize 0 n bs) i = blk bs i"
  by (auto simp: blk_def nth_vec_resize)

lemma blk_update: "k < length bs \<Longrightarrow> blk (bs[k := v]) i = (if i = k then v else blk bs i)"
  by (auto simp: blk_def nth_list_update)

lemma blk_bset:
  "blk (bset p bs) i = (if i = p div 64 then blk bs i OR push_bit (p mod 64) 1 else blk bs i)"
proof (cases "p div 64 < length bs")
  case True
  then show ?thesis
    by (auto simp: bset_def block_index_def block_offset_def Let_def blk_update) (simp add: blk_def)
next
  case False
  define r where "r = vec_resize 0 (p div 64 + 1) bs"
  from False have l: "p div 64 < length r" "r ! (p div 64) = blk r (p div 64)"
    by (simp_all add: r_def blk_def)
  have "bset p bs = r[p div 64 := r ! (p div 64) OR push_bit (p mod 64) 1]"
    using False by (simp add: bset_def block_index_def block_offset_def Let_def r_def)
  also have "blk \<dots> i = (if i = p div 64 then blk r i OR push_bit (p mod 64) 1 else blk r i)"
    using l by (auto simp: blk_update)
  finally show ?thesis using False by (simp add: r_def blk_vec_resize)
qed

lemma bits_bset: "bits (bset p bs) = insert p (bits bs)"
proof -
  have "q \<in> bits (bset p bs) \<longleftrightarrow> q = p \<or> q \<in> bits bs" for q
  proof -
    have "q = p \<longleftrightarrow> q div 64 = p div 64 \<and> q mod 64 = p mod 64"
      by (metis div_mult_mod_eq)
    moreover have "bit (push_bit (p mod 64) 1 :: uint64) (q mod 64) \<longleftrightarrow> q mod 64 = p mod 64"
      by (auto simp: bit_exp_iff)
    ultimately show ?thesis
      by (auto simp: mem_bits blk_bset bit_or_iff)
  qed
  then show ?thesis by auto
qed

lemma length_bset: "length (bset p bs) = max (length bs) (p div 64 + 1)"
  by (auto simp: bset_def block_index_def Let_def max_def)

lemma bs_inv_bset: "bs_inv bs \<Longrightarrow> bs_inv (bset p bs)"
proof (cases "p div 64 + 1 < length bs")
  case True
  moreover assume "bs_inv bs"
  ultimately show ?thesis
    by (auto simp: bs_inv_def bset_def block_index_def Let_def last_list_update)
next
  case False
  have "blk (bset p bs) (p div 64) \<noteq> 0"
    by (rule notI, drule arg_cong [where f = "\<lambda>w. bit w (p mod 64)"])
       (simp add: blk_bset bit_or_iff bit_exp_iff)
  with False show ?thesis
    by (auto simp: bs_inv_def last_conv_nth length_bset max_def blk_def split: if_splits)
qed

lemma blk_take: "blk (take n bs) k = (if k < n then blk bs k else 0)"
  by (simp add: blk_def)

lemma bs_inv_take: "i < length bs \<Longrightarrow> bs ! i \<noteq> 0 \<Longrightarrow> bs_inv (take (Suc i) bs)"
  by (simp add: bs_inv_def take_Suc_conv_app_nth)

lemma compact_loop_props:
  assumes "i < length bs" "\<And>k. i < k \<Longrightarrow> blk bs k = 0"
  shows "blk (compact_loop bs i) k = blk bs k \<and> bs_inv (compact_loop bs i) \<and>
    length (compact_loop bs i) \<le> length bs"
  using assms
proof (induction i)
  case 0
  show ?case
  proof (cases "bs ! 0 = 0")
    case True
    have "blk bs k = 0" using 0 True by (cases k) (simp_all add: blk_def)
    with True show ?thesis by (simp add: bs_inv_def blk_def)
  next
    case False
    with 0 bs_inv_take [of 0 bs] show ?thesis
      by (simp add: vec_resize_take blk_take Suc_leI)
  qed
next
  case (Suc i)
  show ?case
  proof (cases "bs ! Suc i = 0")
    case True
    have "blk bs j = 0" if "i < j" for j
      using Suc.prems that True by (cases "j = Suc i") (auto simp: blk_def)
    with Suc.IH Suc.prems True show ?thesis by simp
  next
    case False
    then have c: "compact_loop bs (Suc i) = take (Suc (Suc i)) bs"
      using Suc.prems(1) by (simp add: vec_resize_take)
    have "blk bs k = 0" if "\<not> k < Suc (Suc i)"
      using Suc.prems(2) [of k] that by simp
    with c bs_inv_take [OF Suc.prems(1) False] show ?thesis
      by (simp add: blk_take)
  qed
qed

lemma compact_props:
  "blk (compact bs) k = blk bs k" "bs_inv (compact bs)" "length (compact bs) \<le> length bs"
proof -
  have "blk (compact bs) k = blk bs k \<and> bs_inv (compact bs) \<and> length (compact bs) \<le> length bs"
  proof (cases "bs = []")
    case False
    then have "length bs - 1 < length bs" by simp
    moreover have "blk bs j = 0" if "length bs - 1 < j" for j
      using that by (auto simp: blk_def)
    ultimately show ?thesis
      using compact_loop_props [of "length bs - 1" bs k] False by (simp add: compact_def)
  qed (simp add: compact_def bs_inv_def)
  then show "blk (compact bs) k = blk bs k" "bs_inv (compact bs)" "length (compact bs) \<le> length bs"
    by simp_all
qed

lemma bits_compact: "bits (compact bs) = bits bs"
  by (simp add: bits_eq_iff compact_props)

lemma blk_breset:
  "blk (breset p bs) i =
     (if i = p div 64 then blk bs i AND NOT (push_bit (p mod 64) 1) else blk bs i)"
proof (cases "p div 64 < length bs")
  case True
  then have "blk (breset p bs) i = blk (bs[p div 64 := bs ! (p div 64) AND NOT (push_bit (p mod 64) 1)]) i"
    by (simp add: breset_def block_index_def block_offset_def Let_def compact_props)
  with True show ?thesis by (simp add: blk_update) (simp add: blk_def)
next
  case False
  then show ?thesis by (simp add: breset_def block_index_def) (simp add: blk_def)
qed

lemma pos_eq_iff: "(q :: nat) = p \<longleftrightarrow> q div 64 = p div 64 \<and> q mod 64 = p mod 64"
  by (metis div_mult_mod_eq)

lemma bit_one_shifted: "bit (push_bit (p mod 64) 1 :: uint64) (q mod 64) \<longleftrightarrow> q mod 64 = p mod 64"
  by (auto simp: bit_exp_iff)

lemma bits_breset: "bits (breset p bs) = bits bs - {p}"
  using pos_eq_iff [of _ p]
  by (auto simp: set_eq_iff mem_bits blk_breset bit_and_iff bit_not_iff bit_one_shifted [simplified])

lemma bs_inv_breset: "bs_inv bs \<Longrightarrow> bs_inv (breset p bs)"
  by (simp add: breset_def Let_def compact_props)

lemma length_breset: "length (breset p bs) \<le> length bs"
proof -
  have "length (compact (bs[k := w])) \<le> length bs" for k w
    using compact_props(3) [of "bs[k := w]"] by simp
  then show ?thesis by (simp add: breset_def Let_def)
qed

section \<open>Whole-set operations\<close>

lemma length_for_blocks [simp]: "length (for_blocks a n f bs) = length bs"
proof -
  have "length (fold (\<lambda>idx bs. bs[idx := f idx bs]) xs bs) = length bs" for xs
    by (induction xs arbitrary: bs) simp_all
  then show ?thesis by (simp add: for_blocks_def)
qed

lemma nth_for_blocks:
  assumes "i < length bs" "n \<le> length bs"
  shows "for_blocks a n (\<lambda>i bs. g i (bs ! i)) bs ! i =
    (if a \<le> i \<and> i < n then g i (bs ! i) else bs ! i)"
  using assms(2)
proof (induction n)
  case (Suc n)
  let ?f = "for_blocks a n (\<lambda>i bs. g i (bs ! i)) bs"
  show ?case
  proof (cases "a \<le> n")
    case True
    then have "for_blocks a (Suc n) (\<lambda>i bs. g i (bs ! i)) bs = ?f[n := g n (?f ! n)]"
      by (simp add: for_blocks_def)
    moreover have "?f ! n = bs ! n" if "n = i" using Suc that by simp
    ultimately show ?thesis using Suc True assms(1) by (auto simp: nth_list_update)
  next
    case False
    then show ?thesis by (auto simp: for_blocks_def)
  qed
qed (simp add: for_blocks_def)

lemma blk_for_blocks:
  assumes "n \<le> length bs"
  shows "blk (for_blocks a n (\<lambda>i bs. g i (bs ! i)) bs) i =
    (if a \<le> i \<and> i < n then g i (blk bs i) else blk bs i)"
  using nth_for_blocks [of i bs n a g] assms by (auto simp: blk_def)

lemmas blk_for_blocks_const = blk_for_blocks [where g = "\<lambda>i _. h i" for h]

lemma bor_eq:
  assumes "bs_inv a" "bs_inv b"
  shows "\<exists>r. bor a b = Some r \<and> bs_inv r \<and> bits r = bits a \<union> bits b"
proof -
  define m where "m = min (length a) (length b)"
  define t0 where "t0 = (vec_resize 0 (max (length a) (length b)) [] :: bitset)"
  define t1 where "t1 = for_blocks 0 m (\<lambda>idx _. a ! idx OR b ! idx) t0"
  define t2 where "t2 = for_blocks m (length a) (\<lambda>idx _. a ! idx) t1"
  define t3 where "t3 = for_blocks m (length b) (\<lambda>idx _. b ! idx) t2"
  have l: "length t0 = max (length a) (length b)" "length t1 = length t0" "length t2 = length t0"
      "length t3 = length t0" and m: "m \<le> length a" "m \<le> length b"
    by (simp_all add: t0_def t1_def t2_def t3_def m_def)
  have "blk t1 i = (if i < m then a ! i OR b ! i else 0)" for i
    unfolding t1_def using m l
    by (subst blk_for_blocks_const) (auto simp: t0_def blk_def nth_vec_resize)
  moreover have "blk t2 i = (if m \<le> i \<and> i < length a then a ! i else blk t1 i)" for i
    unfolding t2_def using l by (subst blk_for_blocks_const) auto
  moreover have "blk t3 i = (if m \<le> i \<and> i < length b then b ! i else blk t2 i)" for i
    unfolding t3_def using l by (subst blk_for_blocks_const) auto
  ultimately have blk: "blk t3 i = blk a i OR blk b i" for i
    by (auto simp: m_def blk_def [of a] blk_def [of b])
  have "bs_inv t3"
  proof (cases "t3 = []")
    case False
    then have "max (length a) (length b) \<noteq> 0" using l by auto
    then have "blk a (length t3 - 1) OR blk b (length t3 - 1) \<noteq> 0"
      using assms
      by (auto simp: bs_inv_def l max_def last_conv_nth blk_def not_le or_eq_0_iff split: if_splits)
    then have "blk t3 (length t3 - 1) \<noteq> 0" by (simp only: blk not_False_eq_True)
    with False show ?thesis by (auto simp: bs_inv_def last_conv_nth blk_def split: if_splits)
  qed (simp add: bs_inv_def)
  moreover have "bor a b = check_invariants t3"
    by (simp add: bor_def Let_def t0_def t1_def t2_def t3_def m_def)
  ultimately show ?thesis
    using bs_inv_check [of t3] by (auto simp: mem_bits blk bit_or_iff)
qed

lemma bor_assign_eq:
  assumes "bs_inv a" "bs_inv b"
  shows "\<exists>r. bor_assign a b = Some r \<and> bs_inv r \<and> bits r = bits a \<union> bits b"
proof -
  define t where "t = (if length a < length b then vec_resize 0 (length b) a else a)"
  define u where "u = for_blocks 0 (length b) (\<lambda>i bs. bs ! i OR b ! i) t"
  have l: "length t = max (length a) (length b)" "length u = length t" and t: "blk t i = blk a i" for i
    by (simp_all add: t_def u_def blk_vec_resize)
  have blk: "blk u i = blk a i OR blk b i" for i
    unfolding u_def using l by (subst blk_for_blocks) (auto simp: t blk_def [of b])
  have "bs_inv u"
  proof (cases "u = []")
    case False
    then have "max (length a) (length b) \<noteq> 0" using l by auto
    then have "blk a (length u - 1) OR blk b (length u - 1) \<noteq> 0"
      using assms
      by (auto simp: bs_inv_def l max_def last_conv_nth blk_def not_le or_eq_0_iff split: if_splits)
    then have "blk u (length u - 1) \<noteq> 0" by (simp only: blk not_False_eq_True)
    with False show ?thesis by (auto simp: bs_inv_def last_conv_nth blk_def split: if_splits)
  qed (simp add: bs_inv_def)
  moreover have "bor_assign a b = check_invariants u"
    by (simp add: bor_assign_def Let_def t_def u_def)
  ultimately show ?thesis
    using bs_inv_check [of u] by (auto simp: mem_bits blk bit_or_iff)
qed

lemma bSet_eq:
  assumes "bs_inv a" "bs_inv b"
  shows "bSet a b = bor_assign a b"
  using bor_assign_eq [OF assms] by (auto simp: bSet_def bs_inv_check)

lemma band_assign_eq:
  "\<exists>r. band_assign a b = Some r \<and> bs_inv r \<and> bits r = bits a \<inter> bits b"
proof -
  define m where "m = min (length a) (length b)"
  define t where "t = for_blocks 0 m (\<lambda>i bs. bs ! i AND b ! i) a"
  define u where "u = for_blocks m (length t) (\<lambda>i bs. 0) t"
  have t: "blk t i = (if i < m then blk a i AND b ! i else blk a i)" for i
    unfolding t_def by (subst blk_for_blocks) (auto simp: m_def)
  have "blk u i = (if m \<le> i \<and> i < length a then 0 else blk t i)" for i
    unfolding u_def by (subst blk_for_blocks_const) (auto simp: t_def)
  then have blk: "blk u i = blk a i AND blk b i" for i
    by (auto simp: t m_def blk_def [of a] blk_def [of b])
  have "band_assign a b = check_invariants (compact u)"
    by (simp add: band_assign_def Let_def t_def u_def m_def)
  then show ?thesis
    using bs_inv_check [of "compact u"]
    by (auto simp: compact_props bits_compact mem_bits blk bit_and_iff)
qed

lemma bReset_eq:
  "\<exists>r. bReset a b = Some r \<and> bs_inv r \<and> bits r = bits a - bits b"
proof -
  define m where "m = min (length a) (length b)"
  define t where "t = for_blocks 0 m (\<lambda>i bs. bs ! i AND NOT (b ! i)) a"
  have blk: "blk t i = blk a i AND NOT (blk b i)" for i
    unfolding t_def by (subst blk_for_blocks) (auto simp: m_def blk_def)
  have "bReset a b = check_invariants (compact t)"
    by (simp add: bReset_def Let_def t_def m_def)
  then show ?thesis
    using bs_inv_check [of "compact t"]
    by (auto simp: compact_props bits_compact mem_bits blk bit_and_iff bit_not_iff)
qed

lemma BuildComplement_eq:
  "\<exists>r. BuildComplement a b = Some r \<and> bs_inv r \<and> bits r = bits a - bits b"
proof -
  define m where "m = min (length a) (length b)"
  define t0 where "t0 = (vec_resize 0 (length a) [] :: bitset)"
  define t1 where "t1 = for_blocks 0 m (\<lambda>i _. a ! i AND NOT (b ! i)) t0"
  define t2 where "t2 = for_blocks m (length a) (\<lambda>i _. a ! i) t1"
  have "blk t1 i = (if i < m then a ! i AND NOT (b ! i) else 0)" for i
    unfolding t1_def
    by (subst blk_for_blocks_const) (auto simp: t0_def m_def blk_def nth_vec_resize)
  moreover have "blk t2 i = (if m \<le> i \<and> i < length a then a ! i else blk t1 i)" for i
    unfolding t2_def by (subst blk_for_blocks_const) (auto simp: t0_def t1_def)
  ultimately have blk: "blk t2 i = blk a i AND NOT (blk b i)" for i
    by (auto simp: m_def blk_def [of a] blk_def [of b])
  have "BuildComplement a b = check_invariants (compact t2)"
    by (simp add: BuildComplement_def Let_def t0_def t1_def t2_def m_def)
  then show ?thesis
    using bs_inv_check [of "compact t2"]
    by (auto simp: compact_props bits_compact mem_bits blk bit_and_iff bit_not_iff)
qed

lemma build_inter_block_props:
  assumes i: "i < length a" "i < length b" and bs: "bs = [] \<or> i + 1 < length bs" "bs_inv bs"
    "blk bs i = 0"
  shows "bs_inv (build_inter_block a b i bs) \<and>
    (build_inter_block a b i bs = [] \<or> i < length (build_inter_block a b i bs)) \<and>
    (\<forall>k. blk (build_inter_block a b i bs) k = (if k = i then blk a k AND blk b k else blk bs k))"
proof (cases "a ! i AND b ! i = 0")
  case True
  then show ?thesis using assms by (auto simp: build_inter_block_def blk_def)
next
  case nz: False
  have ab: "a ! i = blk a i" "b ! i = blk b i" using i by (simp_all add: blk_def)
  show ?thesis
  proof (cases "bs = []")
    case True
    define v where "v = (vec_resize 0 (i + 1) [] :: bitset)"
    have v: "length v = i + 1" "blk v k = 0" for k
      by (simp_all add: v_def blk_def nth_vec_resize)
    have r: "build_inter_block a b i bs = v[i := blk a i AND blk b i]"
      using nz True by (simp add: build_inter_block_def v_def ab)
    from v(1) have "v \<noteq> []" by auto
    with v nz show ?thesis
      unfolding r by (simp add: blk_update bs_inv_def last_list_update True ab) (simp add: blk_def)
  next
    case False
    with bs nz have r: "build_inter_block a b i bs = bs[i := blk a i AND blk b i]" "i + 1 < length bs"
      by (simp_all add: build_inter_block_def Let_def ab)
    from r(2) have "i \<noteq> length bs - 1" by simp
    with r(2) bs False show ?thesis
      unfolding r(1) by (simp add: blk_update bs_inv_def last_list_update)
  qed
qed

lemma build_inter_loop_props:
  assumes "i < length a" "i < length b" "bs = [] \<or> i + 1 < length bs" "bs_inv bs"
    "\<And>k. k \<le> i \<Longrightarrow> blk bs k = 0"
  shows "bs_inv (build_inter_loop a b i bs) \<and>
    blk (build_inter_loop a b i bs) k = (if k \<le> i then blk a k AND blk b k else blk bs k)"
  using assms
proof (induction i arbitrary: bs)
  case 0
  with build_inter_block_props [of 0 a b bs] show ?case by simp
next
  case (Suc i)
  define r where "r = build_inter_block a b (Suc i) bs"
  from build_inter_block_props [of "Suc i" a b bs] Suc.prems
  have r: "bs_inv r" "r = [] \<or> Suc i < length r"
      "\<And>k. blk r k = (if k = Suc i then blk a k AND blk b k else blk bs k)"
    by (simp_all add: r_def)
  have "bs_inv (build_inter_loop a b i r) \<and>
    blk (build_inter_loop a b i r) k = (if k \<le> i then blk a k AND blk b k else blk r k)"
    using Suc.prems r by (intro Suc.IH) auto
  then show ?case using Suc.prems(5) r(3) by (auto simp: le_Suc_eq simp flip: r_def)
qed

lemma BuildIntersection_eq:
  "\<exists>r. BuildIntersection a b = Some r \<and> bs_inv r \<and> bits r = bits a \<inter> bits b"
proof (cases "min (length a) (length b) = 0")
  case True
  then have "a = [] \<or> b = []" by (auto simp: min_def split: if_splits)
  with True show ?thesis by (auto simp: BuildIntersection_def bs_inv_def)
next
  case False
  define m where "m = min (length a) (length b) - 1"
  define r where "r = build_inter_loop a b m []"
  have m: "m < length a" "m < length b" using False unfolding m_def by linarith+
  have "bs_inv r \<and> blk r k = (if k \<le> m then blk a k AND blk b k else blk [] k)" for k
    unfolding r_def using m
    by (intro build_inter_loop_props) (auto simp: bs_inv_def blk_def)
  then have inv: "bs_inv r" and blk: "blk r k = blk a k AND blk b k" for k
    using False by (auto simp: m_def blk_def [of a] blk_def [of b] blk_def [of "[]"])
  have "BuildIntersection a b = check_invariants r"
    using False unfolding BuildIntersection_def Let_def m_def r_def by (simp only: if_False)
  then show ?thesis
    using bs_inv_check [OF inv] inv by (auto simp: mem_bits blk bit_and_iff)
qed

lemma band_eq: "\<exists>r. band a b = Some r \<and> bs_inv r \<and> bits r = bits a \<inter> bits b"
  using BuildIntersection_eq [of a b] by (auto simp: band_def bs_inv_check)

lemma set_zip_blk: "(x, y) \<in> set (zip a b) \<longleftrightarrow>
    (\<exists>i. i < length a \<and> i < length b \<and> x = blk a i \<and> y = blk b i)"
  by (auto simp: in_set_zip blk_def) 

lemma word_nonzero_bit: "w \<noteq> 0 \<longleftrightarrow> (\<exists>j. bit (w :: 'a::len word) j)"
  by (metis bit_0_eq bit_eqI bot_apply bot_bool_def)

lemma intersects_iff: "intersects a b \<longleftrightarrow> bits a \<inter> bits b \<noteq> {}"
proof
  assume "intersects a b"
  then obtain i where "blk a i AND blk b i \<noteq> 0"
    by (auto simp: intersects_def list_ex_iff set_zip_blk)
  then obtain j where "bit (blk a i) j" "bit (blk b i) j"
    by (auto simp: word_nonzero_bit bit_and_iff)
  then show "bits a \<inter> bits b \<noteq> {}" by (auto simp: bit_blk)
next
  assume "bits a \<inter> bits b \<noteq> {}"
  then obtain p where p: "p \<in> bits a" "p \<in> bits b" by auto
  then have "p div 64 < length a" "p div 64 < length b"
    by (auto simp: mem_bits blk_def split: if_splits)
  moreover have "blk a (p div 64) AND blk b (p div 64) \<noteq> 0"
    using p by (auto simp: word_nonzero_bit bit_and_iff mem_bits)
  moreover from calculation have "(blk a (p div 64), blk b (p div 64)) \<in> set (zip a b)"
    by (auto simp: set_zip_blk)
  ultimately show "intersects a b"
    unfolding intersects_def list_ex_iff by (metis (mono_tags, lifting) case_prod_conv)
qed

lemma beq_iff_eq: "beq a b \<longleftrightarrow> a = b"
proof -
  have "length a = length b \<Longrightarrow> list_all (\<lambda>(x, y). x = y) (zip a b) \<longleftrightarrow> a = b"
    by (induction rule: list_induct2) auto
  then show ?thesis by (auto simp: beq_def)
qed

lemma Contains_iff:
  assumes "bs_inv b"
  shows "Contains a b \<longleftrightarrow> bits b \<subseteq> bits a"
proof -
  have "p \<in> bits b - bits a \<longleftrightarrow> bit (blk b (p div 64) AND NOT (blk a (p div 64))) (p mod 64)" for p
    by (auto simp: mem_bits bit_and_iff bit_not_iff)
  then have "bits b \<subseteq> bits a" if "\<forall>i. blk b i AND NOT (blk a i) = 0"
    using that by force
  moreover have "blk b i AND NOT (blk a i) = 0" if "bits b \<subseteq> bits a" for i
  proof (rule bit_word_eqI)
    fix j
    show "bit (blk b i AND NOT (blk a i)) j = bit 0 j"
      using that by (auto simp: bit_and_iff bit_not_iff bit_blk)
  qed
  ultimately have sub: "bits b \<subseteq> bits a \<longleftrightarrow> (\<forall>i. blk b i AND NOT (blk a i) = 0)" by blast
  have len: "length b \<le> length a" if "bits b \<subseteq> bits a"
  proof (rule ccontr)
    assume n: "\<not> length b \<le> length a"
    then have "b \<noteq> []" "blk a (length b - 1) = 0" by (auto simp: blk_def)
    with assms have "blk b (length b - 1) AND NOT (blk a (length b - 1)) \<noteq> 0"
      by (simp add: bs_inv_def last_conv_nth blk_def)
    with that sub show False by blast
  qed
  have "(\<forall>i. blk b i AND NOT (blk a i) = 0) \<longleftrightarrow> list_all (\<lambda>(a, b). b AND NOT a = 0) (zip a b)"
    if l: "length b \<le> length a"
  proof -
    have "blk b i = 0" if "\<not> i < length b" for i using that by (simp add: blk_def)
    then have "(\<forall>i. blk b i AND NOT (blk a i) = 0) \<longleftrightarrow> (\<forall>i < length b. blk b i AND NOT (blk a i) = 0)"
      by (metis bit.conj_zero_left)
    also have "\<dots> \<longleftrightarrow> (\<forall>(x, y) \<in> set (zip a b). y AND NOT x = 0)"
    proof
      assume h: "\<forall>(x, y) \<in> set (zip a b). y AND NOT x = 0"
      show "\<forall>i < length b. blk b i AND NOT (blk a i) = 0"
      proof (intro allI impI)
        fix i assume "i < length b"
        with l have "(blk a i, blk b i) \<in> set (zip a b)"
          unfolding set_zip_blk by (intro exI [of _ i]) simp
        with h show "blk b i AND NOT (blk a i) = 0" by blast
      qed
    qed (auto simp: set_zip_blk)
    finally show ?thesis by (simp add: list_all_iff)
  qed
  with sub len show ?thesis by (auto simp: Contains_def)
qed

lemma fold_add_sum: "fold (\<lambda>b c. c + f b) bs (n :: nat) = n + sum_list (map f bs)"
  by (induction bs arbitrary: n) auto

lemma card_bits: "card (bits bs) = sum_list (map num_bits_set bs)"
proof (induction bs rule: rev_induct)
  case (snoc b bs)
  have "bits (bs @ [b]) = bits bs \<union> (\<lambda>j. length bs * 64 + j) ` {j. bit b j}" (is "_ = _ \<union> ?B")
  proof -
    have "p \<in> bits (bs @ [b]) \<longleftrightarrow> p \<in> bits bs \<or> p \<in> ?B" for p
    proof (cases "p div 64 = length bs")
      case True
      then obtain j where j: "p = length bs * 64 + j" "j < 64"
        by (metis div_mult_mod_eq mod_less_divisor zero_less_numeral)
      then have "p \<in> ?B \<longleftrightarrow> bit b (p mod 64)" by auto
      with True show ?thesis by (simp add: mem_bits blk_def)
    next
      case False
      then have "p \<notin> ?B" by (auto dest: bit_imp_le_length)
      with False show ?thesis by (auto simp: mem_bits blk_def nth_append)
    qed
    then show ?thesis by auto
  qed
  moreover have "bits bs \<inter> ?B = {}" by (auto dest: bits_bound)
  moreover have "card ?B = card {j. bit b j}" by (intro card_image inj_onI) simp
  ultimately show ?case
    using snoc by (simp add: card_Un_disjoint num_bits_set_eq)
qed simp

lemma bcount_eq: "length bs < 2 ^ 58 \<Longrightarrow> bcount bs = card (bits bs)"
proof -
  assume l: "length bs < 2 ^ 58"
  have "card (bits bs) \<le> card {..<length bs * 64}"
    by (intro card_mono) (auto dest: bits_bound)
  with l have "card (bits bs) < 2 ^ 64" by simp
  then show ?thesis by (simp add: bcount_def fold_add_sum card_bits)
qed

section \<open>Searches\<close>

definition hit_at :: "(uint64 \<Rightarrow> nat \<Rightarrow> bool) \<Rightarrow> bitset \<Rightarrow> nat \<Rightarrow> bool" where
  "hit_at hit bs p = hit (bs ! (p div 64)) (p mod 64)"

text \<open>The least element of a set from \<open>n\<close> on.\<close>

definition least_from :: "nat set \<Rightarrow> nat \<Rightarrow> nat \<Rightarrow> bool" where
  "least_from S n r = (r \<in> S \<and> n \<le> r \<and> (\<forall>p. n \<le> p \<longrightarrow> p < r \<longrightarrow> p \<notin> S))"

text \<open>What a scan of one block promises, for the set and for the clear bits alike.\<close>

locale block_scan =
  fixes scan :: "uint64 \<Rightarrow> nat" and hit :: "uint64 \<Rightarrow> nat \<Rightarrow> bool"
  assumes scan_0: "scan b = 0 \<Longrightarrow> j < 64 \<Longrightarrow> \<not> hit b j"
    and scan_Suc: "scan b = Suc j \<Longrightarrow> j < 64 \<and> hit b j \<and> (\<forall>k<j. \<not> hit b k)"
begin

lemma scan_blocks_from:
  fixes d :: nat
  assumes len: "length bs < 2 ^ 58" and idx: "idx \<le> length bs"
  defines "r \<equiv> scan_blocks scan d idx (drop idx bs)"
  shows "(r < length bs * 64 \<and> idx * 64 \<le> r \<and> hit_at hit bs r \<and> (\<forall>p. idx * 64 \<le> p \<longrightarrow> p < r \<longrightarrow> \<not> hit_at hit bs p)) \<or>
    (r = d \<and> (\<forall>p. idx * 64 \<le> p \<longrightarrow> p < length bs * 64 \<longrightarrow> \<not> hit_at hit bs p))"
  using idx unfolding r_def
proof (induction rule: inc_induct)
  case base
  then show ?case by simp
next
  case (step idx)
  then have d: "drop idx bs = bs ! idx # drop (Suc idx) bs" by (simp add: Cons_nth_drop_Suc)
  show ?case
  proof (cases "scan (bs ! idx)")
    case 0
    have "\<not> hit_at hit bs p" if "idx * 64 \<le> p" "p < Suc idx * 64" for p
    proof -
      from that have "p div 64 = idx" by auto
      with scan_0 [OF 0, of "p mod 64"] show ?thesis by (simp add: hit_at_def)
    qed
    then have "\<not> hit_at hit bs p" if "idx * 64 \<le> p" "Suc idx * 64 \<le> p \<longrightarrow> \<not> hit_at hit bs p" for p
      using that by (cases "p < Suc idx * 64") auto
    with step.IH 0 show ?thesis by (auto simp: d)
  next
    case (Suc j)
    from scan_Suc [OF this] have j: "j < 64" "hit (bs ! idx) j" "\<And>k. k < j \<Longrightarrow> \<not> hit (bs ! idx) k" by auto
    have "idx * 64 + j < length bs * 64" using j(1) step.hyps by simp
    moreover from this len have "bit_position idx j = idx * 64 + j" by (simp add: bit_position_def)
    moreover have "hit_at hit bs (idx * 64 + j)" using j by (simp add: hit_at_def)
    moreover have "\<not> hit_at hit bs p" if "idx * 64 \<le> p" "p < idx * 64 + j" for p
    proof -
      from that(1) obtain k where k: "p = idx * 64 + k" using le_Suc_ex by blast
      with that j(1) have "p div 64 = idx" "p mod 64 = k" "k < j" by auto
      with j(3) show ?thesis by (simp add: hit_at_def)
    qed
    ultimately show ?thesis by (simp add: d Suc)
  qed
qed

lemma next_in_block:
  assumes r: "scan m = Suc j" and m: "\<And>j. j < 64 \<Longrightarrow> hit m j \<longleftrightarrow> off < j \<and> idx * 64 + j \<in> S"
  shows "least_from S (Suc (idx * 64 + off)) (idx * 64 + j)" "j < 64"
proof -
  from scan_Suc [OF r] have j: "j < 64" "hit m j" "\<And>k. k < j \<Longrightarrow> \<not> hit m k" by auto
  have "k \<notin> S" if k: "Suc (idx * 64 + off) \<le> k" "k < idx * 64 + j" for k
  proof -
    from k(1) obtain i where i: "k = Suc (idx * 64 + off) + i" using le_Suc_ex by blast
    with k(2) have "off + i + 1 < j" by simp
    with m [of "off + i + 1"] j(1) j(3) [of "off + i + 1"] i show ?thesis by (simp add: ac_simps)
  qed
  with j m [of j] show "least_from S (Suc (idx * 64 + off)) (idx * 64 + j)" "j < 64"
    by (auto simp: least_from_def)
qed

lemma next_beyond_block:
  assumes r: "scan m = 0 \<or> 63 \<le> off"
    and m: "\<And>j. j < 64 \<Longrightarrow> hit m j \<longleftrightarrow> off < j \<and> idx * 64 + j \<in> S"
    and k: "k \<in> S" "idx * 64 + off < k"
  shows "Suc idx * 64 \<le> k"
proof (rule ccontr)
  assume "\<not> Suc idx * 64 \<le> k"
  moreover from k(2) obtain i where i: "k = Suc (idx * 64 + off) + i" using Suc_leI le_Suc_ex by blast
  ultimately have "off + i + 1 < 64" by simp
  moreover from this m [of "off + i + 1"] k(1) i have "hit m (off + i + 1)" by (simp add: ac_simps)
  ultimately show False using r scan_0 [of m "off + i + 1"] by auto
qed

end

interpretation set_scan: block_scan find_first_set64 bit
proof
  fix b j
  show "find_first_set64 b = 0 \<Longrightarrow> \<not> bit b j" by (simp add: find_first_set64_eq_0)
  assume "find_first_set64 b = Suc j"
  then show "j < 64 \<and> bit b j \<and> (\<forall>k<j. \<not> bit b k)"
    by (auto simp: find_first_set64_Suc dest: bit_imp_le_length)
qed

interpretation clear_scan: block_scan find_first_clear64 "\<lambda>b j. \<not> bit b j"
  by unfold_locales (auto simp: find_first_clear64_eq_0 find_first_clear64_Suc)

lemma mem_bits_at: "p < length bs * 64 \<Longrightarrow> p \<in> bits bs \<longleftrightarrow> hit_at bit bs p"
  "p < length bs * 64 \<Longrightarrow> p \<notin> bits bs \<longleftrightarrow> hit_at (\<lambda>b j. \<not> bit b j) bs p"
proof -
  assume "p < length bs * 64"
  then have "p div 64 < length bs" by (simp add: less_mult_imp_div_less)
  then show "p \<in> bits bs \<longleftrightarrow> hit_at bit bs p" "p \<notin> bits bs \<longleftrightarrow> hit_at (\<lambda>b j. \<not> bit b j) bs p"
    by (simp_all add: hit_at_def mem_bits blk_def)
qed

lemma scan_set_from:
  assumes "length bs < 2 ^ 58" "idx \<le> length bs"
  shows "least_from (bits bs) (idx * 64) (scan_blocks find_first_set64 d idx (drop idx bs)) \<or>
    scan_blocks find_first_set64 d idx (drop idx bs) = d \<and> (\<forall>p \<in> bits bs. p < idx * 64)"
  using set_scan.scan_blocks_from [OF assms, of d]
proof (elim disjE conjE)
  let ?r = "scan_blocks find_first_set64 d idx (drop idx bs)"
  assume r: "?r < length bs * 64" "idx * 64 \<le> ?r" "hit_at bit bs ?r"
    "\<forall>p. idx * 64 \<le> p \<longrightarrow> p < ?r \<longrightarrow> \<not> hit_at bit bs p"
  then have "least_from (bits bs) (idx * 64) ?r"
    by (auto simp: least_from_def mem_bits_at)
  then show ?thesis ..
qed (use mem_bits_at(1) bits_bound not_le in blast)

lemma scan_clear_from:
  assumes "length bs < 2 ^ 58" "idx \<le> length bs"
  shows "least_from (- bits bs) (idx * 64) (scan_blocks find_first_clear64 (bsize bs) idx (drop idx bs))"
  using clear_scan.scan_blocks_from [OF assms, of "bsize bs"]
proof (elim disjE conjE)
  let ?r = "scan_blocks find_first_clear64 (bsize bs) idx (drop idx bs)"
  { assume r: "?r < length bs * 64" "idx * 64 \<le> ?r" "hit_at (\<lambda>b j. \<not> bit b j) bs ?r"
      "\<forall>p. idx * 64 \<le> p \<longrightarrow> p < ?r \<longrightarrow> \<not> hit_at (\<lambda>b j. \<not> bit b j) bs p"
    then show ?thesis by (auto simp: least_from_def mem_bits_at(2) [symmetric]) }
  { assume r: "?r = bsize bs" "\<forall>p. idx * 64 \<le> p \<longrightarrow> p < length bs * 64 \<longrightarrow> \<not> hit_at (\<lambda>b j. \<not> bit b j) bs p"
    have "bsize bs = length bs * 64" using assms(1) by (simp add: bsize_def)
    with r assms(2) show ?thesis
      using bits_bound by (fastforce simp: least_from_def mem_bits_at(2) [symmetric]) }
qed

lemma find_first_least:
  assumes "length bs < 2 ^ 58"
  shows "if bits bs = {} then find_first bs = npos else least_from (bits bs) 0 (find_first bs)"
  using scan_set_from [OF assms, of 0 npos] by (auto simp: find_first_def least_from_def)

lemma find_first_clear_least:
  assumes "length bs < 2 ^ 58"
  shows "least_from (- bits bs) 0 (find_first_clear bs)"
  using scan_clear_from [OF assms, of 0] by (simp add: find_first_clear_def)

lemma bit_below_mask [simp]: "bit (2 * 2 ^ n - 1 :: uint64) j \<longleftrightarrow> j \<le> n \<and> j < 64"
  using bit_mask_iff [of "Suc n" j, where 'a = "64 word"] by (auto simp: mask_eq_exp_minus_1)

lemma least_from_skip:
  assumes "least_from S n r" "m \<le> n" "\<And>k. k \<in> S \<Longrightarrow> m \<le> k \<Longrightarrow> n \<le> k"
  shows "least_from S m r"
  using assms unfolding least_from_def by (meson not_le order_trans)

lemma find_next_least:
  assumes len: "length bs < 2 ^ 58"
  shows "if \<exists>q \<in> bits bs. p < q then least_from (bits bs) (Suc p) (find_next bs p)
    else find_next bs p = npos"
proof (cases "p div 64 < length bs")
  case False
  then have "\<not> (\<exists>q \<in> bits bs. p < q)" by (auto dest!: bits_bound)
  with False show ?thesis by (simp add: find_next_def block_index_def)
next
  case idx: True
  define idx off where "idx = p div 64" and "off = p mod 64"
  have p: "p = idx * 64 + off" "off < 64" by (simp_all add: idx_def off_def)
  define m where "m = bs ! idx AND NOT (push_bit (off + 1) 1 - 1)"
  define rest where "rest = scan_blocks find_first_set64 npos (idx + 1) (drop (idx + 1) bs)"
  have m: "bit m j \<longleftrightarrow> off < j \<and> idx * 64 + j \<in> bits bs" if "j < 64" for j
    using that idx unfolding m_def
    by (auto simp: bit_and_iff bit_not_iff mem_bits blk_def idx_def)
  have fn: "find_next bs p = (let r = (if off < 63 then find_first_set64 m else 0) in
      if r > 0 then bit_position idx (r - 1) else rest)"
    using idx by (simp add: find_next_def block_index_def block_offset_def idx_def off_def m_def rest_def Let_def)
  show ?thesis
  proof (cases "off < 63 \<and> find_first_set64 m \<noteq> 0")
    case True
    then obtain j where j: "find_first_set64 m = Suc j" using not0_implies_Suc by blast
    have l: "least_from (bits bs) (Suc p) (idx * 64 + j)"
      unfolding p(1) by (rule set_scan.next_in_block [OF j m])
    then have "bit_position idx j = idx * 64 + j"
      using len bits_bound [of "idx * 64 + j" bs] by (simp add: bit_position_def least_from_def)
    with fn j True l have "least_from (bits bs) (Suc p) (find_next bs p)" by simp
    moreover from l have "\<exists>q \<in> bits bs. p < q" unfolding least_from_def using Suc_le_lessD by blast
    ultimately show ?thesis by simp
  next
    case False
    then have f: "find_next bs p = rest" using fn by auto
    have no: "Suc idx * 64 \<le> k" if "k \<in> bits bs" "p < k" for k
      by (rule set_scan.next_beyond_block [of m off idx "bits bs"]) (use False m that p in auto)
    have "idx + 1 \<le> length bs" using idx by (simp add: idx_def)
    from scan_set_from [OF len this, of npos] show ?thesis
    proof (elim disjE conjE)
      assume l: "least_from (bits bs) ((idx + 1) * 64)
        (scan_blocks find_first_set64 npos (idx + 1) (drop (idx + 1) bs))"
      have "least_from (bits bs) (Suc p) (find_next bs p)"
        unfolding f rest_def by (rule least_from_skip [OF l]) (use p no in auto)
      moreover from this have "\<exists>q \<in> bits bs. p < q" unfolding least_from_def using Suc_le_lessD by blast
      ultimately show ?thesis by simp
    next
      assume "scan_blocks find_first_set64 npos (idx + 1) (drop (idx + 1) bs) = npos"
        "\<forall>p \<in> bits bs. p < (idx + 1) * 64"
      then show ?thesis using no f by (fastforce simp: rest_def)
    qed
  qed
qed

lemma find_next_clear_least:
  assumes len: "length bs < 2 ^ 58" and p: "p < npos"
  shows "least_from (- bits bs) (Suc p) (find_next_clear bs p)"
proof (cases "p div 64 < length bs")
  case False
  then have "Suc p \<notin> bits bs" by (auto dest!: bits_bound)
  moreover have "u64 (Suc p) = Suc p" using p by (simp add: npos_def)
  ultimately show ?thesis using False
    by (auto simp: find_next_clear_def block_index_def least_from_def)
next
  case idx: True
  define idx off where "idx = p div 64" and "off = p mod 64"
  have p: "p = idx * 64 + off" "off < 64" by (simp_all add: idx_def off_def)
  define m where "m = bs ! idx OR (push_bit (off + 1) 1 - 1)"
  define rest where "rest = scan_blocks find_first_clear64 (bsize bs) (idx + 1) (drop (idx + 1) bs)"
  have m: "\<not> bit m j \<longleftrightarrow> off < j \<and> idx * 64 + j \<in> - bits bs" if "j < 64" for j
    using that idx unfolding m_def
    by (auto simp: bit_or_iff mem_bits blk_def idx_def)
  have fn: "find_next_clear bs p = (let r = (if off < 63 then find_first_clear64 m else 0) in
      if r > 0 then bit_position idx (r - 1) else rest)"
    using idx by (simp add: find_next_clear_def block_index_def block_offset_def idx_def off_def m_def rest_def Let_def)
  show ?thesis
  proof (cases "off < 63 \<and> find_first_clear64 m \<noteq> 0")
    case True
    then obtain j where j: "find_first_clear64 m = Suc j" using not0_implies_Suc by blast
    have l: "least_from (- bits bs) (Suc p) (idx * 64 + j)"
      unfolding p(1) by (rule clear_scan.next_in_block [OF j m])
    have "j < 64" by (rule clear_scan.next_in_block [OF j m])
    then have "bit_position idx j = idx * 64 + j"
      using len idx by (simp add: bit_position_def idx_def)
    with fn j True l show ?thesis by simp
  next
    case False
    then have f: "find_next_clear bs p = rest" using fn by auto
    have no: "Suc idx * 64 \<le> k" if "k \<in> - bits bs" "p < k" for k
      by (rule clear_scan.next_beyond_block [of m off idx "- bits bs"]) (use False m that p in auto)
    have "idx + 1 \<le> length bs" using idx by (simp add: idx_def)
    from scan_clear_from [OF len this] show ?thesis
      unfolding f rest_def by (rule least_from_skip) (use p no in auto)
  qed
qed

lemma find_last_greatest:
  assumes len: "length bs < 2 ^ 58" and inv: "bs_inv bs"
  shows "if bits bs = {} then find_last bs = npos
    else find_last bs \<in> bits bs \<and> (\<forall>p \<in> bits bs. p \<le> find_last bs)"
proof (cases "bs = []")
  case True
  then show ?thesis by (simp add: find_last_def)
next
  case False
  then obtain n where n: "length bs = Suc n" by (cases bs) auto
  have b: "bs ! n \<noteq> 0" using inv n False by (simp add: bs_inv_def last_conv_nth)
  then obtain j where
    j: "find_last_set64 (bs ! n) = Suc j" "bit (bs ! n) j" "\<And>k. j < k \<Longrightarrow> \<not> bit (bs ! n) k"
    using find_last_set64_cases [of "bs ! n" thesis] by simp
  have "j < 64" using bit_imp_le_length [OF j(2)] by simp
  then have f: "find_last bs = n * 64 + j"
    using j(1) n len by (simp add: find_last_def bit_position_def)
  from \<open>j < 64\<close> have "(n * 64 + j) div 64 = n" "(n * 64 + j) mod 64 = j" by simp_all
  then have "n * 64 + j \<in> bits bs" using j(2) n by (simp only: mem_bits blk_def) simp
  moreover have "p \<le> n * 64 + j" if "p \<in> bits bs" for p
  proof (rule ccontr)
    assume "\<not> p \<le> n * 64 + j"
    then obtain i where i: "p = Suc (n * 64 + j) + i" using le_Suc_ex [of "Suc (n * 64 + j)" p] by (auto simp: not_le Suc_le_eq)
    with bits_bound [OF that] n have "j + i + 1 < 64" by simp
    moreover have "p = n * 64 + (j + i + 1)" using i by simp
    ultimately have "p div 64 = n" "p mod 64 = j + i + 1" by (simp_all only: div_mult_self3 mod_mult_self3 div_less mod_less)
    with that j(3) [of "j + i + 1"] n show False by (simp add: mem_bits blk_def)
  qed
  ultimately show ?thesis using f by auto
qed

section \<open>Iteration and strings\<close>

text \<open>
  The loops \<open>for (pos = find_first(); pos != npos; pos = find_next(pos))\<close> visit the members
  in increasing order: a cursor at \<open>pos\<close> has the members from \<open>n\<close> on still to visit.
\<close>

definition members_from :: "bitset \<Rightarrow> nat \<Rightarrow> nat list" where
  "members_from bs n = sorted_list_of_set {q \<in> bits bs. n \<le> q}"

definition cursor :: "bitset \<Rightarrow> nat \<Rightarrow> nat \<Rightarrow> bool" where
  "cursor bs n pos =
     (case members_from bs n of [] \<Rightarrow> pos = npos
      | q # qs \<Rightarrow> pos = q \<and> pos < npos \<and> qs = members_from bs (Suc q))"

lemma sorted_list_least:
  assumes "finite S" "least_from S n r"
  shows "sorted_list_of_set {q \<in> S. n \<le> q} = r # sorted_list_of_set {q \<in> S. Suc r \<le> q}"
proof -
  have "{q \<in> S. n \<le> q} = insert r {q \<in> S. Suc r \<le> q}"
    using assms(2) unfolding least_from_def by (auto simp: Suc_le_eq)
  moreover have "sorted_list_of_set (insert r {q \<in> S. Suc r \<le> q}) = r # sorted_list_of_set {q \<in> S. Suc r \<le> q}"
    using assms(1) by (simp add: sorted_list_of_set_insert_remove insort_is_Cons)
  ultimately show ?thesis by simp
qed

lemma cursor_intro:
  assumes len: "length bs < 2 ^ 58"
    and c: "if \<exists>q \<in> bits bs. n \<le> q then least_from (bits bs) n pos else pos = npos"
  shows "cursor bs n pos"
proof (cases "\<exists>q \<in> bits bs. n \<le> q")
  case True
  with c have l: "least_from (bits bs) n pos" by simp
  then have "pos < length bs * 64" using bits_bound by (simp add: least_from_def)
  with len have "pos < npos" by (simp add: npos_def)
  with sorted_list_least [OF finite_bits_set l] show ?thesis
    by (simp add: cursor_def members_from_def)
next
  case False
  then have "{q \<in> bits bs. n \<le> q} = {}" by auto
  with False c show ?thesis by (simp only: cursor_def members_from_def) simp
qed

lemma cursor_first: "length bs < 2 ^ 58 \<Longrightarrow> cursor bs 0 (find_first bs)"
  using find_first_least [of bs] by (intro cursor_intro) (auto split: if_splits)

lemma cursor_next: "length bs < 2 ^ 58 \<Longrightarrow> cursor bs (Suc p) (find_next bs p)"
  using find_next_least [of bs p] by (intro cursor_intro) (auto simp: Suc_le_eq)

lemma to_string_loop_eq:
  assumes len: "length bs < 2 ^ 58"
  shows "cursor bs n pos \<Longrightarrow>
    to_string_loop bs pos str = Some (fold (\<lambda>p s. s[p := CHR ''1'']) (members_from bs n) str)"
proof (induction "members_from bs n" arbitrary: n pos str)
  case Nil
  then show ?case by (simp add: cursor_def to_string_loop.simps)
next
  case (Cons q qs)
  then have q: "pos = q" "pos \<noteq> npos" "qs = members_from bs (Suc q)"
    unfolding cursor_def Cons.hyps(2) [symmetric] by auto
  show ?case
    using Cons.hyps(1) [OF q(3) cursor_next [OF len, of q]] q Cons.hyps(2) [symmetric]
    by (simp add: to_string_loop.simps [of bs q])
qed

lemma nth_fold_update:
  "i < length s \<Longrightarrow> (\<forall>p \<in> set ps. p < length s) \<Longrightarrow>
    fold (\<lambda>p s. s[p := c]) ps s ! i = (if i \<in> set ps then c else s ! i)"
  by (induction ps arbitrary: s) (auto simp: nth_list_update)

lemma length_fold_update [simp]: "length (fold (\<lambda>p s. s[p := c]) ps s) = length s"
  by (induction ps arbitrary: s) auto

lemma set_members_from: "set (members_from bs n) = {q \<in> bits bs. n \<le> q}"
  by (simp add: members_from_def finite_bits_set)

text \<open>What the string of a set is: one character for each position up to the greatest member.\<close>

definition bit_string :: "nat set \<Rightarrow> string" where
  "bit_string S = (if S = {} then []
     else map (\<lambda>i. if i \<in> S then CHR ''1'' else CHR ''0'') [0..<Suc (Max S)])"

lemma find_last_Max:
  assumes "length bs < 2 ^ 58" "bs_inv bs" "bits bs \<noteq> {}"
  shows "find_last bs = Max (bits bs)"
  using find_last_greatest [OF assms(1,2)] assms(3) finite_bits_set [of bs]
  by (auto intro!: Max_eqI [symmetric])

lemma ToString_eq:
  assumes len: "length bs < 2 ^ 58" and inv: "bs_inv bs"
  shows "ToString bs = Some (bit_string (bits bs))"
proof (cases "bits bs = {}")
  case True
  then show ?thesis using find_last_greatest [OF assms] by (simp add: ToString_def bit_string_def)
next
  case False
  let ?m = "find_last bs"
  have mem: "?m \<in> bits bs" "\<And>p. p \<in> bits bs \<Longrightarrow> p \<le> ?m"
    using find_last_greatest [OF assms] False by auto
  have m: "?m \<noteq> npos" using bits_bound [OF mem(1)] len by (simp add: npos_def)
  have "fold (\<lambda>p s. s[p := CHR ''1'']) (members_from bs 0) (replicate (?m + 1) (CHR ''0'')) =
      map (\<lambda>i. if i \<in> bits bs then CHR ''1'' else CHR ''0'') [0..<Suc ?m]"
    using mem by (intro nth_equalityI) (auto simp: nth_fold_update set_members_from less_Suc_eq_le simp del: upt_Suc replicate_Suc)
  with to_string_loop_eq [OF len cursor_first [OF len]] m False find_last_Max [OF len inv False] show ?thesis
    by (simp add: ToString_def Let_def bit_string_def del: upt_Suc)
qed

lemma bs_inv_from_string_loop: "bs_inv bs \<Longrightarrow> bs_inv (from_string_loop str n bs)"
  by (induction n arbitrary: bs) (simp_all add: bs_inv_bset)

lemma bits_from_string_loop:
  "q \<in> bits (from_string_loop str n bs) \<longleftrightarrow> q \<in> bits bs \<or> q \<le> n \<and> str ! q = CHR ''1''"
proof (induction n arbitrary: bs)
  case 0
  then show ?case by (cases "q = 0") (simp_all add: bits_bset)
next
  case (Suc n)
  show ?case
    unfolding from_string_loop.simps Suc.IH by (cases "q = Suc n") (simp_all add: bits_bset le_Suc_eq)
qed

lemma bs_inv_FromString: "bs_inv (FromString str)"
proof -
  have "bs_inv []" by (simp add: bs_inv_def)
  then show ?thesis by (simp add: FromString_def bs_inv_from_string_loop)
qed

lemma bits_FromString: "bits (FromString str) = {i. i < length str \<and> str ! i = CHR ''1''}"
proof (cases "length str")
  case 0
  then show ?thesis by (simp add: FromString_def)
next
  case (Suc n)
  then have "FromString str = from_string_loop str n []" by (simp add: FromString_def)
  then show ?thesis by (auto simp: bits_from_string_loop Suc less_Suc_eq_le)
qed

lemma bit_string_members:
  assumes "finite S"
  shows "{i. i < length (bit_string S) \<and> bit_string S ! i = CHR ''1''} = S"
  using assms by (auto simp: bit_string_def less_Suc_eq_le simp del: upt_Suc split: if_splits)

text \<open>The maximal runs of consecutive numbers in an increasing list, and how they are printed.\<close>

fun runs_from :: "nat \<Rightarrow> nat \<Rightarrow> nat list \<Rightarrow> (nat \<times> nat) list" where
  "runs_from a b [] = [(a, b)]"
| "runs_from a b (x # xs) =
     (if x = Suc b then runs_from a x xs else (a, b) # runs_from x x xs)"

fun runs :: "nat list \<Rightarrow> (nat \<times> nat) list" where
  "runs [] = []"
| "runs (x # xs) = runs_from x x xs"

fun print_run :: "nat \<times> nat \<Rightarrow> string" where
  "print_run (a, b) =
     (if a = b then integerToString a else integerToString a @ ''-'' @ integerToString b)"

fun print_runs :: "(nat \<times> nat) list \<Rightarrow> string" where
  "print_runs [] = ''-''"
| "print_runs [r] = print_run r"
| "print_runs (r # s # rs) = print_run r @ '','' @ print_runs (s # rs)"

lemma runs_from_Cons: "\<exists>c rs. runs_from a b xs = (a, c) # rs"
  by (induction xs arbitrary: b) auto

definition finish_run :: "nat \<times> bool \<times> string \<Rightarrow> string" where
  "finish_run = (\<lambda>(last_pos, rng, oss). if rng then oss @ ''-'' @ integerToString last_pos else oss)"

lemma numbered_loop_eq:
  assumes len: "length bs < 2 ^ 58"
  shows "cursor bs n pos \<Longrightarrow> a \<le> b \<Longrightarrow> b < n \<Longrightarrow> b < npos \<Longrightarrow>
    \<exists>r. numbered_loop bs pos b (a < b) (oss @ integerToString a) = Some r \<and>
      finish_run r = oss @ print_runs (runs_from a b (members_from bs n))"
proof (induction "members_from bs n" arbitrary: n pos a b oss)
  case Nil
  then show ?case by (auto simp: cursor_def numbered_loop.simps finish_run_def)
next
  case (Cons q qs)
  then have q: "pos = q" "pos < npos" "qs = members_from bs (Suc q)"
    unfolding cursor_def Cons.hyps(2) [symmetric] by auto
  have "q \<in> set (members_from bs n)" unfolding Cons.hyps(2) [symmetric] by simp
  then have "n \<le> q" by (simp add: set_members_from)
  note IH = Cons.hyps(1) [OF q(3) cursor_next [OF len]]
  obtain c rs where rs: "runs_from q q qs = (q, c) # rs" using runs_from_Cons by blast
  have b: "b \<noteq> npos" using Cons.prems by simp
  show ?case
  proof (cases "q = Suc b")
    case True
    then have "numbered_loop bs q b (a < b) (oss @ integerToString a) =
        numbered_loop bs (find_next bs q) q (a < q) (oss @ integerToString a)"
      using b q(1,2) Cons.prems by (subst numbered_loop.simps) simp
    with IH [of a q oss] Cons.prems q True show ?thesis
      unfolding Cons.hyps(2) [symmetric] by simp
  next
    case False
    then have "numbered_loop bs q b (a < b) (oss @ integerToString a) =
        numbered_loop bs (find_next bs q) q (q < q) ((oss @ print_run (a, b) @ '','') @ integerToString q)"
      using b q(1,2) Cons.prems by (subst numbered_loop.simps) auto
    with IH [of q q "oss @ print_run (a, b) @ '',''"] Cons.prems q rs False show ?thesis
      unfolding Cons.hyps(2) [symmetric] by simp
  qed
qed

lemma bits_empty_iff: "bs_inv bs \<Longrightarrow> bits bs = {} \<longleftrightarrow> bs = []"
  using bits_inject [of bs "[]"] by (auto simp: bs_inv_def)

lemma ToNumberedString_eq:
  assumes len: "length bs < 2 ^ 58" and inv: "bs_inv bs"
  shows "ToNumberedString bs = Some (print_runs (runs (sorted_list_of_set (bits bs))))"
proof (cases "bs = []")
  case True
  then show ?thesis by (simp add: ToNumberedString_def bempty_def)
next
  case False
  have all: "members_from bs 0 = sorted_list_of_set (bits bs)" by (simp add: members_from_def)
  moreover have "bits bs \<noteq> {}" using False inv by (simp add: bits_empty_iff)
  ultimately obtain q qs where qs: "sorted_list_of_set (bits bs) = q # qs"
    by (metis finite_bits_set neq_Nil_conv set_empty2 set_sorted_list_of_set)
  with all cursor_first [OF len] have q: "find_first bs = q" "q < npos" "qs = members_from bs (Suc q)"
    by (auto simp: cursor_def)
  have "numbered_loop bs q npos False [] = numbered_loop bs (find_next bs q) q False (integerToString q)"
    using q(2) by (simp add: numbered_loop.simps [of bs q])
  moreover obtain r where "numbered_loop bs (find_next bs q) q False (integerToString q) = Some r"
      "finish_run r = print_runs (runs_from q q qs)"
    using numbered_loop_eq [OF len cursor_next [OF len, of q], of q q "[]"] q by auto
  ultimately show ?thesis using False q(1) qs
    by (cases r) (simp add: ToNumberedString_def bempty_def finish_run_def)
qed

lemma least_from_Min:
  assumes "finite S" "least_from S n r"
  shows "r = Min {q \<in> S. n \<le> q}" "r \<in> S" "n \<le> r"
  using assms unfolding least_from_def by (auto intro!: Min_eqI [symmetric] simp: not_less [symmetric])

lemma least_from_LEAST: "least_from (- S) n r \<Longrightarrow> r = (LEAST q. n \<le> q \<and> q \<notin> S)"
  unfolding least_from_def by (intro Least_equality [symmetric]) (auto simp: not_less [symmetric])

lemma runs_from_spec:
  assumes "a \<le> b" "sorted_wrt (<) (b # xs)"
  shows "concat (map (\<lambda>(a, b). [a..<Suc b]) (runs_from a b xs)) = [a..<Suc b] @ xs \<and>
    sorted_wrt (\<lambda>(a, b) (c, d). Suc b < c) (runs_from a b xs) \<and>
    (\<forall>(c, d) \<in> set (tl (runs_from a b xs)). c \<in> set xs) \<and> hd (runs_from a b xs) \<in> {a} \<times> UNIV"
  using assms
proof (induction a b xs rule: runs_from.induct)
  case (1 a b)
  then show ?case by simp
next
  case (2 a b x xs)
  show ?case
  proof (cases "x = Suc b")
    case True
    with 2 show ?thesis by (auto split: prod.splits)
  next
    case False
    with 2 have x: "Suc b < x" by auto
    from 2 False have IH: "concat (map (\<lambda>(a, b). [a..<Suc b]) (runs_from x x xs)) = [x..<Suc x] @ xs"
      "sorted_wrt (\<lambda>(a, b) (c, d). Suc b < c) (runs_from x x xs)"
      "\<forall>(c, d) \<in> set (tl (runs_from x x xs)). c \<in> set xs" "hd (runs_from x x xs) \<in> {x} \<times> UNIV"
      by auto
    obtain c rs where rs: "runs_from x x xs = (x, c) # rs" using runs_from_Cons by blast
    have "Suc b < c'" if "(c', d) \<in> set rs" for c' d
    proof -
      from IH(3) that rs have "c' \<in> set xs" by fastforce
      with x 2(4) show ?thesis by fastforce
    qed
    moreover have "[x..<Suc x] = [x]" by simp
    ultimately show ?thesis using False IH rs x 2(3) by (auto simp del: upt_Suc)
  qed
qed

lemma runs_spec:
  assumes "sorted_wrt (<) xs"
  shows "concat (map (\<lambda>(a, b). [a..<Suc b]) (runs xs)) = xs" "sorted_wrt (\<lambda>(a, b) (c, d). Suc b < c) (runs xs)"
  using runs_from_spec [of "hd xs" "hd xs" "tl xs"] assms by (cases xs; simp)+

section \<open>Properties\<close>

text \<open>
  C28. \<open>set\<close>, \<open>reset\<close> and \<open>test\<close> are insertion, removal and membership on the set of positions;
  both updates keep the last block non-zero, so the class invariant that \<open>check_invariants\<close>
  asserts holds after them, and growing or compacting the vector never changes another position.
\<close>

theorem bitset_member_ops:
  assumes "bs_inv bs"
  shows "bits (bset p bs) = insert p (bits bs) \<and> check_invariants (bset p bs) = Some (bset p bs) \<and>
    bits (breset p bs) = bits bs - {p} \<and> check_invariants (breset p bs) = Some (breset p bs) \<and>
    (btest bs p \<longleftrightarrow> p \<in> bits bs)"
  using assms by (simp add: bits_bset bits_breset bs_inv_bset bs_inv_breset bs_inv_check) (simp add: bits_def)

theorem bitset_member_ops_witness:
  "bs_inv [5] \<and> bits (breset 70 (bset 70 [5])) = bits [5] - {70}"
proof -
  have inv: "bs_inv [5]" by (simp add: bs_inv_def)
  then show ?thesis
    using bitset_member_ops [OF inv, of 70] bitset_member_ops [OF bs_inv_bset [OF inv], of 70 70] by auto
qed

text \<open>
  C29. The set operators: intersection, union, the assigning forms, \<open>Set\<close>, \<open>Reset\<close>,
  \<open>BuildComplement\<close> and \<open>BuildIntersection\<close> on two bitsets that satisfy the invariant never trip
  the assertion, return a bitset that satisfies it, and compute the set operation.
\<close>

theorem bitset_algebra:
  assumes "bs_inv a" "bs_inv b"
  shows "succeeds (band a b) (\<lambda>r. bs_inv r \<and> bits r = bits a \<inter> bits b) \<and>
    succeeds (BuildIntersection a b) (\<lambda>r. bs_inv r \<and> bits r = bits a \<inter> bits b) \<and>
    succeeds (band_assign a b) (\<lambda>r. bs_inv r \<and> bits r = bits a \<inter> bits b) \<and>
    succeeds (bor a b) (\<lambda>r. bs_inv r \<and> bits r = bits a \<union> bits b) \<and>
    succeeds (bor_assign a b) (\<lambda>r. bs_inv r \<and> bits r = bits a \<union> bits b) \<and>
    succeeds (bSet a b) (\<lambda>r. bs_inv r \<and> bits r = bits a \<union> bits b) \<and>
    succeeds (bReset a b) (\<lambda>r. bs_inv r \<and> bits r = bits a - bits b) \<and>
    succeeds (BuildComplement a b) (\<lambda>r. bs_inv r \<and> bits r = bits a - bits b)"
  unfolding succeeds_iff bSet_eq [OF assms]
  by (intro conjI band_eq BuildIntersection_eq band_assign_eq bor_eq bor_assign_eq bReset_eq
      BuildComplement_eq assms)

theorem bitset_algebra_witness:
  "bs_inv [6, 1] \<and> bs_inv [3] \<and>
   succeeds (bReset [6, 1] [3]) (\<lambda>r. bs_inv r \<and> bits r = bits [6, 1] - bits [3])"
  using bitset_algebra [of "[6, 1]" "[3]"] by (simp add: bs_inv_def)

text \<open>
  C30. Comparing the block vectors decides the relations between the sets: \<open>operator==\<close> is equality of
  the sets, \<open>Contains\<close> is inclusion, \<open>intersects\<close> is a common member; \<open>any\<close>, \<open>none\<close> and \<open>empty\<close>
  look only at the number of blocks and still decide emptiness; \<open>count\<close> is the number of members.
\<close>

theorem bitset_relations:
  assumes "bs_inv a" "bs_inv b" "length a < 2 ^ 58"
  shows "(beq a b \<longleftrightarrow> bits a = bits b) \<and> (bneq a b \<longleftrightarrow> bits a \<noteq> bits b) \<and>
    (Contains a b \<longleftrightarrow> bits b \<subseteq> bits a) \<and> (intersects a b \<longleftrightarrow> bits a \<inter> bits b \<noteq> {}) \<and>
    (bempty a \<longleftrightarrow> bits a = {}) \<and> (bnone a \<longleftrightarrow> bits a = {}) \<and> (bany a \<longleftrightarrow> bits a \<noteq> {}) \<and>
    bcount a = card (bits a)"
  using assms
  by (simp add: beq_iff_eq bneq_def bits_inject Contains_iff intersects_iff bempty_def bnone_def
      bany_def bits_empty_iff bcount_eq)

theorem bitset_relations_witness:
  "bs_inv [6, 1] \<and> bs_inv [2] \<and> (Contains [6, 1] [2] \<longleftrightarrow> bits [2] \<subseteq> bits [6, 1]) \<and>
   bcount [6, 1] = card (bits [6, 1])"
  using bitset_relations [of "[6, 1]" "[2]"] by (simp add: bs_inv_def)

text \<open>
  C31. The searches for set bits: \<open>find_first\<close> returns the least member, \<open>find_next(pos)\<close> the least
  member after \<open>pos\<close> and \<open>find_last\<close> the greatest member, each \<open>npos\<close> exactly when there is none.
\<close>

theorem bitset_search_set:
  assumes "bs_inv bs" "length bs < 2 ^ 58"
  shows "(if bits bs = {} then find_first bs = npos \<and> find_last bs = npos
      else find_first bs = Min (bits bs) \<and> find_last bs = Max (bits bs)) \<and>
    (if \<exists>q \<in> bits bs. p < q then find_next bs p = Min {q \<in> bits bs. p < q}
      else find_next bs p = npos)"
proof -
  have "find_first bs = Min (bits bs)" if "bits bs \<noteq> {}"
    using find_first_least [OF assms(2)] least_from_Min(1) [OF finite_bits_set, of bs 0] that by simp
  moreover have "find_next bs p = Min {q \<in> bits bs. p < q}" if "\<exists>q \<in> bits bs. p < q"
    using find_next_least [OF assms(2), of p] least_from_Min(1) [OF finite_bits_set, of bs "Suc p"] that
    by (simp only: if_True Suc_le_eq)
  ultimately show ?thesis
    using find_first_least [OF assms(2)] find_next_least [OF assms(2), of p]
      find_last_greatest [OF assms(2,1)] find_last_Max [OF assms(2,1)] by simp
qed

theorem bitset_search_set_witness:
  "bs_inv [6, 1] \<and> find_next [6, 1] 2 = Min {q \<in> bits [6, 1]. 2 < q}"
proof -
  have "64 \<in> bits [6, 1]" by (simp add: bits_def btest_def block_index_def block_offset_def)
  then have "\<exists>q \<in> bits [6, 1]. 2 < q" by (rule bexI [rotated]) simp
  then show ?thesis using bitset_search_set [of "[6, 1]" 2] by (simp add: bs_inv_def)
qed

text \<open>
  C32. The searches for clear bits: \<open>find_first_clear\<close> returns the least non-member and
  \<open>find_next_clear(pos)\<close> the least non-member after \<open>pos\<close>; positions beyond the last block count as
  clear.
\<close>

theorem bitset_search_clear:
  assumes "length bs < 2 ^ 58" "p < npos"
  shows "find_first_clear bs = (LEAST q. q \<notin> bits bs) \<and>
    find_next_clear bs p = (LEAST q. p < q \<and> q \<notin> bits bs)"
  using find_first_clear_least [OF assms(1)] find_next_clear_least [OF assms]
  by (auto dest!: least_from_LEAST simp: Suc_le_eq)

theorem bitset_search_clear_witness:
  "find_next_clear [7] 0 = (LEAST q. 0 < q \<and> q \<notin> bits [7])"
  using bitset_search_clear [of "[7]" 0] by (simp add: npos_def)

text \<open>
  C33. \<open>ToString\<close> returns (its loop ends) with one character for each position up to the greatest
  member, and \<open>FromString\<close> of that string is the same bitset, block for block; \<open>FromString\<close> of
  any string satisfies the invariant and has as members the positions of its '1' characters.
\<close>

theorem bitset_string_roundtrip:
  assumes "bs_inv bs" "length bs < 2 ^ 58"
  shows "(\<exists>str. ToString bs = Some str \<and> str = bit_string (bits bs) \<and> FromString str = bs) \<and>
    bs_inv (FromString s) \<and> bits (FromString s) = {i. i < length s \<and> s ! i = CHR ''1''}"
proof -
  have "bits (FromString (bit_string (bits bs))) = bits bs"
    using bit_string_members [OF finite_bits_set, of bs] by (simp only: bits_FromString)
  then have "FromString (bit_string (bits bs)) = bs"
    using assms(1) bits_inject bs_inv_FromString by blast
  then show ?thesis using ToString_eq [OF assms(2,1)] by (simp add: bs_inv_FromString bits_FromString)
qed

theorem bitset_string_roundtrip_witness:
  "bs_inv [6] \<and> (\<exists>str. ToString [6] = Some str \<and> FromString str = [6])"
  using bitset_string_roundtrip [of "[6]"] by (auto simp: bs_inv_def)

text \<open>
  \<open>ToNumberedString\<close> returns and prints exactly the maximal runs of consecutive members in
  increasing order, a run of one as its number and a longer run as first-last, separated by
  commas, and "-" for the empty set. The runs cover the members and are apart by at least two.
\<close>

theorem bitset_numbered_string:
  assumes "bs_inv bs" "length bs < 2 ^ 58"
  shows "\<exists>rs. ToNumberedString bs = Some (print_runs rs) \<and>
    concat (map (\<lambda>(a, b). [a..<Suc b]) rs) = sorted_list_of_set (bits bs) \<and>
    sorted_wrt (\<lambda>(a, b) (c, d). Suc b < c) rs"
  using ToNumberedString_eq [OF assms(2,1)] runs_spec [of "sorted_list_of_set (bits bs)"] by auto

theorem bitset_numbered_string_witness:
  "bs_inv [6] \<and> (\<exists>rs. ToNumberedString [6] = Some (print_runs rs) \<and>
    concat (map (\<lambda>(a, b). [a..<Suc b]) rs) = sorted_list_of_set (bits [6]))"
  using bitset_numbered_string [of "[6]"] by (auto simp: bs_inv_def)

end
