(* ===== verification/Index_Alloc.thy ===== *)
theory Index_Alloc
  imports Bit_Set
begin

text \<open>
  The allocators built on \<open>BitSet\<close>: \<open>LabelBlock\<close> and \<open>LabelBlockManager\<close>
  (src/base/label_block.cc), \<open>IndexAllocator\<close> (src/base/index_allocator.cc) and the
  \<open>IndexMap\<close> template (src/base/index_map.h). The locale \<open>slot_set\<close> is what the
  allocators rely on; its lemmas on the two-pass search are proved once and used through
  the interpretation on \<open>BitSet\<close>.
\<close>

section \<open>LabelBlock\<close>

record label_block =
  lb_first :: nat
  lb_last :: nat
  lb_prev_pos :: nat
  lb_used :: bitset

definition mk_LabelBlock :: "nat \<Rightarrow> nat \<Rightarrow> label_block" where
  "mk_LabelBlock first lst = \<lparr>lb_first = first, lb_last = lst, lb_prev_pos = npos, lb_used = []\<rparr>"

text \<open>The \<open>for\<close> loop of \<open>AllocateLabel\<close> with \<open>n\<close> rounds left.\<close>

fun AllocateLabel_loop :: "nat \<Rightarrow> label_block \<Rightarrow> nat \<times> label_block" where
  "AllocateLabel_loop 0 b = (0, b)"
| "AllocateLabel_loop (Suc n) b =
     (let pos = (if lb_prev_pos b = npos then find_first_clear (lb_used b)
                 else find_next_clear (lb_used b) (lb_prev_pos b))
      in if u64 (lb_first b + pos) \<le> lb_last b
         then (u32 (u64 (lb_first b + pos)),
               b\<lparr>lb_used := bset pos (lb_used b), lb_prev_pos := pos\<rparr>)
         else AllocateLabel_loop n (b\<lparr>lb_prev_pos := npos\<rparr>))"

definition AllocateLabel :: "label_block \<Rightarrow> nat \<times> label_block" where
  "AllocateLabel b = AllocateLabel_loop 2 b"

definition ReleaseLabel :: "nat \<Rightarrow> label_block \<Rightarrow> label_block option" where
  "ReleaseLabel value b = do {
     _ \<leftarrow> cpp_assert (value \<ge> lb_first b \<and> value \<le> lb_last b);
     let pos = value - lb_first b;
     Some (b\<lparr>lb_used := breset pos (lb_used b)\<rparr>)
   }"

definition LabelBlock_ToString :: "label_block \<Rightarrow> string" where
  "LabelBlock_ToString b =
     take 31 (integerToString (lb_first b) @ ''-'' @ integerToString (lb_last b))"

section \<open>LabelBlockManager\<close>

text \<open>
  The blocks live in a heap and are reached through intrusive pointers; \<open>lb_refs\<close> and
  \<open>lbm_refs\<close> are the two \<open>refcount_\<close> members. Each block holds one reference on its
  manager (\<open>block_manager_\<close>). \<open>lbm_alive\<close> is false once the manager is deleted; locking or
  unlocking its mutex after that is a use after free, an abort of the model.
\<close>

record lbm_state =
  lbm_blocks :: "nat list"
  lbm_heap :: "nat \<Rightarrow> label_block option"
  lb_refs :: "nat \<Rightarrow> nat"
  lbm_refs :: nat
  lbm_alive :: bool

definition mk_LabelBlockManager :: lbm_state where
  "mk_LabelBlockManager =
     \<lparr>lbm_blocks = [], lbm_heap = (\<lambda>_. None), lb_refs = (\<lambda>_. 0), lbm_refs = 0, lbm_alive = True\<rparr>"

definition lbm_add_ref :: "lbm_state \<Rightarrow> lbm_state" where
  "lbm_add_ref m = m\<lparr>lbm_refs := lbm_refs m + 1\<rparr>"

definition lb_add_ref :: "nat \<Rightarrow> lbm_state \<Rightarrow> lbm_state" where
  "lb_add_ref r m = m\<lparr>lb_refs := (lb_refs m)(r := lb_refs m r + 1)\<rparr>"

text \<open>The destructor asserts that no block is left.\<close>

definition delete_LabelBlockManager :: "lbm_state \<Rightarrow> lbm_state option" where
  "delete_LabelBlockManager m = do {
     _ \<leftarrow> cpp_assert (length (lbm_blocks m) = 0);
     Some (m\<lparr>lbm_alive := False\<rparr>)
   }"

definition lbm_release :: "lbm_state \<Rightarrow> lbm_state option" where
  "lbm_release m =
     (let prev = lbm_refs m; m = m\<lparr>lbm_refs := prev - 1\<rparr> in
      if prev = 1 then delete_LabelBlockManager m else Some m)"

definition block_at :: "lbm_state \<Rightarrow> nat \<Rightarrow> nat \<Rightarrow> nat \<Rightarrow> bool" where
  "block_at m first lst r =
     (case lbm_heap m r of None \<Rightarrow> False | Some b \<Rightarrow> lb_first b = first \<and> lb_last b = lst)"

text \<open>\<open>fresh\<close> is the address that \<open>new LabelBlock\<close> returns.\<close>

definition LocateBlock :: "nat \<Rightarrow> nat \<Rightarrow> nat \<Rightarrow> lbm_state \<Rightarrow> nat \<times> lbm_state" where
  "LocateBlock fresh first lst m =
     (case find (block_at m first lst) (lbm_blocks m) of
        Some r \<Rightarrow> (r, lb_add_ref r m)
      | None \<Rightarrow>
          (let m = m\<lparr>lbm_heap := (lbm_heap m)(fresh \<mapsto> mk_LabelBlock first lst),
                     lb_refs := (lb_refs m)(fresh := 0)\<rparr>;
               m = lbm_add_ref m;
               m = m\<lparr>lbm_blocks := lbm_blocks m @ [fresh]\<rparr>
           in (fresh, lb_add_ref fresh m)))"

fun RemoveBlock :: "nat \<Rightarrow> nat list \<Rightarrow> nat list option" where
  "RemoveBlock r [] = None"
| "RemoveBlock r (x # xs) =
     (if x = r then Some xs else map_option ((#) x) (RemoveBlock r xs))"

definition lbm_size :: "lbm_state \<Rightarrow> nat" where
  "lbm_size m = length (lbm_blocks m)"

text \<open>\<open>delete block\<close>: the destructor's body, then the member \<open>block_manager_\<close> is released.\<close>

definition delete_LabelBlock :: "nat \<Rightarrow> lbm_state \<Rightarrow> lbm_state option" where
  "delete_LabelBlock r m = do {
     b \<leftarrow> lbm_heap m r;
     _ \<leftarrow> cpp_assert (bempty (lb_used b));
     bs \<leftarrow> RemoveBlock r (lbm_blocks m);
     lbm_release (m\<lparr>lbm_blocks := bs, lbm_heap := (lbm_heap m)(r := None)\<rparr>)
   }"

text \<open>
  The whole of \<open>intrusive_ptr_release(LabelBlock *)\<close>: it runs under the manager's mutex,
  which is unlocked when the scope ends.
\<close>

definition lb_release :: "nat \<Rightarrow> lbm_state \<Rightarrow> lbm_state option" where
  "lb_release r m = do {
     _ \<leftarrow> cpp_assert (lbm_alive m);
     let prev = lb_refs m r;
     let m = m\<lparr>lb_refs := (lb_refs m)(r := prev - 1)\<rparr>;
     m \<leftarrow> (if prev = 1 then delete_LabelBlock r m else Some m);
     _ \<leftarrow> cpp_assert (lbm_alive m);
     Some m
   }"

section \<open>IndexAllocator\<close>

record index_allocator =
  ia_bitset :: bitset
  ia_max_index :: nat
  ia_last_index :: nat

definition mk_IndexAllocator :: "nat \<Rightarrow> index_allocator" where
  "mk_IndexAllocator max_index = \<lparr>ia_bitset = [], ia_max_index = max_index, ia_last_index = npos\<rparr>"

definition AllocIndex :: "index_allocator \<Rightarrow> nat \<times> index_allocator" where
  "AllocIndex a =
     (let index = (if ia_last_index a = npos then find_first_clear (ia_bitset a)
                   else (let index = find_next_clear (ia_bitset a) (ia_last_index a) in
                         if index > ia_max_index a then find_first_clear (ia_bitset a) else index));
          index = (if index > ia_max_index a then npos else index);
          a = (if index \<noteq> npos then a\<lparr>ia_bitset := bset index (ia_bitset a)\<rparr> else a)
      in (index, a\<lparr>ia_last_index := index\<rparr>))"

definition FreeIndex :: "nat \<Rightarrow> index_allocator \<Rightarrow> index_allocator option" where
  "FreeIndex index a = do {
     _ \<leftarrow> cpp_assert (index \<le> ia_max_index a);
     Some (a\<lparr>ia_bitset := breset index (ia_bitset a)\<rparr>)
   }"

definition NoneIndexSet :: "index_allocator \<Rightarrow> bool" where
  "NoneIndexSet a = bnone (ia_bitset a)"

definition AnyIndexSet :: "index_allocator \<Rightarrow> bool" where
  "AnyIndexSet a = bany (ia_bitset a)"

section \<open>IndexMap\<close>

text \<open>
  Values are heap objects created by \<open>new\<close> and reached by pointers: an address is a
  \<open>nat\<close>, a pointer an \<open>nat option\<close> with \<open>None\<close> for \<open>NULL\<close>. \<open>im_heap\<close> holds the
  index stored in each live object (\<open>set_index\<close>); \<open>delete\<close> empties the address. \<open>im_values[i]\<close>
  out of range is undefined behaviour, an abort of the model. The template's \<open>BitsetType\<close> is
  its default, \<open>BitSet\<close>.
\<close>

record 'k index_map =
  im_bits :: bitset
  im_values :: "nat option list"
  im_map :: "'k \<rightharpoonup> nat"
  im_heap :: "nat \<Rightarrow> nat option"

definition mk_IndexMap :: "'k index_map" where
  "mk_IndexMap = \<lparr>im_bits = [], im_values = [], im_map = Map.empty, im_heap = (\<lambda>_. None)\<rparr>"

definition vec_at :: "'a list \<Rightarrow> nat \<Rightarrow> 'a option" where
  "vec_at xs i = (if i < length xs then Some (xs ! i) else None)"

definition im_At :: "nat \<Rightarrow> 'k index_map \<Rightarrow> nat option option" where
  "im_At index m = vec_at (im_values m) index"

definition im_Find :: "'k \<Rightarrow> 'k index_map \<Rightarrow> nat option" where
  "im_Find key m = im_map m key"

definition ReserveBit :: "nat \<Rightarrow> 'k index_map \<Rightarrow> 'k index_map option" where
  "ReserveBit index m = do {
     _ \<leftarrow> (if btest (im_bits m) index
          then do { v \<leftarrow> vec_at (im_values m) index; cpp_assert (v = None) }
          else Some ());
     Some (m\<lparr>im_bits := bset index (im_bits m),
             im_values := vec_resize None (length (im_values m) + 1) (im_values m)\<rparr>)
   }"

text \<open>The optional argument \<open>index\<close> is \<open>None\<close> for its default -1; so is the result -1.\<close>

definition im_Insert :: "'k \<Rightarrow> nat \<Rightarrow> nat option \<Rightarrow> 'k index_map \<Rightarrow> (nat option \<times> 'k index_map) option" where
  "im_Insert key value index m =
     (case im_map m key of
        Some _ \<Rightarrow> Some (None, m)
      | None \<Rightarrow> do {
          let m = m\<lparr>im_map := (im_map m)(key \<mapsto> value)\<rparr>;
          let bt = (case index of None \<Rightarrow> find_first_clear (im_bits m) | Some i \<Rightarrow> i);
          m \<leftarrow> (if bt \<ge> length (im_values m)
               then do {
                 _ \<leftarrow> cpp_assert (bt = length (im_values m));
                 Some (m\<lparr>im_values := im_values m @ [Some value]\<rparr>)
               }
               else Some (m\<lparr>im_values := (im_values m)[bt := Some value]\<rparr>));
          Some (Some bt, m\<lparr>im_bits := bset bt (im_bits m)\<rparr>)
        })"

text \<open>The loop at the end of \<open>ResetBit\<close>: it drops the \<open>NULL\<close> entries at the end.\<close>

definition im_pop_nulls :: "nat option list \<Rightarrow> nat option list" where
  "im_pop_nulls vs = rev (dropWhile (\<lambda>v. v = None) (rev vs))"

definition im_delete :: "nat option \<Rightarrow> (nat \<Rightarrow> nat option) \<Rightarrow> nat \<Rightarrow> nat option" where
  "im_delete p h = (case p of None \<Rightarrow> h | Some v \<Rightarrow> h(v := None))"

definition ResetBit :: "nat \<Rightarrow> 'k index_map \<Rightarrow> 'k index_map option" where
  "ResetBit index m = do {
     let m = m\<lparr>im_bits := breset index (im_bits m)\<rparr>;
     value \<leftarrow> vec_at (im_values m) index;
     let m = m\<lparr>im_values := (im_values m)[index := None]\<rparr>;
     let m = m\<lparr>im_heap := im_delete value (im_heap m)\<rparr>;
     Some (m\<lparr>im_values := im_pop_nulls (im_values m)\<rparr>)
   }"

definition im_Remove :: "'k \<Rightarrow> nat \<Rightarrow> bool \<Rightarrow> 'k index_map \<Rightarrow> 'k index_map option" where
  "im_Remove key index clear_bit m = do {
     loc \<leftarrow> im_map m key;
     v \<leftarrow> vec_at (im_values m) index;
     _ \<leftarrow> cpp_assert (Some loc = v);
     let m = m\<lparr>im_map := (im_map m)(key := None)\<rparr>;
     if clear_bit then ResetBit index m else Some m
   }"

text \<open>\<open>Locate\<close>; \<open>fresh\<close> is the address that \<open>new ValueType(key)\<close> returns.\<close>

definition im_Locate :: "nat \<Rightarrow> 'k \<Rightarrow> 'k index_map \<Rightarrow> (nat \<times> 'k index_map) option" where
  "im_Locate fresh key m =
     (case im_Find key m of
        Some value \<Rightarrow> Some (value, m)
      | None \<Rightarrow> do {
          (bt, m) \<leftarrow> im_Insert key fresh None m;
          Some (fresh, m\<lparr>im_heap := (im_heap m)(fresh := bt)\<rparr>)
        })"

definition im_size :: "'k index_map \<Rightarrow> nat" where
  "im_size m = length (im_values m)"

definition im_clear :: "'k index_map \<Rightarrow> 'k index_map" where
  "im_clear m = m\<lparr>im_bits := bclear (im_bits m), im_heap := fold im_delete (im_values m) (im_heap m),
     im_values := [], im_map := Map.empty\<rparr>"

section \<open>What the allocators rely on\<close>

text \<open>
  A set of slots with a search for the least free slot, from the start or after a slot. The
  laws bind only slots below \<open>2 ^ 63\<close>, so that block counts stay far from the wrap-around.
\<close>

locale slot_set =
  fixes ok :: "'b \<Rightarrow> bool" and mem :: "'b \<Rightarrow> nat set"
    and first_clear :: "'b \<Rightarrow> nat" and next_clear :: "'b \<Rightarrow> nat \<Rightarrow> nat"
    and ins :: "nat \<Rightarrow> 'b \<Rightarrow> 'b" and del :: "nat \<Rightarrow> 'b \<Rightarrow> 'b"
  assumes first_clear: "ok b \<Longrightarrow> least_from (- mem b) 0 (first_clear b)"
    and next_clear: "ok b \<Longrightarrow> p < npos \<Longrightarrow> least_from (- mem b) (Suc p) (next_clear b p)"
    and ok_ins: "ok b \<Longrightarrow> p < 2 ^ 63 \<Longrightarrow> ok (ins p b)"
    and mem_ins: "ok b \<Longrightarrow> p < 2 ^ 63 \<Longrightarrow> mem (ins p b) = insert p (mem b)"
    and ok_del: "ok b \<Longrightarrow> ok (del p b)"
    and mem_del: "ok b \<Longrightarrow> mem (del p b) = mem b - {p}"
begin

lemma first_clear_free:
  assumes "ok b"
  shows "first_clear b \<notin> mem b" "first_clear b \<le> m \<longleftrightarrow> \<not> {..m} \<subseteq> mem b"
  using first_clear [OF assms] unfolding least_from_def
  by (auto simp: subset_iff) (meson ComplI le_less_linear order_trans less_le_trans le0)

lemma next_clear_free:
  assumes "ok b" "p < npos"
  shows "next_clear b p \<notin> mem b" "p < next_clear b p"
    "next_clear b p \<le> m \<longleftrightarrow> \<not> {Suc p..m} \<subseteq> mem b"
  using next_clear [OF assms] unfolding least_from_def
  by (auto simp: subset_iff)

text \<open>The two-pass search: from the slot after \<open>prev\<close>, then from the start.\<close>

lemma two_pass:
  fixes m :: nat
  assumes ok: "ok b" and prev: "prev \<le> npos"
  defines "r \<equiv> (if prev = npos then first_clear b
    else if next_clear b prev \<le> m then next_clear b prev else first_clear b)"
  shows "r \<notin> mem b" "r \<le> m \<longleftrightarrow> \<not> {..m} \<subseteq> mem b"
  using first_clear_free [OF ok] next_clear_free [OF ok, of prev] prev
  unfolding r_def by (auto simp: subset_iff split: if_splits)

end

definition slots_ok :: "bitset \<Rightarrow> bool" where
  "slots_ok bs = (bs_inv bs \<and> bits bs \<subseteq> {..<2 ^ 63})"

lemma length_of_bits:
  assumes "bs_inv bs" "bits bs \<subseteq> {..<n * 64}"
  shows "length bs \<le> n"
proof (cases "bs = []")
  case False
  with assms(1) have "bs ! (length bs - 1) \<noteq> 0" by (simp add: bs_inv_def last_conv_nth)
  then obtain j where j: "bit (blk bs (length bs - 1)) j"
    using False by (auto simp: blk_def word_nonzero_bit)
  then have "(length bs - 1) * 64 + j \<in> bits bs" by (simp add: bit_blk)
  with assms(2) have "(length bs - 1) * 64 < n * 64" by (auto dest!: subsetD)
  then show ?thesis by simp
qed simp

lemma slots_ok_length: "slots_ok bs \<Longrightarrow> length bs < 2 ^ 58"
  using length_of_bits [of bs "2 ^ 57"] by (simp add: slots_ok_def)

interpretation bitset_slots: slot_set slots_ok bits find_first_clear find_next_clear bset breset
proof
  fix b :: bitset and p :: nat
  assume ok: "slots_ok b"
  show "least_from (- bits b) 0 (find_first_clear b)"
    using find_first_clear_least slots_ok_length [OF ok] by blast
  show "p < npos \<Longrightarrow> least_from (- bits b) (Suc p) (find_next_clear b p)"
    using find_next_clear_least slots_ok_length [OF ok] by blast
  show "p < 2 ^ 63 \<Longrightarrow> slots_ok (bset p b)" "slots_ok (breset p b)"
    using ok by (auto simp: slots_ok_def bits_bset bits_breset bs_inv_bset bs_inv_breset)
qed (simp_all add: bits_bset bits_breset)

section \<open>LabelBlock facts\<close>

definition lb_inv :: "label_block \<Rightarrow> bool" where
  "lb_inv b = (bs_inv (lb_used b) \<and> (\<forall>p \<in> bits (lb_used b). lb_first b + p \<le> lb_last b) \<and>
     lb_first b < 2 ^ 32 \<and> lb_last b < 2 ^ 32 \<and>
     (lb_prev_pos b = npos \<or> lb_first b + lb_prev_pos b \<le> lb_last b))"

definition lb_labels :: "label_block \<Rightarrow> nat set" where
  "lb_labels b = {lb_first b..lb_last b}"

definition lb_in_use :: "label_block \<Rightarrow> nat set" where
  "lb_in_use b = (\<lambda>p. lb_first b + p) ` bits (lb_used b)"

lemma lb_inv_slots: "lb_inv b \<Longrightarrow> slots_ok (lb_used b)"
  unfolding lb_inv_def slots_ok_def by fastforce

text \<open>One round of the loop: a free label above \<open>prev_pos_\<close>, or from the start.\<close>

definition lb_search :: "label_block \<Rightarrow> nat" where
  "lb_search b = (if lb_prev_pos b = npos then find_first_clear (lb_used b)
     else find_next_clear (lb_used b) (lb_prev_pos b))"

lemma least_from_bound:
  assumes "least_from (- S) n r" "S \<subseteq> {..<k}"
  shows "r \<le> max n k"
proof (rule ccontr)
  assume r: "\<not> r \<le> max n k"
  then have "n \<le> max n k" "max n k < r" by auto
  then have "max n k \<notin> - S" using assms(1) unfolding least_from_def by blast
  with assms(2) show False by auto
qed

lemma lb_search_small:
  assumes "lb_inv b"
  shows "lb_search b \<le> 2 ^ 32" "lb_search b \<notin> bits (lb_used b)"
proof -
  have ok: "slots_ok (lb_used b)" by (rule lb_inv_slots [OF assms])
  have s: "bits (lb_used b) \<subseteq> {..<2 ^ 32}" using assms by (fastforce simp: lb_inv_def)
  have p: "lb_prev_pos b < npos \<and> Suc (lb_prev_pos b) \<le> 2 ^ 32" if "lb_prev_pos b \<noteq> npos"
    using assms that by (auto simp: lb_inv_def npos_def)
  show "lb_search b \<notin> bits (lb_used b)"
    using p by (auto simp: lb_search_def bitset_slots.first_clear_free [OF ok] bitset_slots.next_clear_free [OF ok])
  show "lb_search b \<le> 2 ^ 32"
    using least_from_bound [OF bitset_slots.first_clear [OF ok] s]
      least_from_bound [OF bitset_slots.next_clear [OF ok] s, of "lb_prev_pos b"] p
    by (auto simp: lb_search_def)
qed

lemma lb_take:
  fixes p :: nat
  assumes inv: "lb_inv b" and pos: "lb_first b + p \<le> lb_last b"
  defines "b' \<equiv> b\<lparr>lb_used := bset p (lb_used b), lb_prev_pos := p\<rparr>"
  shows "lb_inv b'" "lb_in_use b' = insert (lb_first b + p) (lb_in_use b)"
  using assms by (auto simp: lb_inv_def lb_in_use_def bits_bset bs_inv_bset)

lemma lb_labels_free_iff:
  assumes "lb_inv b"
  shows "lb_labels b \<subseteq> lb_in_use b \<longleftrightarrow> \<not> lb_first b + find_first_clear (lb_used b) \<le> lb_last b"
proof (cases "lb_first b \<le> lb_last b")
  case True
  have "lb_labels b \<subseteq> lb_in_use b \<longleftrightarrow> {..lb_last b - lb_first b} \<subseteq> bits (lb_used b)" (is "?l = ?r")
  proof
    assume l: ?l
    show ?r
    proof
      fix p assume "p \<in> {..lb_last b - lb_first b}"
      with True have "lb_first b + p \<in> lb_labels b" by (simp add: lb_labels_def)
      with l show "p \<in> bits (lb_used b)" by (auto simp: lb_in_use_def)
    qed
  next
    assume r: ?r
    show ?l
    proof
      fix x assume "x \<in> lb_labels b"
      then have "x = lb_first b + (x - lb_first b)" "x - lb_first b \<in> {..lb_last b - lb_first b}"
        by (auto simp: lb_labels_def)
      with r show "x \<in> lb_in_use b" unfolding lb_in_use_def by blast
    qed
  qed
  also have "\<dots> \<longleftrightarrow> \<not> find_first_clear (lb_used b) \<le> lb_last b - lb_first b"
    using bitset_slots.first_clear_free(2) [OF lb_inv_slots [OF assms]] by blast
  finally show ?thesis using True by auto
qed (simp add: lb_labels_def)

lemma AllocateLabel_round:
  assumes "lb_inv b"
  shows "AllocateLabel_loop (Suc n) b =
    (if lb_first b + lb_search b \<le> lb_last b
     then (lb_first b + lb_search b, b\<lparr>lb_used := bset (lb_search b) (lb_used b), lb_prev_pos := lb_search b\<rparr>)
     else AllocateLabel_loop n (b\<lparr>lb_prev_pos := npos\<rparr>))"
proof -
  have "lb_first b + lb_search b < 2 ^ 64" "lb_first b + lb_search b \<le> lb_last b \<Longrightarrow> lb_first b + lb_search b < 2 ^ 32"
    using assms lb_search_small(1) [OF assms] by (auto simp: lb_inv_def)
  then show ?thesis by (auto simp: Let_def simp flip: lb_search_def)
qed

lemma AllocateLabel_spec:
  assumes inv: "lb_inv b" and r: "AllocateLabel b = (l, b')"
  shows "lb_inv b' \<and> lb_first b' = lb_first b \<and> lb_last b' = lb_last b \<and>
    (if lb_labels b \<subseteq> lb_in_use b then l = 0 \<and> lb_in_use b' = lb_in_use b
     else l \<in> lb_labels b \<and> l \<notin> lb_in_use b \<and> lb_in_use b' = insert l (lb_in_use b))"
proof -
  have found: "?thesis" if c: "lb_inv c" "lb_first c = lb_first b" "lb_last c = lb_last b" "lb_used c = lb_used b"
    "lb_first c + lb_search c \<le> lb_last c"
    "(l, b') = (lb_first c + lb_search c, c\<lparr>lb_used := bset (lb_search c) (lb_used c), lb_prev_pos := lb_search c\<rparr>)" for c
  proof -
    have "lb_in_use c = lb_in_use b" "lb_labels c = lb_labels b"
      using c by (simp_all add: lb_in_use_def lb_labels_def)
    moreover have "lb_first c + lb_search c \<notin> lb_in_use c"
      using lb_search_small(2) [OF c(1)] by (auto simp: lb_in_use_def)
    moreover have "lb_first c + lb_search c \<in> lb_labels c" using c(5) by (simp add: lb_labels_def)
    ultimately show ?thesis using c(2,3,6) lb_take [OF c(1,5)] by auto
  qed
  define c where "c = b\<lparr>lb_prev_pos := npos\<rparr>"
  have c: "lb_inv c" "lb_first c = lb_first b" "lb_last c = lb_last b" "lb_used c = lb_used b"
    using inv by (auto simp: lb_inv_def c_def)
  have sc: "lb_search c = find_first_clear (lb_used b)" by (simp add: c_def lb_search_def)
  have al: "AllocateLabel b = (if lb_first b + lb_search b \<le> lb_last b
     then (lb_first b + lb_search b, b\<lparr>lb_used := bset (lb_search b) (lb_used b), lb_prev_pos := lb_search b\<rparr>)
     else if lb_first c + lb_search c \<le> lb_last c
     then (lb_first c + lb_search c, c\<lparr>lb_used := bset (lb_search c) (lb_used c), lb_prev_pos := lb_search c\<rparr>)
     else (0, c\<lparr>lb_prev_pos := npos\<rparr>))"
    using AllocateLabel_round [OF inv, of 1] AllocateLabel_round [OF c(1), of 0]
    by (simp add: AllocateLabel_def c_def numeral_2_eq_2)
  then consider "lb_first b + lb_search b \<le> lb_last b" | "lb_first c + lb_search c \<le> lb_last c"
      "AllocateLabel b = (lb_first c + lb_search c, c\<lparr>lb_used := bset (lb_search c) (lb_used c), lb_prev_pos := lb_search c\<rparr>)"
    | "\<not> lb_first c + lb_search c \<le> lb_last c" "AllocateLabel b = (0, c)"
    by (auto simp: c_def split: if_splits)
  then show ?thesis
  proof cases
    case 1
    with r al inv show ?thesis by (intro found [of b]) auto
  next
    case 2
    with r c show ?thesis by (intro found [of c]) auto
  next
    case 3
    then have "lb_labels b \<subseteq> lb_in_use b" using lb_labels_free_iff [OF inv] c sc by simp
    with 3 r c show ?thesis by (auto simp: lb_in_use_def)
  qed
qed

lemma ReleaseLabel_spec:
  assumes "lb_inv b"
  shows "if v \<in> lb_labels b
    then succeeds (ReleaseLabel v b) (\<lambda>b'. lb_inv b' \<and> lb_in_use b' = lb_in_use b - {v} \<and>
      lb_first b' = lb_first b \<and> lb_last b' = lb_last b)
    else ReleaseLabel v b = None"
  using assms
  by (auto simp: ReleaseLabel_def lb_labels_def lb_inv_def lb_in_use_def bits_breset bs_inv_breset
      vcg cpp_assert_def Let_def)

section \<open>LabelBlockManager facts\<close>

text \<open>
  Between calls: the blocks are the live objects, each has an owner, no two cover the same
  range, and the manager has a reference for each block and at least \<open>ext\<close> from its users.
\<close>

definition lbm_inv :: "nat \<Rightarrow> lbm_state \<Rightarrow> bool" where
  "lbm_inv ext m = (lbm_alive m \<and> distinct (lbm_blocks m) \<and>
     (\<forall>r. r \<in> set (lbm_blocks m) \<longleftrightarrow> lbm_heap m r \<noteq> None) \<and>
     (\<forall>r \<in> set (lbm_blocks m). 0 < lb_refs m r) \<and>
     (\<forall>r \<in> set (lbm_blocks m). \<forall>q \<in> set (lbm_blocks m). \<forall>f l.
        block_at m f l r \<longrightarrow> block_at m f l q \<longrightarrow> r = q) \<and>
     lbm_refs m = length (lbm_blocks m) + ext)"

lemma find_block_cases:
  fixes xs :: "'a list" and P :: "'a \<Rightarrow> bool"
  obtains (found) r where "find P xs = Some r" "r \<in> set xs" "P r"
  | (missing) "find P xs = None" "\<forall>r \<in> set xs. \<not> P r"
  by (cases "find P xs") (auto simp: find_None_iff find_Some_iff)

lemma block_at_heap:
  "block_at m f l r \<longleftrightarrow> (\<exists>b. lbm_heap m r = Some b \<and> lb_first b = f \<and> lb_last b = l)"
  by (auto simp: block_at_def split: option.splits)

lemma LocateBlock_spec:
  assumes inv: "lbm_inv ext m" and fresh: "lbm_heap m fresh = None" and r: "LocateBlock fresh f l m = (r, m')"
  shows "lbm_inv ext m' \<and> block_at m' f l r \<and>
    (if \<exists>q \<in> set (lbm_blocks m). block_at m f l q
     then block_at m f l r \<and> lbm_heap m' = lbm_heap m \<and> lb_refs m' r = lb_refs m r + 1
     else lbm_heap m' = (lbm_heap m)(r \<mapsto> mk_LabelBlock f l) \<and> lb_refs m' r = 1)"
proof (cases "lbm_blocks m" "block_at m f l" rule: find_block_cases)
  case (found q)
  then have "r = q" "m' = lb_add_ref q m" using r by (auto simp: LocateBlock_def)
  moreover have "lbm_inv ext (lb_add_ref q m)"
    using inv unfolding lbm_inv_def lb_add_ref_def block_at_def by auto
  ultimately show ?thesis using found by (auto simp: lb_add_ref_def block_at_def)
next
  case missing
  then have r: "r = fresh" "m' = lb_add_ref fresh (lbm_add_ref (m\<lparr>lbm_heap := (lbm_heap m)(fresh \<mapsto> mk_LabelBlock f l),
      lb_refs := (lb_refs m)(fresh := 0)\<rparr>)\<lparr>lbm_blocks := lbm_blocks m @ [fresh]\<rparr>)"
    using r by (auto simp: LocateBlock_def Let_def lbm_add_ref_def)
  have "fresh \<notin> set (lbm_blocks m)" using inv fresh by (auto simp: lbm_inv_def)
  then have "lbm_inv ext m'"
    using inv missing(2) unfolding lbm_inv_def r block_at_heap
    by (auto simp: lb_add_ref_def lbm_add_ref_def mk_LabelBlock_def)
  then show ?thesis using missing r
    by (auto simp: lb_add_ref_def lbm_add_ref_def block_at_def mk_LabelBlock_def)
qed

lemma RemoveBlock_eq: "RemoveBlock r xs = (if r \<in> set xs then Some (remove1 r xs) else None)"
  by (induction xs) auto

lemma lb_release_spec:
  assumes inv: "lbm_inv ext m" and r: "lbm_heap m r = Some b" and ext: "0 < ext"
    and used: "lb_refs m r = 1 \<longrightarrow> lb_used b = []"
  shows "succeeds (lb_release r m) (\<lambda>m'. lbm_inv ext m' \<and>
    lbm_heap m' = (if lb_refs m r = 1 then (lbm_heap m)(r := None) else lbm_heap m) \<and>
    (\<forall>q. q \<noteq> r \<longrightarrow> lb_refs m' q = lb_refs m q) \<and> lb_refs m' r = lb_refs m r - 1)"
proof (cases "lb_refs m r = 1")
  case True
  have mem: "r \<in> set (lbm_blocks m)" using inv r by (auto simp: lbm_inv_def)
  then have "length (lbm_blocks m) + ext \<noteq> 1" using ext by (cases "lbm_blocks m") auto
  moreover have "lbm_refs m = length (lbm_blocks m) + ext" "lbm_alive m" using inv by (auto simp: lbm_inv_def)
  ultimately have "lb_release r m = Some (m\<lparr>lb_refs := (lb_refs m)(r := 0), lbm_blocks := remove1 r (lbm_blocks m),
      lbm_heap := (lbm_heap m)(r := None), lbm_refs := lbm_refs m - 1\<rparr>)"
    using True r mem used ext
    by (simp add: lb_release_def delete_LabelBlock_def lbm_release_def RemoveBlock_eq bempty_def Let_def)
  moreover have "length (remove1 r (lbm_blocks m)) + ext = lbm_refs m - 1"
  proof -
    have "0 < length (lbm_blocks m)" by (rule length_pos_if_in_set [OF mem])
    moreover have "length (remove1 r (lbm_blocks m)) = length (lbm_blocks m) - 1"
      using mem by (simp only: length_remove1 if_True)
    ultimately show ?thesis using inv unfolding lbm_inv_def by linarith
  qed
  ultimately show ?thesis using True inv mem
    by (auto simp: lbm_inv_def block_at_heap split: if_splits)
next
  case False
  have "r \<in> set (lbm_blocks m)" using inv r by (auto simp: lbm_inv_def)
  then have "1 < lb_refs m r" using False inv unfolding lbm_inv_def by (metis One_nat_def Suc_lessI)
  then show ?thesis using False inv
    by (auto simp: lb_release_def lbm_inv_def block_at_heap Let_def)
qed

text \<open>
  The mutex taken by \<open>intrusive_ptr_release(LabelBlock *)\<close> is a member of the manager that the
  deletion of the last block may delete.
\<close>

lemma lb_release_use_after_free:
  assumes inv: "lbm_inv 0 m" and r: "lbm_heap m r = Some b" and last: "lb_refs m r = 1" "lbm_blocks m = [r]" and e: "lb_used b = []"
  shows "\<exists>m'. delete_LabelBlock r (m\<lparr>lb_refs := (lb_refs m)(r := 0)\<rparr>) = Some m' \<and> \<not> lbm_alive m' \<and> lb_release r m = None"
  using assms
  by (auto simp: lb_release_def bempty_def delete_LabelBlock_def lbm_release_def delete_LabelBlockManager_def
      lbm_inv_def Let_def cpp_assert_def)

section \<open>IndexAllocator facts\<close>

definition ia_inv :: "index_allocator \<Rightarrow> bool" where
  "ia_inv a = (bs_inv (ia_bitset a) \<and> bits (ia_bitset a) \<subseteq> {..ia_max_index a} \<and>
     ia_max_index a < 2 ^ 63 \<and> (ia_last_index a = npos \<or> ia_last_index a \<le> ia_max_index a))"

lemma ia_inv_slots: "ia_inv a \<Longrightarrow> slots_ok (ia_bitset a)"
  unfolding ia_inv_def slots_ok_def by (auto dest!: subsetD)

lemma AllocIndex_spec:
  assumes inv: "ia_inv a" and r: "AllocIndex a = (i, a')"
  shows "ia_inv a' \<and> ia_max_index a' = ia_max_index a \<and>
    (if {..ia_max_index a} \<subseteq> bits (ia_bitset a) then i = npos \<and> bits (ia_bitset a') = bits (ia_bitset a)
     else i \<le> ia_max_index a \<and> i \<notin> bits (ia_bitset a) \<and>
       bits (ia_bitset a') = insert i (bits (ia_bitset a)))"
proof -
  define s where "s = (if ia_last_index a = npos then find_first_clear (ia_bitset a)
    else if find_next_clear (ia_bitset a) (ia_last_index a) \<le> ia_max_index a
    then find_next_clear (ia_bitset a) (ia_last_index a) else find_first_clear (ia_bitset a))"
  have prev: "ia_last_index a \<le> npos" using inv by (auto simp: ia_inv_def npos_def)
  note s = bitset_slots.two_pass [OF ia_inv_slots [OF inv] prev, of "ia_max_index a", folded s_def]
  have small: "x \<le> ia_max_index a \<Longrightarrow> x \<noteq> npos" for x using inv by (auto simp: ia_inv_def npos_def)
  have "AllocIndex a = (if s \<le> ia_max_index a
      then (s, a\<lparr>ia_bitset := bset s (ia_bitset a), ia_last_index := s\<rparr>)
      else (npos, a\<lparr>ia_last_index := npos\<rparr>))"
    using small unfolding AllocIndex_def Let_def s_def by (auto simp: not_le)
  with r s have "(if {..ia_max_index a} \<subseteq> bits (ia_bitset a) then i = npos \<and> a' = a\<lparr>ia_last_index := npos\<rparr>
      else i = s \<and> i \<le> ia_max_index a \<and> a' = a\<lparr>ia_bitset := bset i (ia_bitset a), ia_last_index := i\<rparr>)"
    by (auto split: if_splits)
  with s inv show ?thesis
    by (simp add: ia_inv_def bits_bset bs_inv_bset split: if_splits)
qed

lemma FreeIndex_spec:
  assumes "ia_inv a"
  shows "if i \<le> ia_max_index a
    then succeeds (FreeIndex i a) (\<lambda>a'. ia_inv a' \<and> ia_max_index a' = ia_max_index a \<and>
      bits (ia_bitset a') = bits (ia_bitset a) - {i})
    else FreeIndex i a = None"
  using assms by (auto simp: FreeIndex_def ia_inv_def bits_breset bs_inv_breset vcg cpp_assert_def)

section \<open>IndexMap facts\<close>

lemma im_pop_nulls_snoc [simp]:
  "im_pop_nulls [] = []" "im_pop_nulls (vs @ [None]) = im_pop_nulls vs"
  "im_pop_nulls (vs @ [Some v]) = vs @ [Some v]"
  by (simp_all add: im_pop_nulls_def)

lemma im_pop_nulls_last: "im_pop_nulls vs = [] \<or> last (im_pop_nulls vs) \<noteq> None"
proof (induction vs rule: rev_induct)
  case (snoc x xs)
  then show ?case by (cases x) auto
qed simp

lemma im_pop_nulls_id: "vs = [] \<or> last vs \<noteq> None \<Longrightarrow> im_pop_nulls vs = vs"
  by (cases vs rule: rev_cases) auto

lemma vec_at_pop_nulls: "vec_at (im_pop_nulls vs) i = Some (Some v) \<longleftrightarrow> vec_at vs i = Some (Some v)"
proof (induction vs rule: rev_induct)
  case (snoc x xs)
  then show ?case by (cases x) (auto simp: vec_at_def nth_append split: if_splits)
qed simp

lemma length_pop_nulls: "length (im_pop_nulls vs) \<le> length vs"
proof (induction vs rule: rev_induct)
  case (snoc x xs)
  then show ?case by (cases x) auto
qed simp

lemma vec_at_update: "vec_at (xs[k := x]) i = (if i = k \<and> k < length xs then Some x else vec_at xs i)"
  by (auto simp: vec_at_def)

lemma vec_at_snoc: "vec_at (xs @ [x]) i = (if i = length xs then Some x else vec_at xs i)"
  by (auto simp: vec_at_def nth_append)

text \<open>
  Without reserved bits: the bits in use are the indices that hold a value, the vector has no
  \<open>NULL\<close> at its end, no value has two indices or two keys, every value of the map has an index.
\<close>

definition im_inv :: "'k index_map \<Rightarrow> bool" where
  "im_inv m = (slots_ok (im_bits m) \<and>
     (\<forall>i. i \<in> bits (im_bits m) \<longleftrightarrow> (\<exists>v. im_At i m = Some (Some v))) \<and>
     (im_values m = [] \<or> last (im_values m) \<noteq> None) \<and>
     (\<forall>i j v. im_At i m = Some (Some v) \<longrightarrow> im_At j m = Some (Some v) \<longrightarrow> i = j) \<and>
     (\<forall>k v. im_map m k = Some v \<longrightarrow> (\<exists>i. im_At i m = Some (Some v))) \<and>
     (\<forall>k l v. im_map m k = Some v \<longrightarrow> im_map m l = Some v \<longrightarrow> k = l))"

lemma im_inv_mk: "im_inv mk_IndexMap"
  by (simp add: im_inv_def mk_IndexMap_def slots_ok_def bs_inv_def im_At_def vec_at_def)

text \<open>The index that \<open>Insert\<close> uses, and when it is one that is free: always, when the caller names none.\<close>

definition im_slot :: "nat option \<Rightarrow> 'k index_map \<Rightarrow> nat" where
  "im_slot index m = (case index of None \<Rightarrow> find_first_clear (im_bits m) | Some i \<Rightarrow> i)"

definition im_free :: "nat option \<Rightarrow> 'k index_map \<Rightarrow> bool" where
  "im_free index m = (case index of None \<Rightarrow> True | Some i \<Rightarrow> i \<notin> bits (im_bits m) \<and> i \<le> im_size m)"

definition im_store :: "nat \<Rightarrow> nat \<Rightarrow> nat option list \<Rightarrow> nat option list" where
  "im_store i v vs = (if i < length vs then vs[i := Some v] else vs @ [Some v])"

lemma im_slot_props:
  assumes inv: "im_inv m" and f: "im_free index m"
  shows "im_slot index m \<notin> bits (im_bits m)" "im_slot index m \<le> length (im_values m)"
proof -
  have ok: "slots_ok (im_bits m)" using inv by (simp add: im_inv_def)
  show "im_slot index m \<notin> bits (im_bits m)"
    using bitset_slots.first_clear_free(1) [OF ok] f by (auto simp: im_slot_def im_free_def split: option.splits)
  have "bits (im_bits m) \<subseteq> {..<length (im_values m)}"
    using inv by (auto simp: im_inv_def im_At_def vec_at_def split: if_splits)
  from least_from_bound [OF bitset_slots.first_clear [OF ok] this]
  show "im_slot index m \<le> length (im_values m)" using f by (auto simp: im_slot_def im_free_def im_size_def split: option.splits)
qed

lemma im_Insert_eq:
  assumes "im_slot index m \<le> length (im_values m)" and key: "im_map m key = None"
  shows "im_Insert key v index m = Some (Some (im_slot index m),
    m\<lparr>im_map := (im_map m)(key \<mapsto> v), im_values := im_store (im_slot index m) v (im_values m),
      im_bits := bset (im_slot index m) (im_bits m)\<rparr>)"
  using assms by (cases index) (auto simp: im_Insert_def im_store_def im_slot_def Let_def)

lemma vec_at_store:
  "i \<le> length vs \<Longrightarrow> vec_at (im_store i v vs) j = (if j = i then Some (Some v) else vec_at vs j)"
  by (auto simp: im_store_def vec_at_update vec_at_snoc)

lemma im_Insert_spec:
  assumes inv: "im_inv m" and f: "im_free index m" and key: "im_map m key = None" and v: "\<And>i. im_At i m \<noteq> Some (Some v)"
    and len: "length (im_values m) < 2 ^ 63"
  shows "succeeds (im_Insert key v index m) (\<lambda>(b, m').
    \<exists>i. b = Some i \<and> i \<notin> bits (im_bits m) \<and> im_inv m' \<and> im_map m' = (im_map m)(key \<mapsto> v) \<and>
      bits (im_bits m') = insert i (bits (im_bits m)) \<and>
      (\<forall>j. im_At j m' = (if j = i then Some (Some v) else im_At j m)))"
proof -
  define i where "i = im_slot index m"
  note i = im_slot_props [OF inv f, folded i_def]
  define m' where "m' = m\<lparr>im_map := (im_map m)(key \<mapsto> v), im_values := im_store i v (im_values m),
    im_bits := bset i (im_bits m)\<rparr>"
  have at: "im_At j m' = (if j = i then Some (Some v) else im_At j m)" for j
    using i(2) by (simp add: im_At_def m'_def vec_at_store)
  have ran: "im_map m k \<noteq> Some v" for k using inv v unfolding im_inv_def by blast
  have bits: "bits (im_bits m') = insert i (bits (im_bits m))" by (simp add: m'_def bits_bset)
  have last: "last (im_store i v (im_values m)) \<noteq> None"
    using inv by (cases "im_values m = []") (auto simp: im_store_def im_inv_def last_list_update)
  have "im_inv m'"
    unfolding im_inv_def at bits
  proof (intro conjI)
    show "slots_ok (im_bits m')"
      using inv i(2) len bitset_slots.ok_ins [of "im_bits m" i] by (simp add: im_inv_def m'_def)
    show "im_values m' = [] \<or> last (im_values m') \<noteq> None" using last by (simp add: m'_def)
    have "\<exists>j. j \<noteq> i \<and> im_At j m = Some (Some w)" if "im_map m k = Some w" for k w
    proof -
      from that inv obtain j where j: "im_At j m = Some (Some w)" unfolding im_inv_def by blast
      with inv have "j \<in> bits (im_bits m)" unfolding im_inv_def by blast
      with i(1) j show ?thesis by metis
    qed
    then show "\<forall>k w. im_map m' k = Some w \<longrightarrow> (\<exists>j. (if j = i then Some (Some v) else im_At j m) = Some (Some w))"
      by (auto simp: m'_def)
    show "\<forall>j. j \<in> insert i (bits (im_bits m)) \<longleftrightarrow> (\<exists>w. (if j = i then Some (Some v) else im_At j m) = Some (Some w))"
      using inv by (simp add: im_inv_def)
    show "\<forall>j k w. (if j = i then Some (Some v) else im_At j m) = Some (Some w) \<longrightarrow>
        (if k = i then Some (Some v) else im_At k m) = Some (Some w) \<longrightarrow> j = k"
      using inv v unfolding im_inv_def by (metis option.inject)
    show "\<forall>k l w. im_map m' k = Some w \<longrightarrow> im_map m' l = Some w \<longrightarrow> k = l"
      using inv ran unfolding im_inv_def m'_def by auto
  qed
  with at bits i show ?thesis
    unfolding im_Insert_eq [OF im_slot_props(2) [OF inv f] key] by (simp add: m'_def i_def)
qed

lemma im_Remove_eq:
  assumes "im_map m key = Some v" "im_At i m = Some (Some v)"
  shows "im_Remove key i True m = Some (m\<lparr>im_map := (im_map m)(key := None), im_bits := breset i (im_bits m),
    im_values := im_pop_nulls ((im_values m)[i := None]), im_heap := (im_heap m)(v := None)\<rparr>)"
  using assms by (auto simp: im_Remove_def ResetBit_def im_At_def Let_def vec_at_def im_delete_def split: if_splits)

lemma im_Remove_spec:
  assumes inv: "im_inv m" and key: "im_map m key = Some v" and at: "im_At i m = Some (Some v)"
  shows "succeeds (im_Remove key i True m) (\<lambda>m'. im_inv m' \<and> im_map m' = (im_map m)(key := None) \<and>
    bits (im_bits m') = bits (im_bits m) - {i} \<and> im_heap m' v = None \<and>
    (\<forall>j w. im_At j m' = Some (Some w) \<longleftrightarrow> j \<noteq> i \<and> im_At j m = Some (Some w)))"
proof -
  define m' where "m' = m\<lparr>im_map := (im_map m)(key := None), im_bits := breset i (im_bits m),
    im_values := im_pop_nulls ((im_values m)[i := None]), im_heap := (im_heap m)(v := None)\<rparr>"
  have at': "im_At j m' = Some (Some w) \<longleftrightarrow> j \<noteq> i \<and> im_At j m = Some (Some w)" for j w
    using at by (simp add: im_At_def m'_def vec_at_pop_nulls vec_at_update) (auto simp: vec_at_def split: if_splits)
  have bits: "bits (im_bits m') = bits (im_bits m) - {i}" by (simp add: m'_def bits_breset)
  have "im_inv m'"
    unfolding im_inv_def at' bits
  proof (intro conjI allI impI)
    show "slots_ok (im_bits m')"
      using inv bitset_slots.ok_del [of "im_bits m" i] by (simp add: im_inv_def m'_def)
    show "im_values m' = [] \<or> last (im_values m') \<noteq> None"
      using im_pop_nulls_last by (simp add: m'_def)
    fix k w
    assume k: "im_map m' k = Some w"
    then have "im_map m k = Some w" "k \<noteq> key" by (auto simp: m'_def split: if_splits)
    moreover from this inv key have "w \<noteq> v" unfolding im_inv_def by blast
    moreover from \<open>im_map m k = Some w\<close> inv obtain j where "im_At j m = Some (Some w)"
      unfolding im_inv_def by blast
    ultimately show "\<exists>j. j \<noteq> i \<and> im_At j m = Some (Some w)" using at by (metis option.inject)
  qed (use inv in \<open>auto simp: im_inv_def m'_def split: if_splits\<close>)
  with at' bits show ?thesis
    unfolding im_Remove_eq [OF key at] by (simp add: m'_def)
qed

lemma im_Remove_wrong_index:
  "im_map m key = None \<or> im_At i m \<noteq> Some (im_map m key) \<Longrightarrow> im_Remove key i c m = None"
  by (cases "im_map m key"; cases "vec_at (im_values m) i") (auto simp: im_Remove_def im_At_def cpp_assert_def)

text \<open>Inserting and removing at the returned index gives back the map, index for index.\<close>

lemma breset_bset:
  assumes "bs_inv bs" "p \<notin> bits bs"
  shows "breset p (bset p bs) = bs"
  using assms bits_inject [OF bs_inv_breset [OF bs_inv_bset [OF assms(1)]] assms(1), of p p]
  by (simp add: bits_breset bits_bset)

lemma im_roundtrip:
  assumes inv: "im_inv m" and f: "im_free index m" and key: "im_map m key = None" and v: "im_heap m v = None"
    and r: "im_Insert key v index m = Some (Some i, m')"
  shows "im_Remove key i True m' = Some m"
proof -
  note i = im_slot_props [OF inv f]
  have r: "i = im_slot index m" "m' = m\<lparr>im_map := (im_map m)(key \<mapsto> v), im_values := im_store i v (im_values m),
      im_bits := bset i (im_bits m)\<rparr>"
    using r unfolding im_Insert_eq [OF i(2) key] by auto
  have "im_At i m' = Some (Some v)" using i r by (simp add: im_At_def vec_at_store)
  moreover have "im_map m' key = Some v" using r by simp
  ultimately have e: "im_Remove key i True m' = Some (m'\<lparr>im_map := (im_map m')(key := None), im_bits := breset i (im_bits m'),
    im_values := im_pop_nulls ((im_values m')[i := None]), im_heap := (im_heap m')(v := None)\<rparr>)"
    by (intro im_Remove_eq)
  have "im_values m ! i = None" if "i < length (im_values m)"
    using that i(1) inv r(1) by (cases "im_values m ! i") (auto simp: im_inv_def im_At_def vec_at_def)
  then have "i < length (im_values m) \<Longrightarrow> (im_values m)[i := None] = im_values m"
    by (metis list_update_id)
  moreover have "i = length (im_values m)" if "\<not> i < length (im_values m)"
    using that i(2) r(1) by simp
  ultimately have "im_pop_nulls ((im_store i v (im_values m))[i := None]) = im_values m"
    using im_pop_nulls_id [of "im_values m"] inv
    by (cases "i < length (im_values m)") (auto simp: im_store_def im_inv_def)
  moreover have "breset i (bset i (im_bits m)) = im_bits m"
    using inv i(1) r(1) by (intro breset_bset) (auto simp: im_inv_def slots_ok_def)
  moreover have "(im_map m)(key := None) = im_map m" "(im_heap m)(v := None) = im_heap m"
    using key v by auto
  ultimately show ?thesis unfolding e using r(2) by simp
qed

text \<open>An index in use is overwritten: its value loses its index and keeps its key.\<close>

lemma im_overwrite:
  assumes inv: "im_inv m" and key: "im_map m key = None" and v: "\<And>i. im_At i m \<noteq> Some (Some v)"
    and old: "im_map m k = Some w" "im_At j m = Some (Some w)"
  shows "succeeds (im_Insert key v (Some j) m) (\<lambda>(b, m'). b = Some j \<and> im_Find k m' = Some w \<and> (\<forall>i. im_At i m' \<noteq> Some (Some w)))"
proof -
  have j: "j < length (im_values m)" using old(2) by (simp add: im_At_def vec_at_def split: if_splits)
  have "w \<noteq> v" "k \<noteq> key" using v [of j] old key by auto
  moreover have "im_At i m = Some (Some w) \<Longrightarrow> i = j" for i using inv old(2) unfolding im_inv_def by blast
  ultimately show ?thesis
    using j old(1) im_Insert_eq [of "Some j" m key v] key by (auto simp: im_slot_def im_Find_def im_At_def vec_at_store)
qed

text \<open>
  A reserved index is lost once the entries after it go: \<open>ResetBit\<close> shrinks the vector below
  the reserved bits, and the next \<open>Insert\<close> asks for a bit past the end.
\<close>

lemma dense_first_clear:
  assumes "slots_ok bs" "bits bs = {..<n}"
  shows "find_first_clear bs = n"
  using bitset_slots.first_clear_free(1) [OF assms(1)] bitset_slots.first_clear_free(2) [OF assms(1), of n] assms(2) by auto

lemma im_reserve_aborts:
  assumes inv: "im_inv m" and n: "n = im_size m" "bits (im_bits m) = {..<n}" "n < 2 ^ 63" and k: "im_map m k = None" "im_map m l = None"
  shows "succeeds (ReserveBit n m) (\<lambda>m1. succeeds (im_Insert k v None m1) (\<lambda>(b, m2). b = Some (n + 1) \<and>
    succeeds (im_Remove k (n + 1) True m2) (\<lambda>m3. im_size m3 = n \<and> bits (im_bits m3) = {..n} \<and> im_map m3 = im_map m \<and>
      im_Insert l w None m3 = None)))"
proof -
  define B where "B = bset n (im_bits m)"
  define m1 where "m1 = m\<lparr>im_bits := B, im_values := im_values m @ [None]\<rparr>"
  have i: "slots_ok (im_bits m)" "im_values m = [] \<or> last (im_values m) \<noteq> None" using inv unfolding im_inv_def by blast+
  have ok: "slots_ok B" unfolding B_def by (rule bitset_slots.ok_ins [OF i(1) n(3)])
  have bits: "bits B = {..<n + 1}" unfolding B_def bits_bset n(2) by auto
  have ff: "find_first_clear B = n + 1" by (rule dense_first_clear [OF ok bits])
  have len: "length (im_values m) = n" using n(1) by (simp add: im_size_def)
  have "\<not> btest (im_bits m) n" using n(2) by (auto simp: bits_def)
  then have s1: "ReserveBit n m = Some m1" using len by (simp add: ReserveBit_def m1_def B_def vec_resize_def)
  define m2 where "m2 = m1\<lparr>im_map := (im_map m)(k \<mapsto> v), im_values := im_values m @ [None, Some v], im_bits := bset (n + 1) B\<rparr>"
  have s2: "im_Insert k v None m1 = Some (Some (n + 1), m2)"
    using k(1) ff len by (simp add: im_Insert_def m1_def m2_def)
  have b: "breset (n + 1) (bset (n + 1) B) = B" using ok bits by (intro breset_bset) (simp_all add: slots_ok_def)
  have p: "im_pop_nulls (im_values m @ [None, None]) = im_values m"
    using im_pop_nulls_snoc(2) [of "im_values m @ [None]"] im_pop_nulls_id [OF i(2)] by simp
  define m3 where "m3 = m2\<lparr>im_map := im_map m, im_bits := B, im_values := im_values m, im_heap := (im_heap m)(v := None)\<rparr>"
  have u: "(im_values m @ [None, Some v])[Suc n := None] = im_values m @ [None, None]" using len by (simp add: list_update_append)
  have "im_map m2 k = Some v" by (simp add: m2_def)
  moreover have "im_At (n + 1) m2 = Some (Some v)" using len by (simp add: m2_def im_At_def vec_at_def nth_append)
  moreover have "(im_map m)(k \<mapsto> v, k := None) = im_map m" using k(1) by auto
  ultimately have s3: "im_Remove k (n + 1) True m2 = Some m3"
    using im_Remove_eq [of m2 k v "n + 1"] b p u by (simp add: m3_def m2_def m1_def)
  have f: "im_map m3 = im_map m" "im_bits m3 = B" "im_values m3 = im_values m" by (simp_all add: m3_def)
  have "im_Insert l w None m3 = None" unfolding im_Insert_def f using k(2) by (simp add: Let_def f ff len cpp_assert_def)
  moreover have "im_size m3 = n" unfolding im_size_def f by (rule len)
  moreover have "bits (im_bits m3) = {..n}" unfolding f bits by auto
  ultimately show ?thesis using f(1) by (simp only: s1 s2 s3 succeeds_Some prod.case simp_thms)
qed

lemma lb_inv_mk: "f < 2 ^ 32 \<Longrightarrow> l < 2 ^ 32 \<Longrightarrow> lb_inv (mk_LabelBlock f l)"
  by (simp add: lb_inv_def mk_LabelBlock_def bs_inv_def)

lemma ia_inv_mk: "n < 2 ^ 63 \<Longrightarrow> ia_inv (mk_IndexAllocator n)"
  by (simp add: ia_inv_def mk_IndexAllocator_def bs_inv_def)

lemma lbm_inv_mk: "lbm_inv ext (mk_LabelBlockManager\<lparr>lbm_refs := ext\<rparr>)"
  by (simp add: lbm_inv_def mk_LabelBlockManager_def)

section \<open>Properties\<close>

text \<open>
  C35. A label block never hands out a label twice: \<open>AllocateLabel\<close> returns a label of the block that
  is not in use and marks it, whenever there is one; when every label is in use it returns 0 and
  changes no mark. \<open>ReleaseLabel\<close> of a label of the block frees exactly that label and aborts on any
  other value.
\<close>

theorem label_block_alloc_release:
  assumes "lb_inv b" "AllocateLabel b = (l, b')"
  shows "lb_inv b' \<and>
    (if lb_labels b \<subseteq> lb_in_use b then l = 0 \<and> lb_in_use b' = lb_in_use b
     else l \<in> lb_labels b \<and> l \<notin> lb_in_use b \<and> lb_in_use b' = insert l (lb_in_use b)) \<and>
    (if v \<in> lb_labels b
     then succeeds (ReleaseLabel v b) (\<lambda>c. lb_inv c \<and> lb_in_use c = lb_in_use b - {v})
     else ReleaseLabel v b = None)"
  using AllocateLabel_spec [OF assms] ReleaseLabel_spec [OF assms(1), of v]
  by (simp add: succeeds_conj split: if_splits)

theorem label_block_alloc_release_witness:
  "lb_inv (mk_LabelBlock 16 31) \<and> fst (AllocateLabel (mk_LabelBlock 16 31)) \<in> {16..31}"
proof -
  have inv: "lb_inv (mk_LabelBlock 16 31)" by (rule lb_inv_mk) simp_all
  have "\<not> lb_labels (mk_LabelBlock 16 31) \<subseteq> lb_in_use (mk_LabelBlock 16 31)"
    by (simp add: lb_labels_def lb_in_use_def mk_LabelBlock_def)
  then show ?thesis
    using label_block_alloc_release [OF inv prod.collapse [symmetric]] inv
    by (auto simp: lb_labels_def mk_LabelBlock_def)
qed

text \<open>
  C34. \<open>LocateBlock\<close> returns the one block with the wanted range, creating it only when there is none,
  with one more reference; releasing a pointer drops one reference and deletes the block exactly
  when it was the last, and neither aborts as long as the manager has a user of its own and a block
  is only dropped with no label in use.
\<close>

theorem label_block_manager:
  assumes "lbm_inv ext m" "lbm_heap m fresh = None" "LocateBlock fresh f l m = (r, m')" "0 < ext"
  shows "lbm_inv ext m' \<and> block_at m' f l r \<and>
    (if \<exists>q \<in> set (lbm_blocks m). block_at m f l q
     then lbm_heap m' = lbm_heap m \<and> lb_refs m' r = lb_refs m r + 1
     else lbm_heap m' = (lbm_heap m)(r \<mapsto> mk_LabelBlock f l) \<and> lb_refs m' r = 1) \<and>
    (\<forall>b. lbm_heap m' r = Some b \<longrightarrow> (lb_refs m' r = 1 \<longrightarrow> lb_used b = []) \<longrightarrow>
       succeeds (lb_release r m') (\<lambda>n. lbm_inv ext n \<and>
         lbm_heap n = (if lb_refs m' r = 1 then (lbm_heap m')(r := None) else lbm_heap m')))"
proof -
  note s = LocateBlock_spec [OF assms(1,2,3)]
  have "succeeds (lb_release r m') (\<lambda>n. lbm_inv ext n \<and>
      lbm_heap n = (if lb_refs m' r = 1 then (lbm_heap m')(r := None) else lbm_heap m'))"
    if "lbm_heap m' r = Some b" "lb_refs m' r = 1 \<longrightarrow> lb_used b = []" for b
    by (rule succeeds_mono [OF lb_release_spec [OF conjunct1 [OF s] that(1) assms(4) that(2)]]) blast
  with s show ?thesis by (simp split: if_splits)
qed

theorem label_block_manager_witness:
  "lb_refs (snd (LocateBlock 5 16 31 (mk_LabelBlockManager\<lparr>lbm_refs := 1\<rparr>))) 
     (fst (LocateBlock 5 16 31 (mk_LabelBlockManager\<lparr>lbm_refs := 1\<rparr>))) = 1"
  using label_block_manager [OF lbm_inv_mk _ prod.collapse [symmetric], of 1 5 16 31]
  by (simp add: mk_LabelBlockManager_def split: if_splits)

text \<open>
  C36. The pointer release locks the manager's mutex around the deletion of the block. When a block without
  labels in use, whose last reference goes, holds the last reference on its manager, the deletion
  itself succeeds and destroys the manager; the mutex, a member of it, is unlocked after that, which
  is where the release fails.
\<close>

theorem label_block_release_after_manager:
  assumes "lbm_inv 0 m" "lbm_heap m r = Some b" "lb_refs m r = 1" "lbm_blocks m = [r]" "lb_used b = []"
  shows "\<exists>m'. delete_LabelBlock r (m\<lparr>lb_refs := (lb_refs m)(r := 0)\<rparr>) = Some m' \<and> \<not> lbm_alive m' \<and> lb_release r m = None"
  by (rule lb_release_use_after_free [OF assms])

theorem label_block_release_after_manager_witness:
  "lb_release 5 \<lparr>lbm_blocks = [5], lbm_heap = [5 \<mapsto> mk_LabelBlock 16 31], lb_refs = (\<lambda>_. 1),
     lbm_refs = 1, lbm_alive = True\<rparr> = None"
  (is "lb_release 5 ?m = None")
proof -
  have "lbm_inv 0 ?m" by (auto simp: lbm_inv_def)
  moreover have "lb_used (mk_LabelBlock 16 31) = []" by (simp add: mk_LabelBlock_def)
  ultimately have "\<exists>m'. delete_LabelBlock 5 (?m\<lparr>lb_refs := (lb_refs ?m)(5 := 0)\<rparr>) = Some m' \<and> \<not> lbm_alive m' \<and> lb_release 5 ?m = None"
    by (intro label_block_release_after_manager) simp_all
  then show ?thesis by blast
qed

text \<open>
  \<open>IndexAllocator\<close>: \<open>AllocIndex\<close> returns an index up to the maximum that is free and marks it, and
  -1 exactly when all are in use; \<open>FreeIndex\<close> frees exactly the index it is given and aborts
  beyond the maximum; \<open>NoneIndexSet\<close> and \<open>AnyIndexSet\<close> tell whether an index is in use.
\<close>

theorem index_allocator_ops:
  assumes "ia_inv a" "AllocIndex a = (i, a')"
  shows "ia_inv a' \<and>
    (if {..ia_max_index a} \<subseteq> bits (ia_bitset a) then i = npos \<and> bits (ia_bitset a') = bits (ia_bitset a)
     else i \<le> ia_max_index a \<and> i \<notin> bits (ia_bitset a) \<and>
       bits (ia_bitset a') = insert i (bits (ia_bitset a))) \<and>
    (if j \<le> ia_max_index a
     then succeeds (FreeIndex j a) (\<lambda>c. ia_inv c \<and> bits (ia_bitset c) = bits (ia_bitset a) - {j})
     else FreeIndex j a = None) \<and>
    (NoneIndexSet a \<longleftrightarrow> bits (ia_bitset a) = {}) \<and> (AnyIndexSet a \<longleftrightarrow> bits (ia_bitset a) \<noteq> {})"
proof -
  have "NoneIndexSet a \<longleftrightarrow> bits (ia_bitset a) = {}" "AnyIndexSet a \<longleftrightarrow> bits (ia_bitset a) \<noteq> {}"
    using assms(1) by (simp_all add: ia_inv_def NoneIndexSet_def AnyIndexSet_def bnone_def bany_def bits_empty_iff)
  then show ?thesis
    using AllocIndex_spec [OF assms] FreeIndex_spec [OF assms(1), of j]
    by (simp add: succeeds_conj split: if_splits)
qed

theorem index_allocator_ops_witness:
  "ia_inv (mk_IndexAllocator 9) \<and> fst (AllocIndex (mk_IndexAllocator 9)) \<le> 9"
proof -
  have inv: "ia_inv (mk_IndexAllocator 9)" by (rule ia_inv_mk) simp
  have "\<not> {..9} \<subseteq> bits (ia_bitset (mk_IndexAllocator 9))" by (simp add: mk_IndexAllocator_def)
  with index_allocator_ops [OF inv prod.collapse [symmetric]] inv show ?thesis
    by (simp add: mk_IndexAllocator_def)
qed

text \<open>
  C37. \<open>IndexMap\<close>, in a map in which no index is reserved: \<open>Insert\<close> of a new key, with no index or with an
  explicit index that is free and not past the end, stores the value at a free index and changes no
  other index, \<open>At\<close> of the index and \<open>Find\<close> of the key return it, and no index or key is shared; \<open>Insert\<close>
  of a known key changes nothing. \<open>Remove\<close> of the key at the index \<open>Insert\<close> returned gives back the map
  it started from, index for index, and \<open>Remove\<close> with any other index aborts. An explicit index past the
  end aborts; one in use is overwritten, and the key that was there finds a value which no index holds.
\<close>

theorem index_map_insert_remove:
  assumes "im_inv m" "im_map m key = None" "\<And>i. im_At i m \<noteq> Some (Some v)" "im_heap m v = None"
    "length (im_values m) < 2 ^ 63"
  shows "(im_free index m \<longrightarrow> succeeds (im_Insert key v index m) (\<lambda>(b, m'). \<exists>i. b = Some i \<and> im_inv m' \<and>
    i \<notin> bits (im_bits m) \<and> (\<forall>j. im_At j m' = (if j = i then Some (Some v) else im_At j m)) \<and>
    (\<forall>k. im_Find k m' = (if k = key then Some v else im_Find k m)) \<and>
    im_Insert key w index' m' = Some (None, m') \<and>
    im_Remove key i True m' = Some m \<and> (\<forall>j. j \<noteq> i \<longrightarrow> im_Remove key j True m' = None))) \<and>
    (\<forall>j. im_size m < j \<longrightarrow> im_Insert key v (Some j) m = None) \<and>
    (\<forall>j k u. im_Find k m = Some u \<longrightarrow> im_At j m = Some (Some u) \<longrightarrow>
      succeeds (im_Insert key v (Some j) m) (\<lambda>(b, m'). b = Some j \<and> im_Find k m' = Some u \<and> (\<forall>i. im_At i m' \<noteq> Some (Some u))))"
proof (intro conjI impI allI)
  assume f: "im_free index m"
  obtain b m' where r: "im_Insert key v index m = Some (b, m')"
    using im_Insert_eq [OF im_slot_props(2) [OF assms(1) f] assms(2)] by blast
  from im_Insert_spec [OF assms(1) f assms(2,3,5)] obtain i where i: "b = Some i" "i \<notin> bits (im_bits m)" "im_inv m'"
      "im_map m' = (im_map m)(key \<mapsto> v)" "\<forall>j. im_At j m' = (if j = i then Some (Some v) else im_At j m)"
    unfolding r by auto
  have "im_Remove key i True m' = Some m"
    using im_roundtrip [OF assms(1) f assms(2,4)] r i(1) by simp
  moreover have "im_Remove key j True m' = None" if "j \<noteq> i" for j
    using that i assms(3) by (intro im_Remove_wrong_index) simp
  moreover have "im_Insert key w index' m' = Some (None, m')" using i(4) by (simp add: im_Insert_def)
  ultimately show "succeeds (im_Insert key v index m) (\<lambda>(b, m'). \<exists>i. b = Some i \<and> im_inv m' \<and>
    i \<notin> bits (im_bits m) \<and> (\<forall>j. im_At j m' = (if j = i then Some (Some v) else im_At j m)) \<and>
    (\<forall>k. im_Find k m' = (if k = key then Some v else im_Find k m)) \<and>
    im_Insert key w index' m' = Some (None, m') \<and>
    im_Remove key i True m' = Some m \<and> (\<forall>j. j \<noteq> i \<longrightarrow> im_Remove key j True m' = None))"
    unfolding r using i by (simp add: im_Find_def)
next
  fix j assume "im_size m < j"
  then show "im_Insert key v (Some j) m = None" using assms(2) by (simp add: im_Insert_def im_size_def cpp_assert_def)
next
  fix j k u assume "im_Find k m = Some u" "im_At j m = Some (Some u)"
  then show "succeeds (im_Insert key v (Some j) m) (\<lambda>(b, m'). b = Some j \<and> im_Find k m' = Some u \<and> (\<forall>i. im_At i m' \<noteq> Some (Some u)))"
    using im_overwrite [OF assms(1,2,3)] by (simp add: im_Find_def)
qed

theorem index_map_insert_remove_witness:
  "succeeds (im_Insert ''a'' 100 None (mk_IndexMap :: string index_map))
     (\<lambda>(b, m'). \<exists>i. b = Some i \<and> im_Find ''a'' m' = Some 100 \<and> im_Remove ''a'' i True m' = Some mk_IndexMap)"
proof -
  have "im_heap (mk_IndexMap :: string index_map) 100 = None" "im_map (mk_IndexMap :: string index_map) ''a'' = None"
    "length (im_values (mk_IndexMap :: string index_map)) < 2 ^ 63" "\<And>i. im_At i (mk_IndexMap :: string index_map) \<noteq> Some (Some 100)"
    "im_free None (mk_IndexMap :: string index_map)" by (simp_all add: mk_IndexMap_def im_At_def vec_at_def im_free_def)
  from conjunct1 [OF index_map_insert_remove [OF im_inv_mk this(2,4,1,3), of None], THEN mp, OF this(5)]
  show ?thesis by (rule succeeds_mono) auto
qed

text \<open>
  C38. An index reserved with \<open>ReserveBit\<close> is forgotten by the vector when the entries after it are
  removed, while its bit stays set. In any map whose indices are all in use, reserve the next index,
  insert a key and remove it: the three calls succeed, the vector is as short as before, the reserved
  bit is still set, and the next \<open>Insert\<close> of a new key aborts on its assertion.
\<close>

theorem index_map_reserve_aborts:
  assumes "im_inv m" "bits (im_bits m) = {..<im_size m}" "im_size m < 2 ^ 63" "im_map m k = None" "im_map m l = None"
  shows "succeeds (ReserveBit (im_size m) m) (\<lambda>m1. succeeds (im_Insert k v None m1) (\<lambda>(b, m2). b = Some (im_size m + 1) \<and>
    succeeds (im_Remove k (im_size m + 1) True m2) (\<lambda>m3. im_size m3 = im_size m \<and> bits (im_bits m3) = {..im_size m} \<and>
      im_map m3 = im_map m \<and> im_Insert l w None m3 = None)))"
  using im_reserve_aborts [OF assms(1) refl assms(2-5)] .

theorem index_map_reserve_aborts_witness:
  "succeeds (ReserveBit 0 (mk_IndexMap :: nat index_map)) (\<lambda>m1. succeeds (im_Insert 7 100 None m1) (\<lambda>(b, m2). b = Some 1 \<and>
    succeeds (im_Remove 7 1 True m2) (\<lambda>m3. im_Insert 8 101 None m3 = None)))"
proof -
  have m: "im_size (mk_IndexMap :: nat index_map) = 0" "bits (im_bits (mk_IndexMap :: nat index_map)) = {}"
    "im_map (mk_IndexMap :: nat index_map) x = None" for x by (simp_all add: mk_IndexMap_def im_size_def)
  have "bits (im_bits (mk_IndexMap :: nat index_map)) = {..<im_size (mk_IndexMap :: nat index_map)}"
    "im_size (mk_IndexMap :: nat index_map) < 2 ^ 63" by (simp_all add: m)
  from index_map_reserve_aborts [OF im_inv_mk this m(3) m(3), of 7 100 8 101]
  show ?thesis by (auto simp: m succeeds_iff)
qed

end
