(* ===== verification/Task_Sched.thy ===== *)
theory Task_Sched
  imports Prelude "HOL-Library.List_Lexorder" "HOL-Library.Char_ord"
begin

text \<open>
  The task scheduler (src/base/task.h, src/base/task.cc): definitions.

  Objects live in an explicit store. A task is an address (\<open>task_ref\<close>); a \<open>TaskGroup\<close> is named by
  its task id, since \<open>task_group_db_[i]\<close> only ever holds \<open>NULL\<close> or the group with id \<open>i\<close>, and so
  are the entries by \<open>entry_ref\<close>. \<open>ts_tbb\<close> is the list of the tasks handed to TBB that have not
  come back through \<open>OnTaskExit\<close> yet: TBB itself is not modelled, its threads run these
  tasks in any order. Every method runs under \<open>mutex_\<close> in the code, so a method is one
  function of the state. An \<open>assert\<close> that fails, a \<open>NULL\<close> that is followed and an iterator
  of an object that is not in its container are \<open>None\<close>.
\<close>

section \<open>Data\<close>

type_synonym task_ref = nat

datatype tstate = INIT | WAIT | RUN

datatype tbb_state = TBB_INIT | TBB_ENQUEUED | TBB_EXEC | TBB_DONE

record task =
  tk_id :: int
  tk_instance :: int
  tk_impl :: bool
  tk_state :: tstate
  tk_tbb_state :: tbb_state
  tk_seqno :: nat
  tk_recycle :: bool
  tk_cancel :: bool
  tk_enqueue_time :: nat
  tk_schedule_time :: nat
  tk_execute_delay :: nat
  tk_schedule_delay :: nat

definition mk_Task :: "int \<Rightarrow> int \<Rightarrow> task" where
  "mk_Task task_id task_instance =
     \<lparr>tk_id = task_id, tk_instance = task_instance, tk_impl = False, tk_state = INIT,
      tk_tbb_state = TBB_INIT, tk_seqno = 0, tk_recycle = False, tk_cancel = False,
      tk_enqueue_time = 0, tk_schedule_time = 0, tk_execute_delay = 0, tk_schedule_delay = 0\<rparr>"

record task_stats =
  st_wait_count :: nat
  st_run_count :: nat
  st_defer_count :: nat
  st_enqueue_count :: nat
  st_total_tasks_completed :: nat
  st_last_exit_time :: nat

definition zero_stats :: task_stats where
  "zero_stats = \<lparr>st_wait_count = 0, st_run_count = 0, st_defer_count = 0, st_enqueue_count = 0,
     st_total_tasks_completed = 0, st_last_exit_time = 0\<rparr>"

text \<open>
  \<open>InstEntry t i\<close> is \<open>task_entry_db_[i]\<close> of the group \<open>t\<close>, \<open>GroupEntry t\<close> its
  \<open>task_entry_\<close> (instance -1), \<open>DisableEntry t\<close> its \<open>disable_entry_\<close>; \<open>StopEntry\<close> is the
  scheduler's \<open>stop_entry_\<close>.
\<close>

datatype entry_ref = InstEntry int int | GroupEntry int | DisableEntry int | StopEntry

text \<open>
  \<open>te_linked\<close> is the state of the hook \<open>task_defer_node\<close>; the two pointers \<open>deferq_task_entry_\<close>
  and \<open>deferq_task_group_\<close> name the owner of the tree the entry is in. A \<open>deferq_\<close> is the list
  of the tree's nodes in order.
\<close>

record task_entry =
  te_task_id :: int
  te_task_instance :: int
  te_run_count :: nat
  te_run_task :: "task_ref option"
  te_waitq :: "task_ref list"
  te_policyq :: "entry_ref list"
  te_deferq :: "entry_ref list"
  te_linked :: bool
  te_dq_entry :: "entry_ref option"
  te_dq_group :: "int option"
  te_disable :: bool
  te_stats :: task_stats

record task_group =
  tg_task_id :: int
  tg_policy_set :: bool
  tg_run_count :: nat
  tg_total_run_time :: nat
  tg_policy :: "int list"
  tg_deferq :: "entry_ref list"
  tg_entry_db :: "bool list"
  tg_execute_delay :: nat
  tg_schedule_delay :: nat
  tg_disable :: bool
  tg_stats :: task_stats

definition kVectorGrowSize :: int where
  "kVectorGrowSize = 16"

text \<open>The constructor adds the rule that only one task of an instance runs at a time.\<close>

definition mk_TaskEntry :: "entry_ref \<Rightarrow> int \<Rightarrow> int \<Rightarrow> task_entry" where
  "mk_TaskEntry this task_id task_instance =
     \<lparr>te_task_id = task_id, te_task_instance = task_instance, te_run_count = 0, te_run_task = None,
      te_waitq = [], te_policyq = (if task_instance \<noteq> -1 then [this] else []), te_deferq = [],
      te_linked = False, te_dq_entry = None, te_dq_group = None, te_disable = False,
      te_stats = zero_stats\<rparr>"

definition mk_TaskGroup :: "int \<Rightarrow> task_group" where
  "mk_TaskGroup task_id =
     \<lparr>tg_task_id = task_id, tg_policy_set = False, tg_run_count = 0, tg_total_run_time = 0,
      tg_policy = [], tg_deferq = [], tg_entry_db = replicate (nat kVectorGrowSize) False,
      tg_execute_delay = 0, tg_schedule_delay = 0, tg_disable = False, tg_stats = zero_stats\<rparr>"

text \<open>What an entry not yet allocated will be; \<open>new\<close> writes it.\<close>

fun fresh_entry :: "entry_ref \<Rightarrow> task_entry" where
  "fresh_entry (InstEntry t i) = mk_TaskEntry (InstEntry t i) t i"
| "fresh_entry (GroupEntry t) = mk_TaskEntry (GroupEntry t) t (-1)"
| "fresh_entry (DisableEntry t) = mk_TaskEntry (DisableEntry t) t (-1)"
| "fresh_entry StopEntry = mk_TaskEntry StopEntry (-1) (-1)"

text \<open>
  The scheduler. \<open>ts_group_db\<close> and \<open>tg_entry_db\<close> tell which positions of the vectors of
  pointers are not \<open>NULL\<close>. \<open>ts_clock\<close> and \<open>ts_utc\<close> are what \<open>ClockMonotonicUsec\<close> and
  \<open>UTCTimestampUsec\<close> return next; \<open>ts_log\<close> collects what \<open>Log\<close> passes to a
  registered \<open>log_fn_\<close>.
\<close>

record sched =
  ts_running :: bool
  ts_seqno :: nat
  ts_group_db :: "bool list"
  ts_groups :: "int \<Rightarrow> task_group"
  ts_entries :: "entry_ref \<Rightarrow> task_entry"
  ts_tasks :: "task_ref \<Rightarrow> task option"
  ts_tbb :: "task_ref list"
  ts_id_map :: "(string \<times> int) list"
  ts_id_max :: int
  ts_track_run_time :: bool
  ts_measure_delay :: bool
  ts_schedule_delay :: nat
  ts_execute_delay :: nat
  ts_enqueue_count :: nat
  ts_done_count :: nat
  ts_cancel_count :: nat
  ts_clock :: nat
  ts_utc :: nat
  ts_log :: "(task_ref \<times> string \<times> nat) list"

definition mk_TaskScheduler :: sched where
  "mk_TaskScheduler =
     \<lparr>ts_running = True, ts_seqno = 0, ts_group_db = replicate (nat kVectorGrowSize) False,
      ts_groups = mk_TaskGroup, ts_entries = fresh_entry, ts_tasks = (\<lambda>_. None), ts_tbb = [],
      ts_id_map = [], ts_id_max = 0, ts_track_run_time = False, ts_measure_delay = False,
      ts_schedule_delay = 0, ts_execute_delay = 0, ts_enqueue_count = 0, ts_done_count = 0,
      ts_cancel_count = 0, ts_clock = 0, ts_utc = 0, ts_log = []\<rparr>"

definition upd_entry :: "entry_ref \<Rightarrow> (task_entry \<Rightarrow> task_entry) \<Rightarrow> sched \<Rightarrow> sched" where
  "upd_entry e f s = s\<lparr>ts_entries := (ts_entries s)(e := f (ts_entries s e))\<rparr>"

definition upd_group :: "int \<Rightarrow> (task_group \<Rightarrow> task_group) \<Rightarrow> sched \<Rightarrow> sched" where
  "upd_group g f s = s\<lparr>ts_groups := (ts_groups s)(g := f (ts_groups s g))\<rparr>"

definition upd_task :: "task_ref \<Rightarrow> (task \<Rightarrow> task) \<Rightarrow> sched \<Rightarrow> sched" where
  "upd_task r f s = s\<lparr>ts_tasks := (ts_tasks s)(r := map_option f (ts_tasks s r))\<rparr>"

definition upd_estats :: "entry_ref \<Rightarrow> (task_stats \<Rightarrow> task_stats) \<Rightarrow> sched \<Rightarrow> sched" where
  "upd_estats e f s = upd_entry e (\<lambda>x. x\<lparr>te_stats := f (te_stats x)\<rparr>) s"

definition upd_gstats :: "int \<Rightarrow> (task_stats \<Rightarrow> task_stats) \<Rightarrow> sched \<Rightarrow> sched" where
  "upd_gstats g f s = upd_group g (\<lambda>x. x\<lparr>tg_stats := f (tg_stats x)\<rparr>) s"

section \<open>Groups and entries\<close>

text \<open>A position of a vector of pointers, \<open>False\<close> for \<open>NULL\<close>; out of range is an abort.\<close>

definition db_at :: "bool list \<Rightarrow> int \<Rightarrow> bool option" where
  "db_at db i = (if 0 \<le> i \<and> nat i < length db then Some (db ! nat i) else None)"

definition db_grow :: "bool list \<Rightarrow> int \<Rightarrow> bool list" where
  "db_grow db i =
     (if int (length db) \<le> i then vec_resize False (nat (i + kVectorGrowSize)) db else db)"

definition GetTaskGroup :: "int \<Rightarrow> sched \<Rightarrow> sched option" where
  "GetTaskGroup task_id s = do {
     _ \<leftarrow> cpp_assert (task_id \<ge> 0);
     let s = s\<lparr>ts_group_db := db_grow (ts_group_db s) task_id\<rparr>;
     present \<leftarrow> db_at (ts_group_db s) task_id;
     Some (if present then s
           else s\<lparr>ts_group_db := (ts_group_db s)[nat task_id := True],
                  ts_groups := (ts_groups s)(task_id := mk_TaskGroup task_id),
                  ts_entries := (ts_entries s)
                    (GroupEntry task_id := fresh_entry (GroupEntry task_id),
                     DisableEntry task_id := fresh_entry (DisableEntry task_id))\<rparr>)
   }"

text \<open>\<open>QueryTaskGroup\<close>: whether the pointer is not \<open>NULL\<close>.\<close>

definition QueryTaskGroup :: "int \<Rightarrow> sched \<Rightarrow> bool option" where
  "QueryTaskGroup task_id s = db_at (ts_group_db s) task_id"

definition group_GetTaskEntry :: "int \<Rightarrow> int \<Rightarrow> sched \<Rightarrow> (entry_ref \<times> sched) option" where
  "group_GetTaskEntry g task_instance s =
     (if task_instance = -1 then Some (GroupEntry g, s)
      else do {
        let s = upd_group g (\<lambda>x. x\<lparr>tg_entry_db := db_grow (tg_entry_db x) task_instance\<rparr>) s;
        present \<leftarrow> db_at (tg_entry_db (ts_groups s g)) task_instance;
        let e = InstEntry (tg_task_id (ts_groups s g)) task_instance;
        Some (e, if present then s
                 else upd_group g
                        (\<lambda>x. x\<lparr>tg_entry_db := (tg_entry_db x)[nat task_instance := True]\<rparr>)
                        (s\<lparr>ts_entries := (ts_entries s)(e := fresh_entry e)\<rparr>))
      })"

text \<open>\<open>QueryTaskEntry\<close> of a group; the inner \<open>None\<close> is a \<open>NULL\<close> result.\<close>

definition group_QueryTaskEntry :: "int \<Rightarrow> int \<Rightarrow> sched \<Rightarrow> entry_ref option option" where
  "group_QueryTaskEntry g task_instance s =
     (if task_instance = -1 then Some (Some (GroupEntry g))
      else if task_instance \<ge> int (length (tg_entry_db (ts_groups s g))) then Some None
      else do {
        present \<leftarrow> db_at (tg_entry_db (ts_groups s g)) task_instance;
        Some (if present then Some (InstEntry g task_instance) else None)
      })"

definition GetTaskEntry :: "int \<Rightarrow> int \<Rightarrow> sched \<Rightarrow> (entry_ref \<times> sched) option" where
  "GetTaskEntry task_id task_instance s = do {
     s \<leftarrow> GetTaskGroup task_id s;
     group_GetTaskEntry task_id task_instance s
   }"

definition QueryTaskEntry :: "int \<Rightarrow> int \<Rightarrow> sched \<Rightarrow> entry_ref option option" where
  "QueryTaskEntry task_id task_instance s = do {
     present \<leftarrow> QueryTaskGroup task_id s;
     if present then group_QueryTaskEntry task_id task_instance s else Some None
   }"

definition group_AddPolicy :: "int \<Rightarrow> int \<Rightarrow> sched \<Rightarrow> sched" where
  "group_AddPolicy g h = upd_group g (\<lambda>x. x\<lparr>tg_policy := tg_policy x @ [h]\<rparr>)"

definition entry_AddPolicy :: "entry_ref \<Rightarrow> entry_ref \<Rightarrow> sched \<Rightarrow> sched" where
  "entry_AddPolicy e f = upd_entry e (\<lambda>x. x\<lparr>te_policyq := te_policyq x @ [f]\<rparr>)"

definition PolicySet :: "int \<Rightarrow> sched \<Rightarrow> sched option" where
  "PolicySet g s = do {
     _ \<leftarrow> cpp_assert (tg_policy_set (ts_groups s g) = False);
     Some (upd_group g (\<lambda>x. x\<lparr>tg_policy_set := True\<rparr>) s)
   }"

definition ActiveGroupInPolicy :: "int \<Rightarrow> sched \<Rightarrow> int option" where
  "ActiveGroupInPolicy g s = find (\<lambda>h. tg_run_count (ts_groups s h) \<noteq> 0) (tg_policy (ts_groups s g))"

definition ActiveEntryInPolicy :: "entry_ref \<Rightarrow> sched \<Rightarrow> entry_ref option" where
  "ActiveEntryInPolicy e s =
     find (\<lambda>f. te_run_count (ts_entries s f) \<noteq> 0) (te_policyq (ts_entries s e))"

section \<open>Wait queues and defer queues\<close>

definition AddToWaitQ :: "entry_ref \<Rightarrow> task_ref \<Rightarrow> sched \<Rightarrow> sched option" where
  "AddToWaitQ e r s = do {
     _ \<leftarrow> ts_tasks s r;
     let s = upd_task r (\<lambda>t. t\<lparr>tk_state := WAIT\<rparr>) s;
     let s = upd_estats e (\<lambda>x. x\<lparr>st_wait_count := st_wait_count x + 1\<rparr>) s;
     let s = upd_entry e (\<lambda>x. x\<lparr>te_waitq := te_waitq x @ [r]\<rparr>) s;
     let g = te_task_id (ts_entries s e);
     s \<leftarrow> GetTaskGroup g s;
     Some (upd_gstats g (\<lambda>x. x\<lparr>st_wait_count := st_wait_count x + 1\<rparr>) s)
   }"

definition DeleteFromWaitQ :: "entry_ref \<Rightarrow> task_ref \<Rightarrow> sched \<Rightarrow> sched option" where
  "DeleteFromWaitQ e r s = do {
     _ \<leftarrow> cpp_assert (r \<in> set (te_waitq (ts_entries s e)));
     Some (upd_entry e (\<lambda>x. x\<lparr>te_waitq := remove1 r (te_waitq x)\<rparr>) s)
   }"

text \<open>The key of an entry in a tree: the sequence number of the first task of its \<open>waitq_\<close>.\<close>

definition GetTaskDeferEntrySeqno :: "sched \<Rightarrow> entry_ref \<Rightarrow> nat option" where
  "GetTaskDeferEntrySeqno s e =
     (case te_waitq (ts_entries s e) of
        [] \<Rightarrow> None
      | r # _ \<Rightarrow> map_option tk_seqno (ts_tasks s r))"

text \<open>\<open>operator<\<close> of \<open>boost::optional\<close>: an empty value is less than any other.\<close>

fun opt_less :: "nat option \<Rightarrow> nat option \<Rightarrow> bool" where
  "opt_less None b = (b \<noteq> None)"
| "opt_less (Some a) b = (case b of None \<Rightarrow> False | Some b \<Rightarrow> a < b)"

definition TaskDeferEntryCmp :: "sched \<Rightarrow> entry_ref \<Rightarrow> entry_ref \<Rightarrow> bool" where
  "TaskDeferEntryCmp s lhs rhs =
     opt_less (GetTaskDeferEntrySeqno s lhs) (GetTaskDeferEntrySeqno s rhs)"

text \<open>Insertion in a tree with unique keys: an entry whose key is there is not inserted.\<close>

fun tree_insert :: "(entry_ref \<Rightarrow> entry_ref \<Rightarrow> bool) \<Rightarrow> entry_ref \<Rightarrow> entry_ref list \<Rightarrow> entry_ref list option" where
  "tree_insert lt e [] = Some [e]"
| "tree_insert lt e (x # xs) =
     (if lt e x then Some (e # x # xs)
      else if lt x e then map_option ((#) x) (tree_insert lt e xs)
      else None)"

text \<open>Linking a node that is linked already is refused by the hook's safe mode.\<close>

definition deferq_insert :: "entry_ref \<Rightarrow> entry_ref list \<Rightarrow> sched \<Rightarrow> (entry_ref list \<times> sched) option" where
  "deferq_insert e q s =
     (case tree_insert (TaskDeferEntryCmp s) e q of
        None \<Rightarrow> Some (q, s)
      | Some q' \<Rightarrow> do {
          _ \<leftarrow> cpp_assert (\<not> te_linked (ts_entries s e));
          Some (q', upd_entry e (\<lambda>x. x\<lparr>te_linked := True\<rparr>) s)
        })"

definition group_AddToDeferQ :: "int \<Rightarrow> entry_ref \<Rightarrow> sched \<Rightarrow> sched option" where
  "group_AddToDeferQ g e s = do {
     let s = upd_gstats g (\<lambda>x. x\<lparr>st_defer_count := st_defer_count x + 1\<rparr>) s;
     (q, s) \<leftarrow> deferq_insert e (tg_deferq (ts_groups s g)) s;
     let s = upd_group g (\<lambda>x. x\<lparr>tg_deferq := q\<rparr>) s;
     _ \<leftarrow> cpp_assert (te_dq_group (ts_entries s e) = None);
     Some (upd_entry e (\<lambda>x. x\<lparr>te_dq_group := Some g\<rparr>) s)
   }"

definition entry_AddToDeferQ :: "entry_ref \<Rightarrow> entry_ref \<Rightarrow> sched \<Rightarrow> sched option" where
  "entry_AddToDeferQ d e s = do {
     let s = upd_estats d (\<lambda>x. x\<lparr>st_defer_count := st_defer_count x + 1\<rparr>) s;
     (q, s) \<leftarrow> deferq_insert e (te_deferq (ts_entries s d)) s;
     let s = upd_entry d (\<lambda>x. x\<lparr>te_deferq := q\<rparr>) s;
     _ \<leftarrow> cpp_assert (te_dq_entry (ts_entries s e) = None);
     Some (upd_entry e (\<lambda>x. x\<lparr>te_dq_entry := Some d\<rparr>) s)
   }"

definition group_DeleteFromDeferQ :: "int \<Rightarrow> entry_ref \<Rightarrow> sched \<Rightarrow> sched option" where
  "group_DeleteFromDeferQ g e s = do {
     _ \<leftarrow> cpp_assert (te_dq_group (ts_entries s e) = Some g);
     _ \<leftarrow> cpp_assert (e \<in> set (tg_deferq (ts_groups s g)));
     let s = upd_group g (\<lambda>x. x\<lparr>tg_deferq := remove1 e (tg_deferq x)\<rparr>) s;
     Some (upd_entry e (\<lambda>x. x\<lparr>te_linked := False, te_dq_group := None\<rparr>) s)
   }"

definition entry_DeleteFromDeferQ :: "entry_ref \<Rightarrow> entry_ref \<Rightarrow> sched \<Rightarrow> sched option" where
  "entry_DeleteFromDeferQ d e s = do {
     _ \<leftarrow> cpp_assert (te_dq_entry (ts_entries s e) = Some d);
     _ \<leftarrow> cpp_assert (e \<in> set (te_deferq (ts_entries s d)));
     let s = upd_entry d (\<lambda>x. x\<lparr>te_deferq := remove1 e (te_deferq x)\<rparr>) s;
     Some (upd_entry e (\<lambda>x. x\<lparr>te_linked := False, te_dq_entry := None\<rparr>) s)
   }"

section \<open>Running tasks\<close>

definition schedule_delay_of :: "task \<Rightarrow> sched \<Rightarrow> nat" where
  "schedule_delay_of t s =
     (if tk_schedule_delay t > ts_schedule_delay s then tk_schedule_delay t else ts_schedule_delay s)"

definition execute_delay_of :: "task \<Rightarrow> sched \<Rightarrow> nat" where
  "execute_delay_of t s =
     (if tk_execute_delay t > ts_execute_delay s then tk_execute_delay t else ts_execute_delay s)"

definition task_trace :: "task_ref \<Rightarrow> string \<Rightarrow> nat \<Rightarrow> sched \<Rightarrow> sched" where
  "task_trace r msg delay s = s\<lparr>ts_log := ts_log s @ [(r, msg, delay)]\<rparr>"

text \<open>The subtraction of two \<open>uint64_t\<close>.\<close>

definition sub64 :: "nat \<Rightarrow> nat \<Rightarrow> nat" where
  "sub64 a b = u64 (a + 2 ^ 64 - b)"

definition StartTask :: "task_ref \<Rightarrow> sched \<Rightarrow> sched option" where
  "StartTask r s = do {
     t \<leftarrow> ts_tasks s r;
     let s = (if tk_enqueue_time t \<noteq> 0
       then (let s = upd_task r (\<lambda>t. t\<lparr>tk_schedule_time := ts_clock s\<rparr>) s;
                 d = sub64 (ts_clock s) (tk_enqueue_time t)
             in if d > schedule_delay_of t s then task_trace r ''Schedule delay(in usec) '' d s else s)
       else s);
     _ \<leftarrow> cpp_assert (\<not> tk_impl t);
     let s = upd_task r (\<lambda>t. t\<lparr>tk_state := RUN, tk_tbb_state := TBB_ENQUEUED, tk_impl := True\<rparr>) s;
     Some (s\<lparr>ts_tbb := ts_tbb s @ [r]\<rparr>)
   }"

definition TaskStarted :: "int \<Rightarrow> sched \<Rightarrow> sched" where
  "TaskStarted g = upd_group g (\<lambda>x. x\<lparr>tg_run_count := tg_run_count x + 1\<rparr>)"

definition RunTask :: "entry_ref \<Rightarrow> task_ref \<Rightarrow> sched \<Rightarrow> sched option" where
  "RunTask e r s = do {
     t \<leftarrow> ts_tasks s r;
     let s = upd_estats e (\<lambda>x. x\<lparr>st_run_count := st_run_count x + 1\<rparr>) s;
     s \<leftarrow> (if tk_instance t \<noteq> -1
          then do {
            _ \<leftarrow> cpp_assert (te_run_task (ts_entries s e) = None);
            _ \<leftarrow> cpp_assert (te_run_count (ts_entries s e) = 0);
            Some (upd_entry e (\<lambda>x. x\<lparr>te_run_task := Some r\<rparr>) s)
          }
          else Some s);
     let s = upd_entry e (\<lambda>x. x\<lparr>te_run_count := te_run_count x + 1\<rparr>) s;
     present \<leftarrow> QueryTaskGroup (tk_id t) s;
     _ \<leftarrow> cpp_assert present;
     StartTask r (TaskStarted (tk_id t) s)
   }"

text \<open>
  The two \<open>DeferOnPolicyFail\<close> return whether a rule is violated; then the entry has been added
  to the queue of the active group or entry.
\<close>

definition group_DeferOnPolicyFail :: "int \<Rightarrow> entry_ref \<Rightarrow> task_ref \<Rightarrow> sched \<Rightarrow> (bool \<times> sched) option" where
  "group_DeferOnPolicyFail g e r s =
     (case ActiveGroupInPolicy g s of
        Some h \<Rightarrow> do {
          s \<leftarrow> (if length (te_waitq (ts_entries s e)) = 0 then AddToWaitQ e r s else Some s);
          s \<leftarrow> group_AddToDeferQ h e s;
          Some (True, s)
        }
      | None \<Rightarrow> Some (False, s))"

definition entry_DeferOnPolicyFail :: "entry_ref \<Rightarrow> task_ref \<Rightarrow> sched \<Rightarrow> (bool \<times> sched) option" where
  "entry_DeferOnPolicyFail e r s =
     (case ActiveEntryInPolicy e s of
        Some f \<Rightarrow> do {
          s \<leftarrow> (if length (te_waitq (ts_entries s e)) = 0 then AddToWaitQ e r s else Some s);
          s \<leftarrow> entry_AddToDeferQ f e s;
          Some (True, s)
        }
      | None \<Rightarrow> Some (False, s))"

text \<open>The loop that starts every waiting task of an entry without an instance.\<close>

partial_function (option) RunWaitQ_all :: "entry_ref \<Rightarrow> sched \<Rightarrow> sched option" where
  "RunWaitQ_all e s =
     (case te_waitq (ts_entries s e) of
        [] \<Rightarrow> Some s
      | r # _ \<Rightarrow> do {
          s \<leftarrow> DeleteFromWaitQ e r s;
          s \<leftarrow> RunTask e r s;
          RunWaitQ_all e s
        })"

definition RunWaitQ :: "entry_ref \<Rightarrow> sched \<Rightarrow> sched option" where
  "RunWaitQ e s =
     (case te_waitq (ts_entries s e) of
        [] \<Rightarrow> Some s
      | r # _ \<Rightarrow>
          if te_task_instance (ts_entries s e) \<noteq> -1
          then do {
            s \<leftarrow> DeleteFromWaitQ e r s;
            s \<leftarrow> RunTask e r s;
            if length (te_waitq (ts_entries s e)) \<noteq> 0 then entry_AddToDeferQ e e s else Some s
          }
          else RunWaitQ_all e s)"

definition RunDeferEntry :: "entry_ref \<Rightarrow> sched \<Rightarrow> sched option" where
  "RunDeferEntry e s = do {
     let g = te_task_id (ts_entries s e);
     s \<leftarrow> GetTaskGroup g s;
     _ \<leftarrow> cpp_assert (length (te_waitq (ts_entries s e)) \<noteq> 0);
     let r = hd (te_waitq (ts_entries s e));
     (deferred, s) \<leftarrow> group_DeferOnPolicyFail g e r s;
     if deferred then Some s
     else do {
       (deferred, s) \<leftarrow> entry_DeferOnPolicyFail e r s;
       if deferred then Some s else RunWaitQ e s
     }
   }"

section \<open>Running the defer queues\<close>

text \<open>
  The owner of a queue is an entry or a group; an iterator is the entry it points to, \<open>None\<close>
  at the end. Removing or adding other nodes does not move it.
\<close>

datatype dq_owner = EntryQ entry_ref | GroupQ int

fun deferq_of :: "sched \<Rightarrow> dq_owner \<Rightarrow> entry_ref list" where
  "deferq_of s (EntryQ d) = te_deferq (ts_entries s d)"
| "deferq_of s (GroupQ g) = tg_deferq (ts_groups s g)"

fun DeleteFromDeferQ :: "dq_owner \<Rightarrow> entry_ref \<Rightarrow> sched \<Rightarrow> sched option" where
  "DeleteFromDeferQ (EntryQ d) e s = entry_DeleteFromDeferQ d e s"
| "DeleteFromDeferQ (GroupQ g) e s = group_DeleteFromDeferQ g e s"

definition it_begin :: "entry_ref list \<Rightarrow> entry_ref option" where
  "it_begin q = (case q of [] \<Rightarrow> None | e # _ \<Rightarrow> Some e)"

fun it_next :: "entry_ref list \<Rightarrow> entry_ref \<Rightarrow> entry_ref option" where
  "it_next [] e = None"
| "it_next (x # xs) e = (if x = e then it_begin xs else it_next xs e)"

text \<open>The loop that \<open>TaskGroup::RunDeferQ\<close> and \<open>TaskEntry::RunDeferQ\<close> share.\<close>

partial_function (option) RunDeferQ_loop :: "dq_owner \<Rightarrow> entry_ref option \<Rightarrow> sched \<Rightarrow> sched option" where
  "RunDeferQ_loop d it s =
     (case it of
        None \<Rightarrow> Some s
      | Some e \<Rightarrow> do {
          let it = it_next (deferq_of s d) e;
          s \<leftarrow> DeleteFromDeferQ d e s;
          s \<leftarrow> RunDeferEntry e s;
          RunDeferQ_loop d it s
        })"

definition group_RunDeferQ :: "int \<Rightarrow> sched \<Rightarrow> sched option" where
  "group_RunDeferQ g s = RunDeferQ_loop (GroupQ g) (it_begin (deferq_of s (GroupQ g))) s"

definition entry_RunDeferQ :: "entry_ref \<Rightarrow> sched \<Rightarrow> sched option" where
  "entry_RunDeferQ d s = RunDeferQ_loop (EntryQ d) (it_begin (deferq_of s (EntryQ d))) s"

text \<open>Only the entries that are enabled run when a group is enabled.\<close>

partial_function (option) RunDeferQForGroupEnable_loop ::
  "entry_ref \<Rightarrow> entry_ref option \<Rightarrow> sched \<Rightarrow> sched option" where
  "RunDeferQForGroupEnable_loop d it s =
     (case it of
        None \<Rightarrow> Some s
      | Some e \<Rightarrow> do {
          let it = it_next (te_deferq (ts_entries s d)) e;
          s \<leftarrow> entry_DeleteFromDeferQ d e s;
          s \<leftarrow> (if \<not> te_disable (ts_entries s e) then RunDeferEntry e s else Some s);
          RunDeferQForGroupEnable_loop d it s
        })"

definition RunDeferQForGroupEnable :: "entry_ref \<Rightarrow> sched \<Rightarrow> sched option" where
  "RunDeferQForGroupEnable d s =
     RunDeferQForGroupEnable_loop d (it_begin (te_deferq (ts_entries s d))) s"

text \<open>
  The loop of \<open>RunCombinedDeferQ\<close> over the queues of a group and of an entry in the order of the
  sequence numbers; it returns the two iterators.
\<close>

partial_function (option) RunCombined_loop ::
  "int \<Rightarrow> entry_ref \<Rightarrow> entry_ref option \<Rightarrow> entry_ref option \<Rightarrow> sched \<Rightarrow>
   (entry_ref option \<times> entry_ref option \<times> sched) option" where
  "RunCombined_loop g d group_it entry_it s =
     (case (group_it, entry_it) of
        (Some ge, Some te) \<Rightarrow>
          if TaskDeferEntryCmp s ge te
          then do {
            let group_it = it_next (tg_deferq (ts_groups s g)) ge;
            s \<leftarrow> group_DeleteFromDeferQ g ge s;
            s \<leftarrow> RunDeferEntry ge s;
            RunCombined_loop g d group_it entry_it s
          }
          else do {
            let entry_it = it_next (te_deferq (ts_entries s d)) te;
            s \<leftarrow> entry_DeleteFromDeferQ d te s;
            s \<leftarrow> RunDeferEntry te s;
            RunCombined_loop g d group_it entry_it s
          }
      | _ \<Rightarrow> Some (group_it, entry_it, s))"

definition RunCombinedDeferQ :: "entry_ref \<Rightarrow> sched \<Rightarrow> sched option" where
  "RunCombinedDeferQ d s = do {
     let g = te_task_id (ts_entries s d);
     present \<leftarrow> QueryTaskGroup g s;
     _ \<leftarrow> cpp_assert present;
     (group_it, entry_it, s) \<leftarrow>
       RunCombined_loop g d (it_begin (tg_deferq (ts_groups s g))) (it_begin (te_deferq (ts_entries s d))) s;
     if group_it \<noteq> None then group_RunDeferQ g s
     else if entry_it \<noteq> None then entry_RunDeferQ d s
     else Some s
   }"

definition group_TaskExited :: "int \<Rightarrow> sched \<Rightarrow> sched" where
  "group_TaskExited g s =
     upd_gstats g (\<lambda>x. x\<lparr>st_total_tasks_completed := st_total_tasks_completed x + 1\<rparr>)
       (upd_group g (\<lambda>x. x\<lparr>tg_run_count := tg_run_count x - 1\<rparr>) s)"

definition entry_TaskExited :: "entry_ref \<Rightarrow> task_ref \<Rightarrow> int \<Rightarrow> sched \<Rightarrow> sched option" where
  "entry_TaskExited e r g s = do {
     s \<leftarrow> (if te_task_instance (ts_entries s e) \<noteq> -1
          then do {
            _ \<leftarrow> cpp_assert (te_run_task (ts_entries s e) = Some r);
            let s = upd_entry e (\<lambda>x. x\<lparr>te_run_task := None\<rparr>) s;
            _ \<leftarrow> cpp_assert (te_run_count (ts_entries s e) = 1);
            Some s
          }
          else Some s);
     let s = upd_entry e (\<lambda>x. x\<lparr>te_run_count := te_run_count x - 1\<rparr>) s;
     let s = upd_estats e (\<lambda>x. x\<lparr>st_total_tasks_completed := st_total_tasks_completed x + 1,
                                st_last_exit_time := ts_utc s\<rparr>) s;
     let s = group_TaskExited g s;
     if tg_run_count (ts_groups s g) = 0 \<and> te_run_count (ts_entries s e) = 0 then RunCombinedDeferQ e s
     else if tg_run_count (ts_groups s g) = 0 then group_RunDeferQ g s
     else if te_run_count (ts_entries s e) = 0 then entry_RunDeferQ e s
     else Some s
   }"

section \<open>The scheduler's operations\<close>

definition AddToDisableQ :: "int \<Rightarrow> entry_ref \<Rightarrow> sched \<Rightarrow> sched option" where
  "AddToDisableQ g e = entry_AddToDeferQ (DisableEntry g) e"

definition EnqueueUnLocked :: "task_ref \<Rightarrow> sched \<Rightarrow> sched option" where
  "EnqueueUnLocked r s = do {
     let s = (if ts_measure_delay s then upd_task r (\<lambda>t. t\<lparr>tk_enqueue_time := ts_clock s\<rparr>) s else s);
     t \<leftarrow> ts_tasks s r;
     _ \<leftarrow> cpp_assert (tk_seqno t = 0);
     let s = s\<lparr>ts_enqueue_count := ts_enqueue_count s + 1, ts_seqno := u64 (ts_seqno s + 1)\<rparr>;
     let s = upd_task r (\<lambda>t. t\<lparr>tk_seqno := ts_seqno s\<rparr>) s;
     let g = tk_id t;
     s \<leftarrow> GetTaskGroup g s;
     let s = upd_task r (\<lambda>t. t\<lparr>tk_schedule_delay := tg_schedule_delay (ts_groups s g),
                               tk_execute_delay := tg_execute_delay (ts_groups s g)\<rparr>) s;
     let s = upd_gstats g (\<lambda>x. x\<lparr>st_enqueue_count := st_enqueue_count x + 1\<rparr>) s;
     (e, s) \<leftarrow> GetTaskEntry g (tk_instance t) s;
     let s = upd_estats e (\<lambda>x. x\<lparr>st_enqueue_count := st_enqueue_count x + 1\<rparr>) s;
     if tg_disable (ts_groups s g) \<or> te_disable (ts_entries s e) then do {
       s \<leftarrow> AddToWaitQ e r s;
       if tg_disable (ts_groups s g) then AddToDisableQ g e s else Some s
     }
     else if length (te_waitq (ts_entries s e)) \<noteq> 0 then AddToWaitQ e r s
     else if ts_running s = False then do {
       s \<leftarrow> AddToWaitQ e r s;
       entry_AddToDeferQ StopEntry e s
     }
     else do {
       (deferred, s) \<leftarrow> group_DeferOnPolicyFail g e r s;
       if deferred then Some s
       else do {
         (deferred, s) \<leftarrow> entry_DeferOnPolicyFail e r s;
         if deferred then Some s else RunTask e r s
       }
     }
   }"

definition Enqueue :: "task_ref \<Rightarrow> sched \<Rightarrow> sched option" where
  "Enqueue r s = EnqueueUnLocked r s"

datatype cancel_code = CANCELLED | FAILED | QUEUED

text \<open>\<open>Cancel\<close> of a waiting task takes it out of its \<open>waitq_\<close>, then re-keys its entry.\<close>

definition Cancel_requeue :: "int \<Rightarrow> entry_ref \<Rightarrow> bool \<Rightarrow> sched \<Rightarrow> sched option" where
  "Cancel_requeue g e was_first s =
     (let x = ts_entries s e; again = (length (te_waitq x) \<noteq> 0) in
      if again \<and> \<not> was_first then Some s
      else
        (case te_dq_group x of
           Some h \<Rightarrow> do {
             _ \<leftarrow> cpp_assert (te_dq_entry x = None);
             s \<leftarrow> group_DeleteFromDeferQ h e s;
             if again then group_AddToDeferQ h e s else Some s
           }
         | None \<Rightarrow>
             (case te_dq_entry x of
                Some d \<Rightarrow> do {
                  s \<leftarrow> entry_DeleteFromDeferQ d e s;
                  if again then entry_AddToDeferQ d e s else Some s
                }
              | None \<Rightarrow>
                  if tg_disable (ts_groups s g) then do {
                    s \<leftarrow> entry_DeleteFromDeferQ (DisableEntry g) e s;
                    if again then entry_AddToDeferQ (DisableEntry g) e s else Some s
                  }
                  else do { _ \<leftarrow> cpp_assert (te_disable x); Some s })))"

definition Cancel :: "task_ref \<Rightarrow> sched \<Rightarrow> (cancel_code \<times> sched) option" where
  "Cancel r s = do {
     t \<leftarrow> ts_tasks s r;
     case tk_state t of
       RUN \<Rightarrow> Some (QUEUED, upd_task r (\<lambda>t. t\<lparr>tk_cancel := True\<rparr>) s)
     | WAIT \<Rightarrow> do {
         en \<leftarrow> QueryTaskEntry (tk_id t) (tk_instance t) s;
         e \<leftarrow> en;
         present \<leftarrow> QueryTaskGroup (tk_id t) s;
         _ \<leftarrow> cpp_assert present;
         _ \<leftarrow> cpp_assert (length (te_waitq (ts_entries s e)) \<noteq> 0);
         let first_wait_task = hd (te_waitq (ts_entries s e));
         s \<leftarrow> DeleteFromWaitQ e r s;
         s \<leftarrow> Cancel_requeue (tk_id t) e (r = first_wait_task) s;
         Some (CANCELLED, s\<lparr>ts_tasks := (ts_tasks s)(r := None), ts_cancel_count := ts_cancel_count s + 1\<rparr>)
       }
     | INIT \<Rightarrow> Some (FAILED, s)
   }"

definition OnTaskExit :: "task_ref \<Rightarrow> sched \<Rightarrow> sched option" where
  "OnTaskExit r s = do {
     let s = s\<lparr>ts_done_count := ts_done_count s + 1, ts_tbb := remove1 r (ts_tbb s)\<rparr>;
     t \<leftarrow> ts_tasks s r;
     let s = upd_task r (\<lambda>t. t\<lparr>tk_tbb_state := TBB_DONE\<rparr>) s;
     en \<leftarrow> QueryTaskEntry (tk_id t) (tk_instance t) s;
     e \<leftarrow> en;
     s \<leftarrow> GetTaskGroup (tk_id t) s;
     s \<leftarrow> entry_TaskExited e r (tk_id t) s;
     if tk_recycle t = False \<or> tk_cancel t = True
     then Some (s\<lparr>ts_tasks := (ts_tasks s)(r := None)\<rparr>)
     else do {
       let s = upd_task r (\<lambda>t. t\<lparr>tk_impl := False, tk_seqno := 0, tk_state := INIT,
                                 tk_tbb_state := TBB_INIT\<rparr>) s;
       EnqueueUnLocked r s
     }
   }"

definition Stop :: "sched \<Rightarrow> sched" where
  "Stop s = s\<lparr>ts_running := False\<rparr>"

definition Start :: "sched \<Rightarrow> sched option" where
  "Start s = entry_RunDeferQ StopEntry (s\<lparr>ts_running := True\<rparr>)"

section \<open>Policies\<close>

record task_exclusion =
  match_id :: int
  match_instance :: int

text \<open>The loop over the rules of the policy of \<open>task_id\<close>.\<close>

primrec SetPolicy_rules :: "int \<Rightarrow> task_exclusion list \<Rightarrow> sched \<Rightarrow> sched option" where
  "SetPolicy_rules task_id [] s = Some s"
| "SetPolicy_rules task_id (p # ps) s = do {
     s \<leftarrow> (if match_instance p = -1
          then do {
            s \<leftarrow> GetTaskGroup (match_id p) s;
            Some (group_AddPolicy (match_id p) task_id (group_AddPolicy task_id (match_id p) s))
          }
          else do {
            (entry, s) \<leftarrow> GetTaskEntry task_id (match_instance p) s;
            (policy_entry, s) \<leftarrow> GetTaskEntry (match_id p) (match_instance p) s;
            let s = entry_AddPolicy policy_entry entry (entry_AddPolicy entry policy_entry s);
            Some (entry_AddPolicy policy_entry (GroupEntry task_id)
                   (entry_AddPolicy (GroupEntry task_id) policy_entry s))
          });
     SetPolicy_rules task_id ps s
   }"

definition SetPolicy :: "int \<Rightarrow> task_exclusion list \<Rightarrow> sched \<Rightarrow> sched option" where
  "SetPolicy task_id policy s = do {
     s \<leftarrow> GetTaskGroup task_id s;
     s \<leftarrow> PolicySet task_id s;
     SetPolicy_rules task_id policy s
   }"

section \<open>Queries\<close>

definition IsWaitQEmpty :: "int \<Rightarrow> sched \<Rightarrow> bool" where
  "IsWaitQEmpty g s =
     (if length (te_waitq (ts_entries s (GroupEntry g))) \<noteq> 0 then False
      else list_all
        (\<lambda>i. \<not> tg_entry_db (ts_groups s g) ! i \<or> te_disable (ts_entries s (InstEntry g (int i))) \<or>
             length (te_waitq (ts_entries s (InstEntry g (int i)))) = 0)
        [0..<length (tg_entry_db (ts_groups s g))])"

definition IsEmpty :: "bool \<Rightarrow> sched \<Rightarrow> bool" where
  "IsEmpty running_only s =
     list_all
       (\<lambda>i. \<not> ts_group_db s ! i \<or>
            (tg_run_count (ts_groups s (int i)) = 0 \<and>
             (tg_disable (ts_groups s (int i)) \<or> running_only \<or> IsWaitQEmpty (int i) s)))
       [0..<length (ts_group_db s)]"

definition IsTaskGroupEmpty :: "int \<Rightarrow> sched \<Rightarrow> bool option" where
  "IsTaskGroupEmpty task_id s = do {
     present \<leftarrow> db_at (ts_group_db s) task_id;
     _ \<leftarrow> cpp_assert present;
     _ \<leftarrow> cpp_assert (tg_run_count (ts_groups s task_id) = 0);
     Some (IsWaitQEmpty task_id s)
   }"

definition num_tasks :: "int \<Rightarrow> sched \<Rightarrow> nat" where
  "num_tasks g s = length (filter (\<lambda>b. b) (tg_entry_db (ts_groups s g)))"

text \<open>
  Names and ids. \<open>id_map_\<close> is in the order of the names. \<open>GetTaskId\<close> looks the name up under the
  reader lock and allocates under the writer lock: two steps, since another thread can
  run between them.
\<close>

definition GetTaskName :: "int \<Rightarrow> sched \<Rightarrow> string" where
  "GetTaskName task_id s =
     (case find (\<lambda>(n, i). task_id = i) (ts_id_map s) of
        Some (n, _) \<Rightarrow> n
      | None \<Rightarrow> ''ERROR'')"

definition GetTaskId_read :: "string \<Rightarrow> sched \<Rightarrow> int option" where
  "GetTaskId_read name s = map_of (ts_id_map s) name"

definition GetTaskId_write :: "string \<Rightarrow> sched \<Rightarrow> int \<times> sched" where
  "GetTaskId_write name s =
     (let tid = ts_id_max s + 1 in
      (tid, s\<lparr>ts_id_max := tid,
              ts_id_map := (if map_of (ts_id_map s) name = None
                            then insort_key fst (name, tid) (ts_id_map s) else ts_id_map s)\<rparr>))"

definition GetTaskId :: "string \<Rightarrow> sched \<Rightarrow> int \<times> sched" where
  "GetTaskId name s =
     (case GetTaskId_read name s of Some i \<Rightarrow> (i, s) | None \<Rightarrow> GetTaskId_write name s)"

section \<open>Latency thresholds and statistics\<close>

definition EnableLatencyThresholds :: "nat \<Rightarrow> nat \<Rightarrow> sched \<Rightarrow> sched" where
  "EnableLatencyThresholds execute schedule s =
     s\<lparr>ts_execute_delay := execute, ts_schedule_delay := schedule,
       ts_measure_delay := (execute \<noteq> 0 \<or> schedule \<noteq> 0)\<rparr>"

definition SetLatencyThreshold :: "string \<Rightarrow> nat \<Rightarrow> nat \<Rightarrow> sched \<Rightarrow> sched option" where
  "SetLatencyThreshold name execute schedule s = do {
     let (task_id, s) = GetTaskId name s;
     s \<leftarrow> GetTaskGroup task_id s;
     Some (upd_group task_id (\<lambda>x. x\<lparr>tg_execute_delay := execute, tg_schedule_delay := schedule\<rparr>) s)
   }"

definition ClearTaskGroupStats :: "int \<Rightarrow> sched \<Rightarrow> sched option" where
  "ClearTaskGroupStats task_id s = do {
     s \<leftarrow> GetTaskGroup task_id s;
     Some (upd_gstats task_id (\<lambda>_. zero_stats) s)
   }"

definition ClearTaskStats :: "int \<Rightarrow> sched \<Rightarrow> sched option" where
  "ClearTaskStats task_id s = do {
     s \<leftarrow> GetTaskGroup task_id s;
     Some (upd_estats (GroupEntry task_id) (\<lambda>_. zero_stats) s)
   }"

definition ClearTaskStats_instance :: "int \<Rightarrow> int \<Rightarrow> sched \<Rightarrow> sched option" where
  "ClearTaskStats_instance task_id instance_id s = do {
     s \<leftarrow> GetTaskGroup task_id s;
     entry \<leftarrow> group_QueryTaskEntry task_id instance_id s;
     Some (case entry of None \<Rightarrow> s | Some e \<Rightarrow> upd_estats e (\<lambda>_. zero_stats) s)
   }"

definition GetTaskGroupStats :: "int \<Rightarrow> sched \<Rightarrow> (task_stats \<times> sched) option" where
  "GetTaskGroupStats task_id s = do {
     s \<leftarrow> GetTaskGroup task_id s;
     Some (tg_stats (ts_groups s task_id), s)
   }"

definition GetTaskStats :: "int \<Rightarrow> sched \<Rightarrow> (task_stats \<times> sched) option" where
  "GetTaskStats task_id s = do {
     s \<leftarrow> GetTaskGroup task_id s;
     Some (te_stats (ts_entries s (GroupEntry task_id)), s)
   }"

definition GetTaskStats_instance :: "int \<Rightarrow> int \<Rightarrow> sched \<Rightarrow> (task_stats \<times> sched) option" where
  "GetTaskStats_instance task_id instance_id s = do {
     s \<leftarrow> GetTaskGroup task_id s;
     entry \<leftarrow> group_QueryTaskEntry task_id instance_id s;
     e \<leftarrow> entry;
     Some (te_stats (ts_entries s e), s)
   }"

section \<open>Disabling groups and entries\<close>

definition AddEntriesToDisableQ :: "int \<Rightarrow> sched \<Rightarrow> sched option" where
  "AddEntriesToDisableQ g s =
     fold (\<lambda>e so. do {
         s \<leftarrow> so;
         if length (te_waitq (ts_entries s e)) \<noteq> 0 then AddToDisableQ g e s else Some s
       })
       (GroupEntry g # map (\<lambda>i. InstEntry g (int i))
          (filter (\<lambda>i. tg_entry_db (ts_groups s g) ! i) [0..<length (tg_entry_db (ts_groups s g))]))
       (Some s)"

definition RunDisableEntries :: "int \<Rightarrow> sched \<Rightarrow> sched option" where
  "RunDisableEntries g = RunDeferQForGroupEnable (DisableEntry g)"

definition DisableTaskGroup :: "int \<Rightarrow> sched \<Rightarrow> sched option" where
  "DisableTaskGroup task_id s = do {
     s \<leftarrow> GetTaskGroup task_id s;
     if \<not> tg_disable (ts_groups s task_id)
     then AddEntriesToDisableQ task_id (upd_group task_id (\<lambda>x. x\<lparr>tg_disable := True\<rparr>) s)
     else Some s
   }"

definition EnableTaskGroup :: "int \<Rightarrow> sched \<Rightarrow> sched option" where
  "EnableTaskGroup task_id s = do {
     s \<leftarrow> GetTaskGroup task_id s;
     RunDisableEntries task_id (upd_group task_id (\<lambda>x. x\<lparr>tg_disable := False\<rparr>) s)
   }"

definition DisableTaskEntry :: "int \<Rightarrow> int \<Rightarrow> sched \<Rightarrow> sched option" where
  "DisableTaskEntry task_id instance_id s = do {
     (e, s) \<leftarrow> GetTaskEntry task_id instance_id s;
     Some (upd_entry e (\<lambda>x. x\<lparr>te_disable := True\<rparr>) s)
   }"

definition EnableTaskEntry :: "int \<Rightarrow> int \<Rightarrow> sched \<Rightarrow> sched option" where
  "EnableTaskEntry task_id instance_id s = do {
     (e, s) \<leftarrow> GetTaskEntry task_id instance_id s;
     let s = upd_entry e (\<lambda>x. x\<lparr>te_disable := False\<rparr>) s;
     s \<leftarrow> GetTaskGroup task_id s;
     if tg_disable (ts_groups s task_id) then Some s
     else if length (te_waitq (ts_entries s e)) \<noteq> 0 then RunDeferEntry e s
     else Some s
   }"

section \<open>What a thread of TBB runs\<close>

text \<open>
  \<open>TaskImpl::execute\<close> before and after the call of \<open>Run\<close>. \<open>execute_begin\<close> returns the time \<open>t\<close>
  that the thread keeps; \<open>execute_end\<close> gets the result of \<open>Run\<close>.
\<close>

definition execute_begin :: "task_ref \<Rightarrow> sched \<Rightarrow> (nat \<times> sched) option" where
  "execute_begin r s = do {
     t \<leftarrow> ts_tasks s r;
     let s = upd_task r (\<lambda>t. t\<lparr>tk_tbb_state := TBB_EXEC\<rparr>) s;
     Some (if tk_enqueue_time t \<noteq> 0
       then (let d = sub64 (ts_clock s) (tk_enqueue_time t)
             in (ts_clock s,
                 if d > schedule_delay_of t s then task_trace r ''TBB schedule time(in usec) '' d s else s))
       else if ts_track_run_time s then (ts_clock s, s)
       else (0, s))
   }"

definition IncrementTotalRunTime :: "int \<Rightarrow> nat \<Rightarrow> sched \<Rightarrow> sched" where
  "IncrementTotalRunTime g rtime =
     upd_group g (\<lambda>x. x\<lparr>tg_total_run_time := u64 (tg_total_run_time x + rtime)\<rparr>)"

definition execute_end :: "task_ref \<Rightarrow> nat \<Rightarrow> bool \<Rightarrow> sched \<Rightarrow> sched option" where
  "execute_end r t0 is_complete s = do {
     t \<leftarrow> ts_tasks s r;
     s \<leftarrow> (if t0 \<noteq> 0
          then do {
            let delay = sub64 (ts_clock s) t0;
            let execute_delay = execute_delay_of t s;
            let s = (if execute_delay \<noteq> 0 \<and> delay < 2 ^ 63 \<and> delay > execute_delay
                     then task_trace r ''Run time(in usec) '' delay s else s);
            if ts_track_run_time s
            then do {
              present \<leftarrow> QueryTaskGroup (tk_id t) s;
              _ \<leftarrow> cpp_assert present;
              Some (IncrementTotalRunTime (tk_id t) delay s)
            }
            else Some s
          }
          else Some s);
     Some (upd_task r (\<lambda>t. t\<lparr>tk_recycle := \<not> is_complete\<rparr>) s)
   }"

end
