(* ===== verification/Task_Core.thy ===== *)
theory Task_Core
  imports Task_Sched "HOL-Library.Sublist"
begin

text \<open>
  What the scheduler decides on, without its counters and vectors: which tasks wait in which
  entry, which entry waits in which queue and for what, which tasks run. \<open>core\<close> is the
  abstraction of the scheduler's state, the moves below are the changes the methods make to
  it, and \<open>cinv\<close> is the invariant: first come first served in every queue, every
  waiting entry is in the queue of one active blocker, and no two tasks that a
  policy excludes run together. The lemmas show that each move keeps it.
\<close>

section \<open>The core state\<close>

record core =
  c_waitq :: "entry_ref \<Rightarrow> task_ref list"
  c_dq :: "dq_owner \<Rightarrow> entry_ref list"
  c_own :: "entry_ref \<Rightarrow> dq_owner option"
  c_rce :: "entry_ref \<Rightarrow> nat"
  c_rcg :: "int \<Rightarrow> nat"
  c_rt :: "entry_ref \<Rightarrow> task_ref option"
  c_pole :: "entry_ref \<Rightarrow> entry_ref set"
  c_polg :: "int \<Rightarrow> int set"
  c_state :: "task_ref \<Rightarrow> tstate option"
  c_seq :: "task_ref \<Rightarrow> nat"
  c_ent :: "task_ref \<Rightarrow> entry_ref"
  c_tbb :: "task_ref list"
  c_running :: bool
  c_seqno :: nat

fun eid :: "entry_ref \<Rightarrow> int" where
  "eid (InstEntry t i) = t"
| "eid (GroupEntry t) = t"
| "eid (DisableEntry t) = t"
| "eid StopEntry = -1"

fun is_inst :: "entry_ref \<Rightarrow> bool" where
  "is_inst (InstEntry t i) = True"
| "is_inst _ = False"

text \<open>The entries that tasks have.\<close>

fun plain :: "entry_ref \<Rightarrow> bool" where
  "plain (InstEntry t i) = (0 \<le> t \<and> 0 \<le> i)"
| "plain (GroupEntry t) = (0 \<le> t)"
| "plain _ = False"

definition ckey :: "core \<Rightarrow> entry_ref \<Rightarrow> nat" where
  "ckey c e = (case c_waitq c e of [] \<Rightarrow> 0 | r # _ \<Rightarrow> c_seq c r)"

section \<open>The invariant\<close>

definition w_ok :: "core \<Rightarrow> bool" where
  "w_ok c = ((\<forall>e. sorted_wrt (\<lambda>a b. c_seq c a < c_seq c b) (c_waitq c e)) \<and>
     (\<forall>e r. r \<in> set (c_waitq c e) \<longleftrightarrow> c_state c r = Some WAIT \<and> c_ent c r = e) \<and>
     (\<forall>r. c_state c r = Some WAIT \<longrightarrow> c_seq c r \<le> c_seqno c) \<and>
     (\<forall>r q. c_state c r = Some WAIT \<longrightarrow> c_state c q = Some WAIT \<longrightarrow> c_seq c r = c_seq c q \<longrightarrow> r = q) \<and>
     (\<forall>r. c_state c r \<noteq> None \<longrightarrow> plain (c_ent c r)))"

definition r_ok :: "core \<Rightarrow> bool" where
  "r_ok c = (distinct (c_tbb c) \<and> (\<forall>r. r \<in> set (c_tbb c) \<longleftrightarrow> c_state c r = Some RUN) \<and>
     (\<forall>e. c_rce c e = length (filter (\<lambda>r. c_ent c r = e) (c_tbb c))) \<and>
     (\<forall>g. c_rcg c g = length (filter (\<lambda>r. eid (c_ent c r) = g) (c_tbb c))) \<and>
     (\<forall>e. is_inst e \<longrightarrow> c_rce c e \<le> 1) \<and>
     (\<forall>r e. is_inst e \<longrightarrow> c_rt c e = Some r \<longleftrightarrow> r \<in> set (c_tbb c) \<and> c_ent c r = e))"

text \<open>\<open>F\<close> are the entries taken out of their queue and not yet placed again.\<close>

definition q_ok :: "entry_ref set \<Rightarrow> core \<Rightarrow> bool" where
  "q_ok F c = ((\<forall>e d. c_own c e = Some d \<longleftrightarrow> e \<in> set (c_dq c d)) \<and>
     (\<forall>d. sorted_wrt (\<lambda>a b. ckey c a < ckey c b) (c_dq c d)) \<and>
     (\<forall>e. c_own c e \<noteq> None \<longleftrightarrow> c_waitq c e \<noteq> [] \<and> e \<notin> F))"

text \<open>What an entry waits for: a running group or entry of its policy, or the start.\<close>

fun active :: "core \<Rightarrow> dq_owner \<Rightarrow> entry_ref \<Rightarrow> bool" where
  "active c (GroupQ g) e = (c_rcg c g \<noteq> 0 \<and> g \<in> c_polg c (eid e))"
| "active c (EntryQ f) e =
     (if f = StopEntry then \<not> c_running c else c_rce c f \<noteq> 0 \<and> f \<in> c_pole c e)"

text \<open>\<open>X\<close> are the entries of a queue that is being run and has not reached them yet.\<close>

definition b_ok :: "entry_ref set \<Rightarrow> core \<Rightarrow> bool" where
  "b_ok X c = (\<forall>e d. c_own c e = Some d \<longrightarrow> e \<notin> X \<longrightarrow> active c d e)"

definition p_ok :: "core \<Rightarrow> bool" where
  "p_ok c = ((\<forall>g h. h \<in> c_polg c g \<longrightarrow> g \<in> c_polg c h) \<and>
     (\<forall>e f. f \<in> c_pole c e \<longrightarrow> e \<in> c_pole c f \<and> f \<noteq> StopEntry) \<and>
     (\<forall>e. is_inst e \<longrightarrow> plain e \<longrightarrow> e \<in> c_pole c e) \<and> (\<forall>e. \<not> is_inst e \<longrightarrow> e \<notin> c_pole c e))"

definition x_ok :: "core \<Rightarrow> bool" where
  "x_ok c = ((\<forall>g h. h \<in> c_polg c g \<longrightarrow> g \<noteq> h \<longrightarrow> c_rcg c g = 0 \<or> c_rcg c h = 0) \<and>
     (\<forall>e f. f \<in> c_pole c e \<longrightarrow> e \<noteq> f \<longrightarrow> c_rce c e = 0 \<or> c_rce c f = 0) \<and>
     (\<forall>e f. eid e \<in> c_polg c (eid e) \<longrightarrow> eid f = eid e \<longrightarrow> e \<noteq> f \<longrightarrow> c_rce c e = 0 \<or> c_rce c f = 0))"

definition cinv :: "entry_ref set \<Rightarrow> entry_ref set \<Rightarrow> core \<Rightarrow> bool" where
  "cinv F X c = (w_ok c \<and> r_ok c \<and> q_ok F c \<and> b_ok X c \<and> p_ok c \<and> x_ok c)"

section \<open>Moves\<close>

definition m_wait :: "entry_ref \<Rightarrow> task_ref \<Rightarrow> core \<Rightarrow> core" where
  "m_wait e r c = c\<lparr>c_waitq := (c_waitq c)(e := c_waitq c e @ [r]), c_state := (c_state c)(r \<mapsto> WAIT)\<rparr>"

definition m_defer :: "dq_owner \<Rightarrow> entry_ref \<Rightarrow> core \<Rightarrow> core" where
  "m_defer d e c =
     c\<lparr>c_dq := (c_dq c)(d := insort_key (ckey c) e (c_dq c d)), c_own := (c_own c)(e \<mapsto> d)\<rparr>"

definition m_undefer :: "dq_owner \<Rightarrow> entry_ref \<Rightarrow> core \<Rightarrow> core" where
  "m_undefer d e c = c\<lparr>c_dq := (c_dq c)(d := remove1 e (c_dq c d)), c_own := (c_own c)(e := None)\<rparr>"

definition m_unwait :: "entry_ref \<Rightarrow> task_ref \<Rightarrow> core \<Rightarrow> core" where
  "m_unwait e r c = c\<lparr>c_waitq := (c_waitq c)(e := remove1 r (c_waitq c e))\<rparr>"

definition m_run :: "entry_ref \<Rightarrow> task_ref \<Rightarrow> core \<Rightarrow> core" where
  "m_run e r c = c\<lparr>c_state := (c_state c)(r \<mapsto> RUN), c_tbb := c_tbb c @ [r],
     c_rce := (c_rce c)(e := c_rce c e + 1), c_rcg := (c_rcg c)(eid e := c_rcg c (eid e) + 1),
     c_rt := (if is_inst e then (c_rt c)(e \<mapsto> r) else c_rt c)\<rparr>"

definition m_exit :: "entry_ref \<Rightarrow> task_ref \<Rightarrow> core \<Rightarrow> core" where
  "m_exit e r c = c\<lparr>c_state := (c_state c)(r \<mapsto> INIT), c_tbb := remove1 r (c_tbb c),
     c_rce := (c_rce c)(e := c_rce c e - 1), c_rcg := (c_rcg c)(eid e := c_rcg c (eid e) - 1),
     c_rt := (if is_inst e then (c_rt c)(e := None) else c_rt c)\<rparr>"

text \<open>The start of a waiting task.\<close>

definition m_start :: "entry_ref \<Rightarrow> task_ref \<Rightarrow> core \<Rightarrow> core" where
  "m_start e r c = m_run e r (m_unwait e r c)"

text \<open>
  Placing an entry again, as \<open>RunDeferEntry\<close> does: into the queue of an active group of its group's
  policy, else of an active entry of its policy, else its first task runs, or all of them.
\<close>

definition blocked_by :: "core \<Rightarrow> entry_ref \<Rightarrow> dq_owner \<Rightarrow> bool" where
  "blocked_by c e d = (case d of
     GroupQ h \<Rightarrow> h \<in> c_polg c (eid e) \<and> c_rcg c h \<noteq> 0
   | EntryQ f \<Rightarrow> f \<in> c_pole c e \<and> c_rce c f \<noteq> 0)"

definition free :: "core \<Rightarrow> entry_ref \<Rightarrow> bool" where
  "free c e = ((\<forall>h \<in> c_polg c (eid e). c_rcg c h = 0) \<and> (\<forall>f \<in> c_pole c e. c_rce c f = 0))"

inductive place :: "entry_ref \<Rightarrow> core \<Rightarrow> core \<Rightarrow> bool" for e c where
  deferred: "blocked_by c e d \<Longrightarrow> place e c (m_defer d e c)"
| run_last: "free c e \<Longrightarrow> is_inst e \<Longrightarrow> c_waitq c e = [r] \<Longrightarrow> place e c (m_start e r c)"
| run_first: "free c e \<Longrightarrow> is_inst e \<Longrightarrow> c_waitq c e = r # q # rs \<Longrightarrow>
    place e c (m_defer (EntryQ e) e (m_start e r c))"
| run_all: "free c e \<Longrightarrow> \<not> is_inst e \<Longrightarrow> place e c (fold (m_start e) (c_waitq c e) c)"

section \<open>Sorted queues\<close>

lemma strict_insort:
  fixes k :: "'a \<Rightarrow> nat"
  assumes "sorted_wrt (\<lambda>a b. k a < k b) xs" "k e \<notin> k ` set xs"
  shows "sorted_wrt (\<lambda>a b. k a < k b) (insort_key k e xs)"
  using assms by (induction xs) (auto simp: set_insort_key)

lemma insort_key_split:
  fixes k :: "'a \<Rightarrow> nat"
  assumes "sorted_wrt (\<lambda>a b. k a < k b) (xs @ ys)" "\<forall>x \<in> set xs. k x < k e" "\<forall>y \<in> set ys. k e < k y"
  shows "insort_key k e (xs @ ys) = xs @ e # ys"
  using assms by (induction xs) (auto, cases ys, auto)

lemma insort_key_tail:
  fixes k :: "'a \<Rightarrow> nat"
  assumes "sorted_wrt (\<lambda>a b. k a < k b) (xs @ y # ys)" "k y < k e"
  shows "insort_key k e (xs @ y # ys) = xs @ y # insort_key k e ys"
  using assms by (induction xs) auto

lemma insort_key_before:
  fixes k :: "'a \<Rightarrow> nat"
  assumes "sorted_wrt (\<lambda>a b. k a < k b) (xs @ y # ys)" "k e < k y"
  shows "\<exists>zs. insort_key k e (xs @ y # ys) = zs @ y # ys"
  using assms
proof (induction xs)
  case (Cons x xs)
  then show ?case by (auto intro: exI [of _ "e # x # xs"])
qed auto

text \<open>An insertion leaves an iterator where it is; what follows it grows by at most the new node.\<close>

lemma insort_cursor:
  fixes k :: "entry_ref \<Rightarrow> nat"
  assumes "sorted_wrt (\<lambda>a b. k a < k b) (xs @ ys)" "k e \<notin> k ` set (xs @ ys)"
  shows "\<exists>xs' ys'. insort_key k e (xs @ ys) = xs' @ ys' \<and> it_begin ys' = it_begin ys \<and>
    (ys' = ys \<or> (\<exists>y zs. ys = y # zs \<and> k y < k e \<and> ys' = y # insort_key k e zs))"
proof (cases ys)
  case Nil
  then show ?thesis by (intro exI [of _ "insort_key k e (xs @ ys)"] exI [of _ "[]"]) simp
next
  case (Cons y zs)
  with assms(2) consider "k e < k y" | "k y < k e" by fastforce
  then show ?thesis
  proof cases
    case 1
    with insort_key_before [of k xs y zs e] assms(1) Cons show ?thesis by auto
  next
    case 2
    with insort_key_tail [of k xs y zs e] assms(1) Cons show ?thesis
      by (intro exI [of _ xs] exI [of _ "y # insort_key k e zs"]) (simp add: it_begin_def)
  qed
qed

section \<open>Moves keep the invariant\<close>

lemmas move_defs = m_wait_def m_defer_def m_undefer_def m_unwait_def m_run_def m_exit_def m_start_def

lemma ckey_defer [simp]: "ckey (m_defer d e c) = ckey c" "ckey (m_undefer d e c) = ckey c"
  by (auto simp: fun_eq_iff ckey_def move_defs split: list.splits)

lemma defer_frame [simp]:
  "w_ok (m_defer d e c) = w_ok c" "r_ok (m_defer d e c) = r_ok c" "p_ok (m_defer d e c) = p_ok c"
  "x_ok (m_defer d e c) = x_ok c" "w_ok (m_undefer d e c) = w_ok c" "r_ok (m_undefer d e c) = r_ok c"
  "p_ok (m_undefer d e c) = p_ok c" "x_ok (m_undefer d e c) = x_ok c"
  by (simp_all add: w_ok_def r_ok_def p_ok_def x_ok_def move_defs)

lemma active_defer [simp]:
  "active (m_defer d e c) d' x = active c d' x" "active (m_undefer d e c) d' x = active c d' x"
  by (cases d'; simp add: move_defs)+

lemma ckey_inj:
  assumes "w_ok c" "c_waitq c e \<noteq> []" "c_waitq c f \<noteq> []" "ckey c e = ckey c f"
  shows "e = f"
proof -
  obtain r rs q qs where rq: "c_waitq c e = r # rs" "c_waitq c f = q # qs"
    using assms(2,3) by (auto simp: neq_Nil_conv)
  then have "r \<in> set (c_waitq c e)" "q \<in> set (c_waitq c f)" by auto
  then have "c_state c r = Some WAIT" "c_ent c r = e" "c_state c q = Some WAIT" "c_ent c q = f"
    using assms(1) unfolding w_ok_def by blast+
  moreover have "c_seq c r = c_seq c q" using assms(4) rq by (simp add: ckey_def)
  ultimately show ?thesis using assms(1) unfolding w_ok_def by blast
qed

lemma dq_waitq: "q_ok F c \<Longrightarrow> x \<in> set (c_dq c d) \<Longrightarrow> c_waitq c x \<noteq> [] \<and> x \<notin> F"
  unfolding q_ok_def by (metis option.distinct(1))

lemma ckey_fresh:
  assumes "w_ok c" "q_ok F c" "e \<in> F" "c_waitq c e \<noteq> []"
  shows "ckey c e \<notin> ckey c ` set (c_dq c d)"
proof
  assume "ckey c e \<in> ckey c ` set (c_dq c d)"
  then obtain x where "x \<in> set (c_dq c d)" "ckey c e = ckey c x" by blast
  with assms dq_waitq ckey_inj show False by metis
qed

lemma q_ok_defer:
  assumes "w_ok c" "q_ok F c" "e \<in> F" "c_waitq c e \<noteq> []"
  shows "q_ok (F - {e}) (m_defer d e c)"
proof -
  have own: "c_own c e = None" using assms(2,3) unfolding q_ok_def by blast
  have mem: "x \<in> set (c_dq c d') \<longleftrightarrow> c_own c x = Some d'" for x d' using assms(2) by (simp add: q_ok_def)
  have "c_own (m_defer d e c) x = Some d' \<longleftrightarrow> x \<in> set (c_dq (m_defer d e c) d')" for x d'
    using own by (auto simp: m_defer_def set_insort_key mem)
  moreover have "sorted_wrt (\<lambda>a b. ckey c a < ckey c b) (c_dq (m_defer d e c) d')" for d'
    using assms(2) strict_insort [of "ckey c" "c_dq c d" e] ckey_fresh [OF assms]
    by (auto simp: q_ok_def m_defer_def)
  moreover have "c_own (m_defer d e c) x \<noteq> None \<longleftrightarrow> c_waitq (m_defer d e c) x \<noteq> [] \<and> x \<notin> F - {e}" for x
    using assms(2,4) by (auto simp: q_ok_def m_defer_def)
  ultimately show ?thesis unfolding q_ok_def ckey_defer by blast
qed

lemma cinv_defer:
  assumes "cinv F X c" "e \<in> F" "c_waitq c e \<noteq> []" "e \<in> X \<or> active c d e"
  shows "cinv (F - {e}) X (m_defer d e c)"
proof -
  have "b_ok X (m_defer d e c)"
    using assms(1,4) unfolding cinv_def b_ok_def active_defer by (auto simp: m_defer_def split: if_splits)
  then show ?thesis using assms q_ok_defer unfolding cinv_def by simp
qed

lemma cinv_undefer:
  assumes "cinv F X c" "c_own c e = Some d"
  shows "cinv (insert e F) (X - {e}) (m_undefer d e c)"
proof -
  have q: "q_ok F c" using assms by (simp add: cinv_def)
  have dist: "distinct (c_dq c d')" for d'
    using q unfolding q_ok_def by (metis (mono_tags, lifting) distinct_conv_nth less_irrefl linorder_neqE_nat sorted_wrt_nth_less)
  have mem: "x \<in> set (c_dq c d') \<longleftrightarrow> c_own c x = Some d'" for x d' using q by (simp add: q_ok_def)
  have "c_own (m_undefer d e c) x = Some d' \<longleftrightarrow> x \<in> set (c_dq (m_undefer d e c) d')" for x d'
    using assms(2) dist by (auto simp: m_undefer_def mem)
  moreover have "sorted_wrt (\<lambda>a b. ckey c a < ckey c b) (c_dq (m_undefer d e c) d')" for d'
  proof -
    have "sorted_wrt (\<lambda>a b. ckey c a < ckey c b) (filter ((\<noteq>) e) (c_dq c d))"
      using q unfolding q_ok_def by (blast intro: sorted_wrt_filter)
    then show ?thesis using q by (auto simp: q_ok_def m_undefer_def distinct_remove1_removeAll [OF dist] removeAll_filter_not_eq)
  qed
  moreover have "c_own (m_undefer d e c) x \<noteq> None \<longleftrightarrow> c_waitq (m_undefer d e c) x \<noteq> [] \<and> x \<notin> insert e F" for x
    using q by (auto simp: q_ok_def m_undefer_def)
  ultimately have "q_ok (insert e F) (m_undefer d e c)" unfolding q_ok_def ckey_defer by blast
  moreover have "b_ok (X - {e}) (m_undefer d e c)"
    using assms unfolding cinv_def b_ok_def active_defer by (auto simp: m_undefer_def split: if_splits)
  ultimately show ?thesis using assms unfolding cinv_def by simp
qed

lemma cinv_settled: "cinv F X c \<Longrightarrow> c_waitq c e = [] \<Longrightarrow> cinv (F - {e}) X c"
  by (auto simp: cinv_def q_ok_def)

lemma cinv_mono: "cinv F X c \<Longrightarrow> X \<subseteq> Y \<Longrightarrow> cinv F Y c"
  by (auto simp: cinv_def b_ok_def)

definition ok_start :: "core \<Rightarrow> entry_ref \<Rightarrow> bool" where
  "ok_start c e = (plain e \<and> (\<forall>h \<in> c_polg c (eid e). h \<noteq> eid e \<longrightarrow> c_rcg c h = 0) \<and>
     (\<forall>f \<in> c_pole c e. f \<noteq> e \<longrightarrow> c_rce c f = 0) \<and> (is_inst e \<longrightarrow> c_rce c e = 0) \<and>
     (eid e \<in> c_polg c (eid e) \<longrightarrow> (\<forall>f. eid f = eid e \<longrightarrow> f \<noteq> e \<longrightarrow> c_rce c f = 0)))"

lemma free_ok_start:
  assumes "free c e" "p_ok c" "plain e" "r_ok c"
  shows "ok_start c e"
proof -
  have "c_rce c f = 0" if "c_rcg c (eid f) = 0" for f
    using assms(4) that by (auto simp: r_ok_def filter_empty_conv)
  then show ?thesis using assms(1-3) by (auto simp: free_def p_ok_def ok_start_def)
qed

lemma x_ok_run:
  assumes "x_ok c" "p_ok c" "ok_start c e"
  shows "x_ok (m_run e r c)"
  using assms unfolding x_ok_def p_ok_def ok_start_def m_run_def
  by (auto simp del: not_None_eq) (metis+)?

lemma r_ok_run:
  assumes "r_ok c" "c_state c r \<noteq> Some RUN" "c_ent c r = e" "ok_start c e"
  shows "r_ok (m_run e r c)"
proof -
  have r: "r \<notin> set (c_tbb c)" using assms(1,2) by (simp add: r_ok_def)
  have "is_inst e \<Longrightarrow> c_rce c e = 0" using assms(4) by (simp add: ok_start_def)
  then have e: "is_inst e \<Longrightarrow> q \<in> set (c_tbb c) \<Longrightarrow> c_ent c q \<noteq> e" for q
    using assms(1) by (auto simp: r_ok_def filter_empty_conv)
  have rt: "c_rt (m_run e r c) f = Some q \<longleftrightarrow> q \<in> set (c_tbb (m_run e r c)) \<and> c_ent (m_run e r c) q = f"
    if "is_inst f" for f q
    using assms(1,3) r e that by (auto simp: r_ok_def m_run_def)
  show ?thesis
    unfolding r_ok_def
  proof (intro conjI allI impI)
    show "distinct (c_tbb (m_run e r c))" using assms(1) r by (simp add: r_ok_def m_run_def)
    fix f g q
    show "q \<in> set (c_tbb (m_run e r c)) \<longleftrightarrow> c_state (m_run e r c) q = Some RUN"
      using assms(1) by (auto simp: r_ok_def m_run_def)
    show "c_rce (m_run e r c) f = length (filter (\<lambda>r'. c_ent (m_run e r c) r' = f) (c_tbb (m_run e r c)))"
      "c_rcg (m_run e r c) g = length (filter (\<lambda>r'. eid (c_ent (m_run e r c) r') = g) (c_tbb (m_run e r c)))"
      using assms(1,3) by (auto simp: r_ok_def m_run_def)
    assume "is_inst f"
    then show "c_rce (m_run e r c) f \<le> 1" using assms(1,4) by (auto simp: r_ok_def m_run_def ok_start_def)
    from \<open>is_inst f\<close> show "c_rt (m_run e r c) f = Some q \<longleftrightarrow> q \<in> set (c_tbb (m_run e r c)) \<and> c_ent (m_run e r c) q = f"
      by (rule rt)
  qed
qed

lemma unwait_frame [simp]:
  "r_ok (m_unwait e r c) = r_ok c" "p_ok (m_unwait e r c) = p_ok c" "x_ok (m_unwait e r c) = x_ok c"
  "ok_start (m_unwait e r c) f = ok_start c f" "p_ok (m_run e r c) = p_ok c"
  by (simp_all add: r_ok_def p_ok_def x_ok_def ok_start_def m_unwait_def m_run_def)

lemma w_ok_start:
  assumes "w_ok c" "c_waitq c e = r # rs"
  shows "w_ok (m_start e r c)"
proof -
  have "r \<in> set (c_waitq c e)" using assms(2) by simp
  then have r: "c_ent c r = e" using assms(1) unfolding w_ok_def by blast
  have d: "r \<notin> set rs" using assms unfolding w_ok_def by (metis less_irrefl sorted_wrt.simps(2))
  have mem: "q \<in> set (c_waitq (m_start e r c) f) \<longleftrightarrow> c_state (m_start e r c) q = Some WAIT \<and> c_ent c q = f" for q f
  proof -
    have "q \<in> set (c_waitq c f) \<longleftrightarrow> c_state c q = Some WAIT \<and> c_ent c q = f" using assms(1) by (simp add: w_ok_def)
    then show ?thesis using assms(2) r d by (auto simp: move_defs)
  qed
  have "sorted_wrt (\<lambda>a b. c_seq c a < c_seq c b) (c_waitq (m_start e r c) f)" for f
  proof -
    have "sorted_wrt (\<lambda>a b. c_seq c a < c_seq c b) (c_waitq c f)" "sorted_wrt (\<lambda>a b. c_seq c a < c_seq c b) (r # rs)"
      using assms unfolding w_ok_def by metis+
    then show ?thesis using assms(2) by (simp add: move_defs)
  qed
  moreover have fields: "c_seq (m_start e r c) = c_seq c" "c_ent (m_start e r c) = c_ent c" "c_seqno (m_start e r c) = c_seqno c"
    by (simp_all add: move_defs)
  moreover have "c_state c r = Some WAIT" using \<open>r \<in> set (c_waitq c e)\<close> assms(1) unfolding w_ok_def by blast
  then have "c_state (m_start e r c) q = Some WAIT \<Longrightarrow> c_state c q = Some WAIT"
      "c_state (m_start e r c) q \<noteq> None \<Longrightarrow> c_state c q \<noteq> None" for q
    by (auto simp: move_defs split: if_splits)
  moreover have "c_state c q = Some WAIT \<Longrightarrow> c_seq c q \<le> c_seqno c"
      "c_state c q = Some WAIT \<Longrightarrow> c_state c q' = Some WAIT \<Longrightarrow> c_seq c q = c_seq c q' \<Longrightarrow> q = q'"
      "c_state c q \<noteq> None \<Longrightarrow> plain (c_ent c q)" for q q'
    using assms(1) by (auto simp: w_ok_def)
  ultimately show ?thesis using mem unfolding w_ok_def fields by blast
qed

lemma active_start: "active c d x \<Longrightarrow> active (m_start e r c) d x"
  by (cases d) (auto simp: move_defs)

lemma active_run: "active c d x \<Longrightarrow> active (m_run e r c) d x"
  by (cases d) (auto simp: move_defs)

lemma q_ok_start:
  assumes "q_ok F c" "e \<in> F"
  shows "q_ok F (m_start e r c)"
proof -
  have "e \<notin> set (c_dq c d)" for d using assms dq_waitq by blast
  then have k: "ckey (m_start e r c) x = ckey c x" if "x \<in> set (c_dq c d)" for x d
    using that by (auto simp: ckey_def move_defs split: list.splits)
  have "sorted_wrt (\<lambda>a b. ckey (m_start e r c) a < ckey (m_start e r c) b) (c_dq c d)" for d
    using assms(1) k by (auto simp: q_ok_def intro: sorted_wrt_mono_rel [rotated])
  then show ?thesis using assms by (auto simp: q_ok_def move_defs)
qed

lemma cinv_start:
  assumes "cinv F X c" "e \<in> F" "c_waitq c e = r # rs" "ok_start c e"
  shows "cinv F X (m_start e r c)"
proof -
  have "r \<in> set (c_waitq c e)" using assms(3) by simp
  then have r: "c_state c r = Some WAIT" "c_ent c r = e" using assms(1) unfolding cinv_def w_ok_def by blast+
  have "b_ok X (m_start e r c)"
    using assms(1) active_start unfolding cinv_def b_ok_def by (auto simp: move_defs)
  moreover have "r_ok (m_start e r c)" unfolding m_start_def
    by (rule r_ok_run) (use assms(1,4) r in \<open>simp_all add: cinv_def\<close>, simp_all add: m_unwait_def)
  moreover have "x_ok (m_start e r c)" "p_ok (m_start e r c)" unfolding m_start_def
    using assms(1,4) by (auto intro!: x_ok_run simp: cinv_def)
  ultimately show ?thesis
    using assms w_ok_start [of c e r rs] q_ok_start [of F c e r] unfolding cinv_def by blast
qed

lemma ok_start_start: "ok_start c e \<Longrightarrow> \<not> is_inst e \<Longrightarrow> ok_start (m_start e r c) e"
  by (auto simp: ok_start_def move_defs)

lemma cinv_start_all:
  assumes "cinv F X c" "e \<in> F" "c_waitq c e = rs" "ok_start c e" "\<not> is_inst e"
  shows "cinv F X (fold (m_start e) rs c) \<and> c_waitq (fold (m_start e) rs c) e = []"
  using assms
proof (induction rs arbitrary: c)
  case (Cons r rs)
  have "c_waitq (m_start e r c) e = rs" using Cons.prems by (simp add: move_defs)
  with Cons.prems show ?case using Cons.IH [of "m_start e r c"] cinv_start ok_start_start by simp
qed simp

lemma plain_waiting: "w_ok c \<Longrightarrow> c_waitq c e \<noteq> [] \<Longrightarrow> plain e"
  unfolding w_ok_def by (metis list.set_intros(1) neq_Nil_conv option.distinct(1))

lemma cinv_place:
  assumes inv: "cinv {e} X c" and w: "c_waitq c e \<noteq> []" and pl: "place e c c'"
  shows "cinv {} X c'"
proof -
  have plain: "plain e" using inv w plain_waiting by (auto simp: cinv_def)
  have p: "p_ok c" and ro: "r_ok c" using inv by (simp_all add: cinv_def)
  from pl show ?thesis
  proof cases
    case (deferred d)
    have "StopEntry \<notin> c_pole c e" using p unfolding p_ok_def by blast
    then have "active c d e" using deferred(2) by (cases d) (auto simp: blocked_by_def)
    then show ?thesis using cinv_defer [OF inv _ w, of d] deferred by simp
  next
    case (run_last r)
    have "cinv {e} X c'" using cinv_start [OF inv _ run_last(4)] free_ok_start [OF run_last(2) p plain ro] run_last(1) by simp
    moreover have "c_waitq c' e = []" using run_last by (simp add: move_defs)
    ultimately show ?thesis using cinv_settled [of "{e}" X c' e] by simp
  next
    case (run_first r q rs)
    let ?c = "m_start e r c"
    have "cinv {e} X ?c" using cinv_start [OF inv _ run_first(4)] free_ok_start [OF run_first(2) p plain ro] by simp
    moreover have "c_waitq ?c e \<noteq> []" using run_first by (simp add: move_defs)
    moreover have "active ?c (EntryQ e) e"
      using plain run_first(3) p by (auto simp: move_defs p_ok_def)
    ultimately show ?thesis using cinv_defer [of "{e}" X ?c e "EntryQ e"] run_first(1) by (simp del: active.simps)
  next
    case run_all
    then show ?thesis
      using cinv_start_all [OF inv _ refl free_ok_start [OF run_all(2) p plain ro]] cinv_settled [of "{e}" X c' e] by simp
  qed
qed

section \<open>What placing an entry leaves alone\<close>

lemma start_frame:
  "c_dq (m_start e r c) = c_dq c" "c_own (m_start e r c) = c_own c" "c_seq (m_start e r c) = c_seq c"
  "c_ent (m_start e r c) = c_ent c" "c_pole (m_start e r c) = c_pole c" "c_polg (m_start e r c) = c_polg c"
  "c_running (m_start e r c) = c_running c" "c_seqno (m_start e r c) = c_seqno c"
  "x \<noteq> e \<Longrightarrow> c_waitq (m_start e r c) x = c_waitq c x"
  "c_tbb (m_start e r c) = c_tbb c @ [r]" "q \<noteq> r \<Longrightarrow> c_state (m_start e r c) q = c_state c q"
  by (simp_all add: move_defs)

lemma start_all_frame:
  assumes "c_waitq c e = rs"
  shows "c_dq (fold (m_start e) rs c) = c_dq c \<and> c_seq (fold (m_start e) rs c) = c_seq c \<and>
    c_ent (fold (m_start e) rs c) = c_ent c \<and> c_pole (fold (m_start e) rs c) = c_pole c \<and>
    c_polg (fold (m_start e) rs c) = c_polg c \<and> c_running (fold (m_start e) rs c) = c_running c \<and>
    c_seqno (fold (m_start e) rs c) = c_seqno c \<and> c_waitq (fold (m_start e) rs c) e = [] \<and>
    (\<forall>x. x \<noteq> e \<longrightarrow> c_waitq (fold (m_start e) rs c) x = c_waitq c x) \<and>
    c_tbb (fold (m_start e) rs c) = c_tbb c @ rs \<and>
    (\<forall>q. q \<notin> set rs \<longrightarrow> c_state (fold (m_start e) rs c) q = c_state c q)"
  using assms
proof (induction rs arbitrary: c)
  case (Cons r rs)
  have "c_waitq (m_start e r c) e = rs" using Cons.prems by (simp add: move_defs)
  with Cons.IH [OF this] show ?case by (simp add: start_frame)
qed simp

lemma defer_fields:
  "c_waitq (m_defer d e c) = c_waitq c" "c_seq (m_defer d e c) = c_seq c" "c_ent (m_defer d e c) = c_ent c"
  "c_pole (m_defer d e c) = c_pole c" "c_polg (m_defer d e c) = c_polg c" "c_running (m_defer d e c) = c_running c"
  "c_seqno (m_defer d e c) = c_seqno c" "c_tbb (m_defer d e c) = c_tbb c" "c_state (m_defer d e c) = c_state c"
  "c_rce (m_defer d e c) = c_rce c" "c_rcg (m_defer d e c) = c_rcg c" "c_rt (m_defer d e c) = c_rt c"
  by (simp_all add: m_defer_def)

lemma undefer_fields:
  "c_waitq (m_undefer d e c) = c_waitq c" "c_seq (m_undefer d e c) = c_seq c" "c_ent (m_undefer d e c) = c_ent c"
  "c_pole (m_undefer d e c) = c_pole c" "c_polg (m_undefer d e c) = c_polg c" "c_running (m_undefer d e c) = c_running c"
  "c_seqno (m_undefer d e c) = c_seqno c" "c_tbb (m_undefer d e c) = c_tbb c" "c_state (m_undefer d e c) = c_state c"
  "c_rce (m_undefer d e c) = c_rce c" "c_rcg (m_undefer d e c) = c_rcg c" "c_rt (m_undefer d e c) = c_rt c"
  by (simp_all add: m_undefer_def)

text \<open>
  Between two states of a run over queues: tasks only move from waiting to running, and
  identities, policies and the run flag stay.
\<close>

definition moved :: "core \<Rightarrow> core \<Rightarrow> bool" where
  "moved c c' = (c_seq c' = c_seq c \<and> c_ent c' = c_ent c \<and> c_pole c' = c_pole c \<and> c_polg c' = c_polg c \<and>
     c_running c' = c_running c \<and> c_seqno c' = c_seqno c \<and>
     (\<exists>new. c_tbb c' = c_tbb c @ new \<and> (\<forall>r \<in> set new. c_state c r = Some WAIT)) \<and>
     (\<forall>r. c_state c r \<noteq> Some WAIT \<longrightarrow> c_state c' r = c_state c r) \<and>
     (\<forall>r. c_state c' r = Some WAIT \<longrightarrow> c_state c r = Some WAIT) \<and>
     (\<forall>r. c_state c r = Some WAIT \<longrightarrow> c_state c' r = Some WAIT \<or> c_state c' r = Some RUN) \<and>
     (\<forall>e. suffix (c_waitq c' e) (c_waitq c e)))"

lemma moved_refl [simp]: "moved c c"
  by (simp add: moved_def)

lemma movedD:
  assumes "moved c c'"
  shows "c_state c r \<noteq> Some WAIT \<Longrightarrow> c_state c' r = c_state c r" "c_state c' r = Some WAIT \<Longrightarrow> c_state c r = Some WAIT"
    "\<exists>new. c_tbb c' = c_tbb c @ new \<and> (\<forall>r \<in> set new. c_state c r = Some WAIT)"
    "c_state c r = Some WAIT \<Longrightarrow> c_state c' r = Some WAIT \<or> c_state c' r = Some RUN" "suffix (c_waitq c' e) (c_waitq c e)"
  using assms unfolding moved_def by blast+

lemma moved_fields:
  assumes "moved c c'"
  shows "c_seq c' = c_seq c" "c_ent c' = c_ent c" "c_pole c' = c_pole c" "c_polg c' = c_polg c"
    "c_running c' = c_running c" "c_seqno c' = c_seqno c"
  using assms unfolding moved_def by blast+

lemma moved_trans:
  assumes "moved a b" "moved b c"
  shows "moved a c"
proof -
  obtain x y where "c_tbb b = c_tbb a @ x" "\<forall>r \<in> set x. c_state a r = Some WAIT"
    "c_tbb c = c_tbb b @ y" "\<forall>r \<in> set y. c_state b r = Some WAIT"
    using movedD(3) [OF assms(1)] movedD(3) [OF assms(2)] by blast
  then have "\<exists>new. c_tbb c = c_tbb a @ new \<and> (\<forall>r \<in> set new. c_state a r = Some WAIT)"
    using movedD(2) [OF assms(1)] by (intro exI [of _ "x @ y"]) auto
  moreover have "c_state c r = c_state a r" if "c_state a r \<noteq> Some WAIT" for r
    using that movedD(1) [OF assms(1)] movedD(1) [OF assms(2)] by metis
  moreover have "c_state a r = Some WAIT" if "c_state c r = Some WAIT" for r
    using that movedD(2) [OF assms(1)] movedD(2) [OF assms(2)] by metis
  moreover have "c_state c r = Some WAIT \<or> c_state c r = Some RUN" if "c_state a r = Some WAIT" for r
    using movedD(4) [OF assms(1) that] movedD(4) [OF assms(2), of r] movedD(1) [OF assms(2), of r] by auto
  moreover have "suffix (c_waitq c e) (c_waitq a e)" for e
    by (rule suffix_order.trans [OF movedD(5) [OF assms(2)] movedD(5) [OF assms(1)]])
  ultimately show ?thesis
    unfolding moved_def moved_fields [OF assms(1)] moved_fields [OF assms(2)] by blast
qed

lemma moved_undefer [simp]: "moved c (m_undefer d e c)" "moved c (m_defer d e c)"
  by (simp_all add: moved_def undefer_fields defer_fields)

lemma waiting_state: "w_ok c \<Longrightarrow> r \<in> set (c_waitq c e) \<Longrightarrow> c_state c r = Some WAIT"
  unfolding w_ok_def by blast

lemma moved_start:
  assumes "w_ok c" "c_waitq c e = r # rs"
  shows "moved c (m_start e r c)"
proof -
  have "c_state c r = Some WAIT" using waiting_state [OF assms(1), of r e] assms(2) by simp
  moreover have "suffix (c_waitq (m_start e r c) f) (c_waitq c f)" for f
    using assms(2) by (cases "f = e") (simp_all add: move_defs suffix_ConsI)
  ultimately show ?thesis by (auto simp: moved_def start_frame) (auto simp: move_defs split: if_splits)
qed

lemma moved_start_all:
  assumes "w_ok c" "c_waitq c e = rs"
  shows "moved c (fold (m_start e) rs c)"
  using assms
proof (induction rs arbitrary: c)
  case (Cons r rs)
  have "c_waitq (m_start e r c) e = rs" using Cons.prems by (simp add: move_defs)
  with Cons.IH [of "m_start e r c"] w_ok_start [OF Cons.prems] moved_start [OF Cons.prems] moved_trans
  show ?case by auto
qed simp

lemma moved_place:
  assumes "w_ok c" "place e c c'"
  shows "moved c c'"
  using assms(2)
proof cases
  case (run_last r)
  then show ?thesis using moved_start [OF assms(1)] by simp
next
  case (run_first r q rs)
  then show ?thesis using moved_start [OF assms(1) run_first(4)] moved_trans moved_undefer by blast
next
  case run_all
  then show ?thesis using moved_start_all [OF assms(1) refl] by simp
qed simp

lemma place_waitq:
  assumes "place e c c'"
  shows "x \<noteq> e \<Longrightarrow> c_waitq c' x = c_waitq c x"
    "c_waitq c' e = c_waitq c e \<or> length (c_waitq c' e) < length (c_waitq c e) \<or> c_waitq c e = []"
  using assms by (cases, simp_all add: start_frame start_all_frame defer_fields move_defs)+

lemma place_dq:
  assumes "place e c c'"
  shows "c_dq c' = c_dq c \<or> (\<exists>d. c_own c' e = Some d \<and> c_dq c' = (c_dq c)(d := insort_key (ckey c') e (c_dq c d)))"
  using assms
proof cases
  case (deferred d)
  then have "ckey c' = ckey c" by simp
  then show ?thesis using deferred by (intro disjI2 exI [of _ d]) (simp add: m_defer_def)
next
  case (run_first r q rs)
  then have "ckey c' = ckey (m_start e r c)" by simp
  then show ?thesis using run_first(1)
    by (intro disjI2 exI [of _ "EntryQ e"]) (simp add: m_defer_def start_frame)
qed (simp_all add: start_frame start_all_frame)

section \<open>An iterator over a queue while entries are placed\<close>

definition wsum :: "core \<Rightarrow> entry_ref list \<Rightarrow> nat" where
  "wsum c xs = sum_list (map (\<lambda>x. length (c_waitq c x)) xs)"

lemma place_ckey:
  assumes "moved c c'" "place e c c'"
  shows "x \<noteq> e \<Longrightarrow> ckey c' x = ckey c x" "c_waitq c' e = c_waitq c e \<Longrightarrow> ckey c' e = ckey c e"
  using assms(1) place_waitq(1) [OF assms(2), of x] by (auto simp: ckey_def moved_def split: list.splits)

lemma place_cursor:
  assumes inv: "cinv {e} X c" and w: "c_waitq c e \<noteq> []" and pl: "place e c c'"
    and q: "c_dq c d = xs @ ys" and later: "\<forall>y \<in> set ys. ckey c e < ckey c y"
  shows "\<exists>xs' ys'. c_dq c' d = xs' @ ys' \<and> it_begin ys' = it_begin ys \<and> set ys \<subseteq> set ys' \<and>
    wsum c' ys' < wsum c ys + length (c_waitq c e)"
proof -
  have inv': "cinv {} X c'" by (rule cinv_place [OF inv w pl])
  have mv: "moved c c'" using moved_place [OF _ pl] inv by (simp add: cinv_def)
  have e: "e \<notin> set (c_dq c d')" for d' using inv dq_waitq by (fastforce simp: cinv_def)
  have same: "wsum c' zs = wsum c zs" if "set zs \<subseteq> set (c_dq c d)" for zs
  proof -
    have "c_waitq c' x = c_waitq c x" if "x \<in> set zs" for x
      using that \<open>set zs \<subseteq> set (c_dq c d)\<close> e [of d] place_waitq(1) [OF pl, of x] by blast
    then show ?thesis unfolding wsum_def by (simp cong: map_cong)
  qed
  have ys: "wsum c' ys = wsum c ys" by (rule same) (simp add: q)
  from place_dq [OF pl] consider "c_dq c' d = c_dq c d"
    | "c_own c' e = Some d" "c_dq c' d = insort_key (ckey c') e (c_dq c d)" by (metis fun_upd_apply)
  then show ?thesis
  proof cases
    case 1
    with q ys w show ?thesis by (intro exI [of _ xs] exI [of _ ys]) simp
  next
    case 2
    then have w': "c_waitq c' e \<noteq> []" using inv' dq_waitq [of "{}" c' e d] by (simp add: cinv_def set_insort_key)
    have k: "ckey c' x = ckey c x" if "x \<in> set (c_dq c d)" for x
      using that e place_ckey(1) [OF mv pl] by metis
    have "sorted_wrt (\<lambda>a b. ckey c a < ckey c b) (c_dq c d)" using inv by (simp add: cinv_def q_ok_def)
    then have sorted: "sorted_wrt (\<lambda>a b. ckey c' a < ckey c' b) (xs @ ys)"
      unfolding q [symmetric] using k by (auto intro: sorted_wrt_mono_rel [rotated])
    have fresh: "ckey c' e \<notin> ckey c' ` set (xs @ ys)"
    proof
      assume "ckey c' e \<in> ckey c' ` set (xs @ ys)"
      then obtain x where x: "x \<in> set (c_dq c d)" "ckey c' e = ckey c' x" unfolding q by blast
      then have "x \<noteq> e" using e by blast
      moreover have "c_waitq c' x \<noteq> []"
        using dq_waitq [OF _ x(1)] inv place_waitq(1) [OF pl \<open>x \<noteq> e\<close>] by (auto simp: cinv_def)
      ultimately show False using ckey_inj [OF _ w' _ x(2)] inv' by (auto simp: cinv_def)
    qed
    from insort_cursor [OF sorted fresh] obtain xs' ys' where
      c: "insort_key (ckey c') e (xs @ ys) = xs' @ ys'" "it_begin ys' = it_begin ys"
      "ys' = ys \<or> (\<exists>y zs. ys = y # zs \<and> ckey c' y < ckey c' e \<and> ys' = y # insort_key (ckey c') e zs)"
      by blast
    from c(3) have "set ys \<subseteq> set ys' \<and> wsum c' ys' < wsum c ys + length (c_waitq c e)"
    proof
      assume "ys' = ys"
      with ys w show ?thesis by simp
    next
      assume "\<exists>y zs. ys = y # zs \<and> ckey c' y < ckey c' e \<and> ys' = y # insort_key (ckey c') e zs"
      then obtain y zs where y: "ys = y # zs" "ckey c' y < ckey c' e" "ys' = y # insort_key (ckey c') e zs" by blast
      have "ckey c' y = ckey c y" using k q y(1) by simp
      with y later have "ckey c' e \<noteq> ckey c e" by auto
      then have "c_waitq c' e \<noteq> c_waitq c e" using place_ckey(2) [OF mv pl] by blast
      then have "length (c_waitq c' e) < length (c_waitq c e)" using place_waitq(2) [OF pl] w by blast
      moreover have "wsum c' ys' = wsum c' ys + length (c_waitq c' e)"
        unfolding wsum_def y(1,3) by (induction zs) auto
      ultimately show ?thesis using ys y by (auto simp: set_insort_key)
    qed
    with c 2 q show ?thesis by auto
  qed
qed

section \<open>The other moves\<close>

lemma sorted_key_cong:
  fixes k k' :: "'a \<Rightarrow> nat"
  assumes "sorted_wrt (\<lambda>a b. k a < k b) xs" "\<And>x. x \<in> set xs \<Longrightarrow> k' x = k x"
  shows "sorted_wrt (\<lambda>a b. k' a < k' b) xs"
  using assms(1) by (rule sorted_wrt_mono_rel [rotated]) (simp add: assms(2))

lemma w_okD:
  assumes "w_ok c"
  shows "sorted_wrt (\<lambda>a b. c_seq c a < c_seq c b) (c_waitq c e)"
    "r \<in> set (c_waitq c e) \<longleftrightarrow> c_state c r = Some WAIT \<and> c_ent c r = e"
    "c_state c r = Some WAIT \<Longrightarrow> c_seq c r \<le> c_seqno c"
    "c_state c r = Some WAIT \<Longrightarrow> c_state c q = Some WAIT \<Longrightarrow> c_seq c r = c_seq c q \<Longrightarrow> r = q"
    "c_state c r \<noteq> None \<Longrightarrow> plain (c_ent c r)"
  using assms unfolding w_ok_def by blast+

text \<open>The entries that have to be placed again after a task has gone.\<close>

definition woken :: "entry_ref \<Rightarrow> core \<Rightarrow> entry_ref set" where
  "woken e c = (if c_rcg c (eid e) = 0 then set (c_dq c (GroupQ (eid e))) else {}) \<union>
     (if c_rce c e = 0 then set (c_dq c (EntryQ e)) else {})"

lemma r_ok_exit:
  assumes "r_ok c" "r \<in> set (c_tbb c)" "c_ent c r = e"
  shows "r_ok (m_exit e r c)"
proof -
  have d: "distinct (c_tbb c)" "r \<in> set (c_tbb c)" using assms by (auto simp: r_ok_def)
  have len: "length (filter P (remove1 r (c_tbb c))) = length (filter P (c_tbb c)) - (if P r then 1 else 0)" for P
    using d by (simp add: filter_remove1 length_remove1)
  have other: "is_inst e \<Longrightarrow> q \<in> set (c_tbb c) \<Longrightarrow> c_ent c q = e \<Longrightarrow> q = r" for q
  proof -
    assume "is_inst e" "q \<in> set (c_tbb c)" "c_ent c q = e"
    then have "c_rt c e = Some q" "c_rt c e = Some r" using assms unfolding r_ok_def by blast+
    then show "q = r" by simp
  qed
  show ?thesis
    unfolding r_ok_def
  proof (intro conjI allI impI)
    show "distinct (c_tbb (m_exit e r c))" using d by (simp add: m_exit_def)
    fix q f g
    show "q \<in> set (c_tbb (m_exit e r c)) \<longleftrightarrow> c_state (m_exit e r c) q = Some RUN"
      using d assms(1) by (auto simp: m_exit_def r_ok_def)
    show "c_rce (m_exit e r c) f = length (filter (\<lambda>r'. c_ent (m_exit e r c) r' = f) (c_tbb (m_exit e r c)))"
      using assms by (auto simp: m_exit_def r_ok_def len)
    show "c_rcg (m_exit e r c) g = length (filter (\<lambda>r'. eid (c_ent (m_exit e r c) r') = g) (c_tbb (m_exit e r c)))"
      using assms by (auto simp: m_exit_def r_ok_def len)
    assume f: "is_inst f"
    then show "c_rce (m_exit e r c) f \<le> 1" using assms(1) by (auto simp: m_exit_def r_ok_def intro: le_diff_conv [THEN iffD2])
    show "c_rt (m_exit e r c) f = Some q \<longleftrightarrow> q \<in> set (c_tbb (m_exit e r c)) \<and> c_ent (m_exit e r c) q = f"
    proof (cases "f = e")
      case True
      then show ?thesis using f other d by (auto simp: m_exit_def)
    next
      case False
      have "c_rt c f = Some q \<longleftrightarrow> q \<in> set (c_tbb c) \<and> c_ent c q = f" using f assms(1) unfolding r_ok_def by blast
      then show ?thesis using False assms(3) d by (auto simp: m_exit_def)
    qed
  qed
qed

lemma w_ok_exit:
  assumes "w_ok c" "c_state c r = Some RUN"
  shows "w_ok (m_exit e r c)"
  using assms unfolding w_ok_def m_exit_def by (auto split: if_splits)

lemma exit_fields:
  "c_dq (m_exit e r c) = c_dq c" "c_own (m_exit e r c) = c_own c" "c_waitq (m_exit e r c) = c_waitq c"
  "c_seq (m_exit e r c) = c_seq c" "c_ent (m_exit e r c) = c_ent c" "c_pole (m_exit e r c) = c_pole c"
  "c_polg (m_exit e r c) = c_polg c" "c_running (m_exit e r c) = c_running c" "c_seqno (m_exit e r c) = c_seqno c"
  "ckey (m_exit e r c) = ckey c"
  by (auto simp: m_exit_def ckey_def fun_eq_iff split: list.splits)

lemma cinv_exit:
  assumes inv: "cinv {} {} c" and r: "r \<in> set (c_tbb c)" "c_ent c r = e"
  shows "cinv {} (woken e (m_exit e r c)) (m_exit e r c)"
proof -
  have st: "c_state c r = Some RUN" using inv r by (simp add: cinv_def r_ok_def)
  then have "plain e" using inv r by (auto simp: cinv_def w_ok_def)
  have "active (m_exit e r c) d x" if "c_own c x = Some d" "x \<notin> woken e (m_exit e r c)" for x d
  proof -
    have "active c d x" "x \<in> set (c_dq c d)" using inv that(1) by (auto simp: cinv_def b_ok_def q_ok_def)
    with that(2) \<open>plain e\<close> show ?thesis
      by (cases d) (auto simp: woken_def exit_fields split: if_splits, auto simp: m_exit_def split: if_splits)
  qed
  then have "b_ok (woken e (m_exit e r c)) (m_exit e r c)" by (simp add: b_ok_def exit_fields)
  moreover have "x_ok (m_exit e r c)" using inv by (fastforce simp: cinv_def x_ok_def m_exit_def)
  moreover have "p_ok (m_exit e r c)" "q_ok {} (m_exit e r c)"
    using inv unfolding cinv_def p_ok_def q_ok_def exit_fields by blast+
  ultimately show ?thesis
    using inv r st w_ok_exit r_ok_exit by (simp add: cinv_def)
qed

text \<open>A task that neither waits nor runs may be created, renumbered or deleted.\<close>

definition m_task :: "task_ref \<Rightarrow> tstate option \<Rightarrow> nat \<Rightarrow> entry_ref \<Rightarrow> nat \<Rightarrow> core \<Rightarrow> core" where
  "m_task r st n e m c = c\<lparr>c_state := (c_state c)(r := st), c_seq := (c_seq c)(r := n),
     c_ent := (c_ent c)(r := e), c_seqno := m\<rparr>"

lemma cinv_task:
  assumes inv: "cinv F X c" and r: "c_state c r \<notin> {Some WAIT, Some RUN}"
    and st: "st = None \<or> st = Some INIT \<and> plain e" and m: "c_seqno c \<le> m"
  shows "cinv F X (m_task r st n e m c)"
proof -
  let ?c = "m_task r st n e m c"
  have w: "w_ok c" and ro: "r_ok c" using inv by (auto simp: cinv_def)
  have nw: "r \<notin> set (c_waitq c f)" for f using w r unfolding w_ok_def by auto
  have nt: "r \<notin> set (c_tbb c)" using ro r by (auto simp: r_ok_def)
  have wait: "c_state ?c q = Some WAIT \<longleftrightarrow> c_state c q = Some WAIT" for q using r st by (auto simp: m_task_def)
  have seq: "c_seq ?c q = c_seq c q" "c_ent ?c q = c_ent c q" if "q \<noteq> r" for q using that by (simp_all add: m_task_def)
  have key: "ckey ?c f = ckey c f" for f
    using nw [of f] by (cases "c_waitq c f") (auto simp: ckey_def m_task_def)
  have "sorted_wrt (\<lambda>a b. c_seq ?c a < c_seq ?c b) (c_waitq c f)" for f
  proof (rule sorted_key_cong)
    show "sorted_wrt (\<lambda>a b. c_seq c a < c_seq c b) (c_waitq c f)" using w unfolding w_ok_def by blast
    show "c_seq ?c x = c_seq c x" if "x \<in> set (c_waitq c f)" for x using that nw [of f] seq(1) by metis
  qed
  moreover have nr: "c_state c r \<noteq> Some WAIT" using r by simp
  have "q \<in> set (c_waitq c f) \<longleftrightarrow> c_state ?c q = Some WAIT \<and> c_ent ?c q = f" for q f
    using w_okD(2) [OF w, of q f] wait [of q] seq(2) [of q] nr by (cases "q = r") auto
  moreover have "c_state ?c q = Some WAIT \<Longrightarrow> c_seq ?c q \<le> m" for q
    using w_okD(3) [OF w, of q] wait [of q] seq(1) [of q] nr m by (cases "q = r") auto
  moreover have "c_state ?c q = Some WAIT \<Longrightarrow> c_state ?c p = Some WAIT \<Longrightarrow> c_seq ?c q = c_seq ?c p \<Longrightarrow> q = p" for q p
    using w_okD(4) [OF w, of q p] wait [of q] wait [of p] seq(1) [of q] seq(1) [of p] nr by (cases "q = r"; cases "p = r") auto
  moreover have "c_state ?c q \<noteq> None \<Longrightarrow> plain (c_ent ?c q)" for q
    using w_okD(5) [OF w, of q] st by (cases "q = r") (auto simp: m_task_def)
  moreover have "c_waitq ?c = c_waitq c" "c_seqno ?c = m" by (simp_all add: m_task_def)
  ultimately have "w_ok ?c" unfolding w_ok_def by metis
  moreover have "r_ok ?c"
  proof -
    have "filter (\<lambda>q. P (c_ent ?c q)) (c_tbb c) = filter (\<lambda>q. P (c_ent c q)) (c_tbb c)" for P
    proof (rule filter_cong [OF refl])
      fix q assume "q \<in> set (c_tbb c)"
      then have "q \<noteq> r" using nt by blast
      then show "P (c_ent ?c q) = P (c_ent c q)" using seq(2) by simp
    qed
    note eq1 = this
    have eq2: "c_state ?c q = Some RUN \<longleftrightarrow> c_state c q = Some RUN" for q using r st by (auto simp: m_task_def)
    have eq3: "(q \<in> set (c_tbb c) \<and> c_ent ?c q = f) = (q \<in> set (c_tbb c) \<and> c_ent c q = f)" for q f
      using nt seq(2) by metis
    have eq4: "c_tbb ?c = c_tbb c" "c_rce ?c = c_rce c" "c_rcg ?c = c_rcg c" "c_rt ?c = c_rt c"
      by (simp_all add: m_task_def)
    show ?thesis using ro unfolding r_ok_def eq4 eq3 eq2 eq1 [of "\<lambda>x. x = f" for f] eq1 [of "\<lambda>x. eid x = g" for g] .
  qed
  moreover have "active ?c d x = active c d x" for d x by (cases d) (simp_all add: m_task_def)
  then have "b_ok X ?c" using inv unfolding cinv_def b_ok_def by (simp add: m_task_def)
  moreover have "c_own ?c = c_own c" "c_dq ?c = c_dq c" "c_waitq ?c = c_waitq c" by (simp_all add: m_task_def)
  then have "q_ok F ?c" using inv unfolding cinv_def q_ok_def key by metis
  moreover have "p_ok ?c" "x_ok ?c" using inv by (simp_all add: cinv_def p_ok_def x_ok_def m_task_def)
  ultimately show ?thesis by (simp add: cinv_def)
qed

definition fresh_seq :: "core \<Rightarrow> task_ref \<Rightarrow> bool" where
  "fresh_seq c r = (c_state c r = Some INIT \<and> (\<forall>q. c_state c q = Some WAIT \<longrightarrow> c_seq c q < c_seq c r) \<and>
     c_seq c r \<le> c_seqno c)"

lemma cinv_wait:
  assumes inv: "cinv F X c" and r: "fresh_seq c r" "c_ent c r = e"
  shows "cinv (if c_waitq c e = [] then insert e F else F) X (m_wait e r c)"
proof -
  let ?c = "m_wait e r c"
  have w: "w_ok c" and ro: "r_ok c" using inv by (auto simp: cinv_def)
  have st: "c_state c r = Some INIT" using r by (simp add: fresh_seq_def)
  have mem: "q \<in> set (c_waitq c f) \<longleftrightarrow> c_state c q = Some WAIT \<and> c_ent c q = f" for q f
    using w unfolding w_ok_def by blast
  have nr: "r \<notin> set (c_waitq c f)" for f using st by (simp add: mem)
  have "\<forall>q \<in> set (c_waitq c e). c_seq c q < c_seq c r" using r(1) unfolding fresh_seq_def by (simp add: mem)
  then have "sorted_wrt (\<lambda>a b. c_seq ?c a < c_seq ?c b) (c_waitq ?c f)" for f
    using w_okD(1) [OF w, of f] w_okD(1) [OF w, of e] by (simp add: m_wait_def sorted_wrt_append)
  moreover have "q \<in> set (c_waitq ?c f) \<longleftrightarrow> c_state ?c q = Some WAIT \<and> c_ent ?c q = f" for q f
    using r(2) nr mem [of q f] by (cases "q = r") (auto simp: m_wait_def)
  moreover have "c_state ?c q = Some WAIT \<Longrightarrow> c_seq ?c q \<le> c_seqno ?c" for q
    using w_okD(3) [OF w, of q] r(1) by (cases "q = r") (auto simp: m_wait_def fresh_seq_def)
  moreover have "c_state ?c q = Some WAIT \<Longrightarrow> c_state ?c p = Some WAIT \<Longrightarrow> c_seq ?c q = c_seq ?c p \<Longrightarrow> q = p" for q p
    using w_okD(4) [OF w, of q p] r(1) unfolding fresh_seq_def
    by (cases "q = r"; cases "p = r") (auto simp: m_wait_def dest: spec [of _ p] spec [of _ q])
  moreover have "c_state ?c q \<noteq> None \<Longrightarrow> plain (c_ent ?c q)" for q
    using w_okD(5) [OF w, of q] st by (cases "q = r") (auto simp: m_wait_def)
  ultimately have "w_ok ?c" unfolding w_ok_def by blast
  moreover have "(c_state ?c q = Some RUN) = (c_state c q = Some RUN)" for q using st by (simp add: m_wait_def)
  note run = this
  have fr: "c_tbb ?c = c_tbb c" "c_rce ?c = c_rce c" "c_rcg ?c = c_rcg c" "c_rt ?c = c_rt c" "c_ent ?c = c_ent c"
    by (simp_all add: m_wait_def)
  have "r_ok ?c" using ro unfolding r_ok_def fr run .
  moreover have "active ?c d x = active c d x" for d x by (cases d) (simp_all add: m_wait_def)
  then have "b_ok X ?c" using inv by (simp add: cinv_def b_ok_def) (simp add: m_wait_def)
  moreover have "q_ok (if c_waitq c e = [] then insert e F else F) ?c"
  proof -
    have key: "ckey ?c x = ckey c x" if "x \<in> set (c_dq c d)" for x d
    proof -
      have "c_waitq c x \<noteq> []" using dq_waitq that inv unfolding cinv_def by blast
      then show ?thesis by (auto simp: ckey_def m_wait_def split: list.splits)
    qed
    have "sorted_wrt (\<lambda>a b. ckey ?c a < ckey ?c b) (c_dq c d)" for d
    proof (rule sorted_key_cong [OF _ key])
      show "sorted_wrt (\<lambda>a b. ckey c a < ckey c b) (c_dq c d)" using inv unfolding cinv_def q_ok_def by blast
    qed
    moreover have q: "q_ok F c" using inv by (simp add: cinv_def)
    moreover have "c_own c x \<noteq> None \<longleftrightarrow> c_waitq ?c x \<noteq> [] \<and> x \<notin> (if c_waitq c e = [] then insert e F else F)" for x
    proof -
      have "c_own c x \<noteq> None \<longleftrightarrow> c_waitq c x \<noteq> [] \<and> x \<notin> F" using q unfolding q_ok_def by blast
      then show ?thesis by (auto simp: m_wait_def)
    qed
    ultimately show ?thesis unfolding q_ok_def by (simp add: m_wait_def)
  qed
  moreover have "p_ok ?c" "x_ok ?c" using inv by (simp_all add: cinv_def p_ok_def x_ok_def m_wait_def)
  ultimately show ?thesis by (simp add: cinv_def)
qed

lemma cinv_run_new:
  assumes inv: "cinv F X c" and r: "c_state c r = Some INIT" "c_ent c r = e" and ok: "ok_start c e"
  shows "cinv F X (m_run e r c)"
proof -
  let ?c = "m_run e r c"
  have w: "w_ok c" using inv by (simp add: cinv_def)
  have fr: "c_waitq ?c = c_waitq c" "c_seq ?c = c_seq c" "c_ent ?c = c_ent c" "c_seqno ?c = c_seqno c"
    "c_dq ?c = c_dq c" "c_own ?c = c_own c" by (simp_all add: m_run_def)
  have wait: "(c_state ?c q = Some WAIT) = (c_state c q = Some WAIT)"
    "(c_state ?c q \<noteq> None) = (c_state c q \<noteq> None)" for q using r by (auto simp: m_run_def)
  have key: "ckey ?c = ckey c" by (auto simp: fun_eq_iff ckey_def fr split: list.splits)
  have "w_ok ?c" using w unfolding w_ok_def fr wait .
  moreover have "q_ok F ?c" using inv unfolding cinv_def q_ok_def fr key by blast
  moreover have "b_ok X ?c" using inv active_run unfolding cinv_def b_ok_def fr by blast
  moreover have "r_ok ?c" using inv r ok by (intro r_ok_run) (auto simp: cinv_def)
  moreover have "x_ok ?c" using inv ok by (intro x_ok_run) (auto simp: cinv_def)
  ultimately show ?thesis using inv by (simp add: cinv_def)
qed

text \<open>A waiting task is dropped by \<open>Cancel\<close>.\<close>

definition m_drop :: "entry_ref \<Rightarrow> task_ref \<Rightarrow> core \<Rightarrow> core" where
  "m_drop e r c = c\<lparr>c_waitq := (c_waitq c)(e := remove1 r (c_waitq c e)), c_state := (c_state c)(r := None),
     c_seq := (c_seq c)(r := 0), c_ent := (c_ent c)(r := StopEntry)\<rparr>"

lemma sorted_distinct: "sorted_wrt (\<lambda>a b. k a < (k b :: nat)) xs \<Longrightarrow> distinct xs"
  by (induction xs) auto

lemma cinv_drop:
  assumes inv: "cinv F X c" and r: "c_state c r = Some WAIT" "c_ent c r = e"
    and hd: "e \<in> F \<or> hd (c_waitq c e) \<noteq> r"
  shows "cinv F X (m_drop e r c)"
proof -
  let ?c = "m_drop e r c"
  have w: "w_ok c" and ro: "r_ok c" and q: "q_ok F c" using inv by (auto simp: cinv_def)
  note mem = w_okD(2) [OF w]
  have d: "distinct (c_waitq c f)" for f using w_okD(1) [OF w] sorted_distinct by blast
  have nt: "r \<notin> set (c_tbb c)" using ro r by (auto simp: r_ok_def)
  have other: "c_seq ?c p = c_seq c p" "c_ent ?c p = c_ent c p" "c_state ?c p = c_state c p" if "p \<noteq> r" for p
    using that by (simp_all add: m_drop_def)
  have st: "c_state ?c r = None" by (simp add: m_drop_def)
  have wq: "c_waitq ?c f = remove1 r (c_waitq c f)" for f
  proof (cases "f = e")
    case False
    then have "r \<notin> set (c_waitq c f)" using mem r by auto
    then show ?thesis using False by (simp add: m_drop_def remove1_idem)
  qed (simp add: m_drop_def)
  have sub: "set (c_waitq ?c f) = set (c_waitq c f) - {r}" for f using d [of f] by (simp add: wq)
  have ssort: "sorted_wrt (\<lambda>a b. c_seq ?c a < c_seq ?c b) (c_waitq ?c f)" for f
  proof (rule sorted_key_cong)
    have "remove1 r (c_waitq c f) = filter ((\<noteq>) r) (c_waitq c f)"
      using d [of f] by (simp add: distinct_remove1_removeAll removeAll_filter_not_eq)
    then show "sorted_wrt (\<lambda>a b. c_seq c a < c_seq c b) (c_waitq ?c f)"
      unfolding wq using w_okD(1) [OF w, of f] sorted_wrt_filter by metis
    show "c_seq ?c x = c_seq c x" if "x \<in> set (c_waitq ?c f)" for x using that sub other(1) by blast
  qed
  moreover have "p \<in> set (c_waitq ?c f) \<longleftrightarrow> c_state ?c p = Some WAIT \<and> c_ent ?c p = f" for p f
    using mem [of p f] other(2,3) [of p] st sub [of f] by (cases "p = r") auto
  moreover have "c_state ?c p = Some WAIT \<Longrightarrow> c_seq ?c p \<le> c_seqno ?c" for p
    using w_okD(3) [OF w, of p] other [of p] st by (cases "p = r") (auto simp: m_drop_def)
  moreover have "c_state ?c p = Some WAIT \<Longrightarrow> c_state ?c p' = Some WAIT \<Longrightarrow> c_seq ?c p = c_seq ?c p' \<Longrightarrow> p = p'" for p p'
    using w_okD(4) [OF w, of p p'] other [of p] other [of p'] st by (cases "p = r"; cases "p' = r") auto
  moreover have "c_state ?c p \<noteq> None \<Longrightarrow> plain (c_ent ?c p)" for p
    using w_okD(5) [OF w, of p] other [of p] st by (cases "p = r") auto
  ultimately have "w_ok ?c" unfolding w_ok_def by blast
  moreover have "r_ok ?c"
  proof -
    have eq1: "filter (\<lambda>p. P (c_ent ?c p)) (c_tbb c) = filter (\<lambda>p. P (c_ent c p)) (c_tbb c)" for P
    proof (rule filter_cong [OF refl])
      fix p assume "p \<in> set (c_tbb c)"
      then have "p \<noteq> r" using nt by blast
      then show "P (c_ent ?c p) = P (c_ent c p)" using other by simp
    qed
    have eq2: "c_state ?c p = Some RUN \<longleftrightarrow> c_state c p = Some RUN" for p using r st other(3) by (cases "p = r") auto
    have eq3: "(p \<in> set (c_tbb c) \<and> c_ent ?c p = f) = (p \<in> set (c_tbb c) \<and> c_ent c p = f)" for p f
      using nt other(2) by metis
    have eq4: "c_tbb ?c = c_tbb c" "c_rce ?c = c_rce c" "c_rcg ?c = c_rcg c" "c_rt ?c = c_rt c"
      by (simp_all add: m_drop_def)
    show ?thesis using ro unfolding r_ok_def eq4 eq3 eq2 eq1 [of "\<lambda>x. x = f" for f] eq1 [of "\<lambda>x. eid x = g" for g] .
  qed
  moreover have "active ?c d x = active c d x" for d x by (cases d) (simp_all add: m_drop_def)
  then have "b_ok X ?c" using inv unfolding cinv_def b_ok_def by (simp add: m_drop_def)
  moreover have "q_ok F ?c"
  proof -
    have own: "c_own ?c = c_own c" "c_dq ?c = c_dq c" by (simp_all add: m_drop_def)
    have head: "x \<notin> F \<Longrightarrow> c_waitq c x \<noteq> [] \<Longrightarrow> c_waitq ?c x \<noteq> [] \<and> hd (c_waitq ?c x) = hd (c_waitq c x) \<and> hd (c_waitq c x) \<noteq> r" for x
    proof -
      assume x: "x \<notin> F" "c_waitq c x \<noteq> []"
      have "hd (c_waitq c x) \<noteq> r"
      proof
        assume "hd (c_waitq c x) = r"
        then have "r \<in> set (c_waitq c x)" using x(2) hd_in_set by metis
        then have "x = e" using mem r by auto
        then show False using hd x \<open>hd (c_waitq c x) = r\<close> by simp
      qed
      then show ?thesis using x(2) unfolding wq by (cases "c_waitq c x") auto
    qed
    have key: "ckey ?c x = ckey c x" if "x \<in> set (c_dq c d)" for x d
      using dq_waitq [OF q that] head [of x] other(1)
      by (cases "c_waitq c x"; cases "c_waitq ?c x") (auto simp: ckey_def)
    have "sorted_wrt (\<lambda>a b. ckey ?c a < ckey ?c b) (c_dq c d)" for d
    proof (rule sorted_key_cong [OF _ key])
      show "sorted_wrt (\<lambda>a b. ckey c a < ckey c b) (c_dq c d)" using q unfolding q_ok_def by blast
    qed
    moreover have "c_own c x \<noteq> None \<longleftrightarrow> c_waitq ?c x \<noteq> [] \<and> x \<notin> F" for x
    proof -
      have "c_own c x \<noteq> None \<longleftrightarrow> c_waitq c x \<noteq> [] \<and> x \<notin> F" using q unfolding q_ok_def by blast
      then show ?thesis using head [of x] sub [of x] by (cases "c_waitq c x = []") auto
    qed
    ultimately show ?thesis using q unfolding q_ok_def own by blast
  qed
  moreover have "p_ok ?c" "x_ok ?c" using inv by (simp_all add: cinv_def p_ok_def x_ok_def m_drop_def)
  ultimately show ?thesis by (simp add: cinv_def)
qed

text \<open>Policies may be added as long as no task runs.\<close>

lemma cinv_policy:
  assumes inv: "cinv {} {} c" and idle: "c_tbb c = []"
    and p: "p_ok (c\<lparr>c_pole := pe, c_polg := pg\<rparr>)"
  shows "cinv {} {} (c\<lparr>c_pole := pe, c_polg := pg\<rparr>)"
proof -
  let ?c = "c\<lparr>c_pole := pe, c_polg := pg\<rparr>"
  have rc: "c_rce c e = 0" "c_rcg c g = 0" for e g using inv idle by (auto simp: cinv_def r_ok_def)
  have "active ?c d x" if "c_own c x = Some d" for x d
  proof -
    have "active c d x" using inv that by (auto simp: cinv_def b_ok_def)
    then show ?thesis using rc by (cases d) (auto split: if_splits)
  qed
  then have "b_ok {} ?c" by (simp add: b_ok_def)
  moreover have "x_ok ?c" using rc by (simp add: x_ok_def)
  moreover have "ckey ?c = ckey c" by (auto simp: fun_eq_iff ckey_def split: list.splits)
  then have "q_ok {} ?c = q_ok {} c" by (simp add: q_ok_def)
  moreover have "w_ok ?c = w_ok c" "r_ok ?c = r_ok c" by (simp_all add: w_ok_def r_ok_def)
  ultimately show ?thesis using p inv by (simp add: cinv_def)
qed

lemma run_flag_frame [simp]:
  "w_ok (c\<lparr>c_running := b\<rparr>) = w_ok c" "r_ok (c\<lparr>c_running := b\<rparr>) = r_ok c" "p_ok (c\<lparr>c_running := b\<rparr>) = p_ok c"
  "x_ok (c\<lparr>c_running := b\<rparr>) = x_ok c" "q_ok F (c\<lparr>c_running := b\<rparr>) = q_ok F c"
proof -
  have "ckey (c\<lparr>c_running := b\<rparr>) = ckey c" by (auto simp: fun_eq_iff ckey_def split: list.splits)
  then show "q_ok F (c\<lparr>c_running := b\<rparr>) = q_ok F c" by (simp add: q_ok_def)
qed (simp_all add: w_ok_def r_ok_def p_ok_def x_ok_def)

lemma cinv_stop: "cinv {} {} c \<Longrightarrow> cinv {} {} (c\<lparr>c_running := False\<rparr>)"
proof -
  assume inv: "cinv {} {} c"
  have "active (c\<lparr>c_running := False\<rparr>) d x" if "active c d x" for d x
    using that by (cases d) (auto split: if_splits)
  with inv show ?thesis by (auto simp: cinv_def b_ok_def)
qed

lemma cinv_go: "cinv {} {} c \<Longrightarrow> cinv {} (set (c_dq c (EntryQ StopEntry))) (c\<lparr>c_running := True\<rparr>)"
proof -
  assume inv: "cinv {} {} c"
  have "active (c\<lparr>c_running := True\<rparr>) d x" if "active c d x" "d \<noteq> EntryQ StopEntry" for d x
    using that by (cases d) (auto split: if_splits)
  moreover have "c_own c x = Some (EntryQ StopEntry) \<longleftrightarrow> x \<in> set (c_dq c (EntryQ StopEntry))" for x
    using inv unfolding cinv_def q_ok_def by blast
  moreover have "c_own c x = Some d \<Longrightarrow> active c d x" for x d using inv by (simp add: cinv_def b_ok_def)
  ultimately have "b_ok (set (c_dq c (EntryQ StopEntry))) (c\<lparr>c_running := True\<rparr>)" by (simp add: b_ok_def) metis
  then show ?thesis using inv by (simp add: cinv_def)
qed

text \<open>With nothing running and the scheduler started nothing waits.\<close>

lemma no_lost_wakeup:
  assumes "cinv {} {} c" "c_tbb c = []" "c_running c"
  shows "c_waitq c e = []"
proof (rule ccontr)
  assume "c_waitq c e \<noteq> []"
  then obtain d where d: "c_own c e = Some d" using assms(1) unfolding cinv_def q_ok_def by blast
  then have "active c d e" using assms(1) by (auto simp: cinv_def b_ok_def)
  moreover have "c_rce c f = 0" "c_rcg c g = 0" for f g using assms(1,2) by (auto simp: cinv_def r_ok_def)
  ultimately show False using assms(3) by (cases d) (auto split: if_splits)
qed

end
