(* ===== verification/Task_Refine.thy ===== *)
theory Task_Refine
  imports Task_Core
begin

text \<open>
  The methods of the scheduler implement the moves of Task_Core. \<open>core_of\<close> abstracts the
  scheduler's state; \<open>swf\<close> says that the store is consistent. The lemmas \<open>..._ok\<close> show for each method
  that it does not abort and that the core after it is the core before it with the method's moves;
  the loops over the defer queues end because every turn leaves fewer waiting tasks behind the
  iterator.
\<close>

section \<open>The abstraction\<close>

definition ent_of :: "task \<Rightarrow> entry_ref" where
  "ent_of t = (if tk_instance t = -1 then GroupEntry (tk_id t) else InstEntry (tk_id t) (tk_instance t))"

text \<open>A task whose thread has come back (\<open>TBB_DONE\<close>) does not run any more.\<close>

fun dq_fun :: "(entry_ref \<Rightarrow> task_entry) \<Rightarrow> (int \<Rightarrow> task_group) \<Rightarrow> dq_owner \<Rightarrow> entry_ref list" where
  "dq_fun E G (EntryQ e) = te_deferq (E e)"
| "dq_fun E G (GroupQ g) = tg_deferq (G g)"

fun pick_owner :: "int option \<Rightarrow> entry_ref option \<Rightarrow> dq_owner option" where
  "pick_owner (Some g) d = Some (GroupQ g)"
| "pick_owner None d = map_option EntryQ d"

definition own_of :: "task_entry \<Rightarrow> dq_owner option" where
  "own_of x = pick_owner (te_dq_group x) (te_dq_entry x)"

definition state_of :: "task option \<Rightarrow> tstate option" where
  "state_of x = map_option (\<lambda>t. if tk_tbb_state t = TBB_DONE then INIT else tk_state t) x"

definition seq_of :: "task option \<Rightarrow> nat" where
  "seq_of x = (case x of None \<Rightarrow> 0 | Some t \<Rightarrow> tk_seqno t)"

definition ent_opt :: "task option \<Rightarrow> entry_ref" where
  "ent_opt x = (case x of None \<Rightarrow> StopEntry | Some t \<Rightarrow> ent_of t)"

definition core_of :: "sched \<Rightarrow> core" where
  "core_of s = \<lparr>
     c_waitq = (\<lambda>e. te_waitq (ts_entries s e)),
     c_dq = dq_fun (ts_entries s) (ts_groups s),
     c_own = (\<lambda>e. own_of (ts_entries s e)),
     c_rce = (\<lambda>e. te_run_count (ts_entries s e)),
     c_rcg = (\<lambda>g. tg_run_count (ts_groups s g)),
     c_rt = (\<lambda>e. te_run_task (ts_entries s e)),
     c_pole = (\<lambda>e. set (te_policyq (ts_entries s e))),
     c_polg = (\<lambda>g. set (tg_policy (ts_groups s g))),
     c_state = (\<lambda>r. state_of (ts_tasks s r)),
     c_seq = (\<lambda>r. seq_of (ts_tasks s r)),
     c_ent = (\<lambda>r. ent_opt (ts_tasks s r)),
     c_tbb = ts_tbb s,
     c_running = ts_running s,
     c_seqno = ts_seqno s\<rparr>"

lemma core_of_simps [simp]:
  "c_waitq (core_of s) e = te_waitq (ts_entries s e)" "c_dq (core_of s) (EntryQ e) = te_deferq (ts_entries s e)"
  "c_dq (core_of s) (GroupQ g) = tg_deferq (ts_groups s g)" "c_own (core_of s) e = own_of (ts_entries s e)"
  "c_rce (core_of s) e = te_run_count (ts_entries s e)" "c_rcg (core_of s) g = tg_run_count (ts_groups s g)"
  "c_rt (core_of s) e = te_run_task (ts_entries s e)" "c_pole (core_of s) e = set (te_policyq (ts_entries s e))"
  "c_polg (core_of s) g = set (tg_policy (ts_groups s g))" "c_state (core_of s) r = state_of (ts_tasks s r)"
  "c_seq (core_of s) r = seq_of (ts_tasks s r)" "c_ent (core_of s) r = ent_opt (ts_tasks s r)"
  "c_tbb (core_of s) = ts_tbb s" "c_running (core_of s) = ts_running s" "c_seqno (core_of s) = ts_seqno s"
  by (simp_all add: core_of_def)

lemma state_of_simps [simp]:
  "state_of None = None" "seq_of None = 0" "ent_opt None = StopEntry" "seq_of (Some t) = tk_seqno t"
  "ent_opt (Some t) = ent_of t" "state_of (Some t) = Some (if tk_tbb_state t = TBB_DONE then INIT else tk_state t)"
  by (simp_all add: state_of_def seq_of_def ent_opt_def)

text \<open>Two states have the same core when the parts it is made of agree.\<close>

lemma core_eqI:
  fixes c d :: core
  assumes "\<And>e. c_waitq c e = c_waitq d e" "\<And>e. c_dq c (EntryQ e) = c_dq d (EntryQ e)"
    "\<And>g. c_dq c (GroupQ g) = c_dq d (GroupQ g)" "\<And>e. c_own c e = c_own d e" "\<And>e. c_rce c e = c_rce d e"
    "\<And>g. c_rcg c g = c_rcg d g" "\<And>e. c_rt c e = c_rt d e" "\<And>e. c_pole c e = c_pole d e"
    "\<And>g. c_polg c g = c_polg d g" "\<And>r. c_state c r = c_state d r" "\<And>r. c_seq c r = c_seq d r"
    "\<And>r. c_ent c r = c_ent d r" "c_tbb c = c_tbb d" "c_running c = c_running d" "c_seqno c = c_seqno d"
  shows "c = d"
proof -
  have "c_dq c x = c_dq d x" for x using assms(2,3) by (cases x) auto
  then show ?thesis using assms by (intro core.equality) (auto simp: fun_eq_iff)
qed

definition group_live :: "sched \<Rightarrow> int \<Rightarrow> bool" where
  "group_live s g = (db_at (ts_group_db s) g = Some True)"

definition inst_live :: "sched \<Rightarrow> int \<Rightarrow> int \<Rightarrow> bool" where
  "inst_live s g i = (db_at (tg_entry_db (ts_groups s g)) i = Some True)"

fun live :: "sched \<Rightarrow> entry_ref \<Rightarrow> bool" where
  "live s (InstEntry g i) = (group_live s g \<and> inst_live s g i)"
| "live s (GroupEntry g) = group_live s g"
| "live s _ = False"

fun einst :: "entry_ref \<Rightarrow> int" where
  "einst (InstEntry t i) = i"
| "einst _ = -1"

text \<open>
  The objects are what their names say, objects not yet allocated are as \<open>new\<close> will make them,
  the hooks agree with the pointers, nothing is disabled, and every task that waits or runs has
  an allocated entry.
\<close>

definition wf_e :: "entry_ref \<Rightarrow> task_entry \<Rightarrow> bool" where
  "wf_e e x = (te_task_id x = eid e \<and> te_task_instance x = einst e \<and> \<not> te_disable x \<and>
     (te_linked x \<longleftrightarrow> te_dq_entry x \<noteq> None \<or> te_dq_group x \<noteq> None) \<and>
     (te_dq_entry x = None \<or> te_dq_group x = None))"

definition wf_g :: "int \<Rightarrow> task_group \<Rightarrow> bool" where
  "wf_g g x = (tg_task_id x = g \<and> \<not> tg_disable x)"

definition wf_t :: "sched \<Rightarrow> task \<Rightarrow> bool" where
  "wf_t s t = (plain (ent_of t) \<and> (tk_state t \<noteq> INIT \<longrightarrow> live s (ent_of t)) \<and>
     (tk_impl t \<longleftrightarrow> tk_state t = RUN) \<and> (tk_state t \<noteq> RUN \<longrightarrow> tk_tbb_state t = TBB_INIT))"

definition swf :: "sched \<Rightarrow> bool" where
  "swf s = ((\<forall>e. wf_e e (ts_entries s e)) \<and> (\<forall>g. wf_g g (ts_groups s g)) \<and>
     (\<forall>g. \<not> group_live s g \<longrightarrow> ts_groups s g = mk_TaskGroup g \<and>
        ts_entries s (GroupEntry g) = fresh_entry (GroupEntry g) \<and>
        ts_entries s (DisableEntry g) = fresh_entry (DisableEntry g)) \<and>
     (\<forall>g i. \<not> inst_live s g i \<longrightarrow> ts_entries s (InstEntry g i) = fresh_entry (InstEntry g i)) \<and>
     (\<forall>r t. ts_tasks s r = Some t \<longrightarrow> wf_t s t))"

lemma swfD:
  assumes "swf s"
  shows "wf_e e (ts_entries s e)" "wf_g g (ts_groups s g)" "\<not> group_live s g \<Longrightarrow> ts_groups s g = mk_TaskGroup g"
    "\<not> group_live s g \<Longrightarrow> ts_entries s (GroupEntry g) = fresh_entry (GroupEntry g)"
    "\<not> group_live s g \<Longrightarrow> ts_entries s (DisableEntry g) = fresh_entry (DisableEntry g)"
    "\<not> inst_live s g i \<Longrightarrow> ts_entries s (InstEntry g i) = fresh_entry (InstEntry g i)"
    "ts_tasks s r = Some t \<Longrightarrow> wf_t s t"
  using assms unfolding swf_def by blast+

lemma swfI:
  assumes "\<And>e. wf_e e (ts_entries s e)" "\<And>g. wf_g g (ts_groups s g)"
    "\<And>g. \<not> group_live s g \<Longrightarrow> ts_groups s g = mk_TaskGroup g"
    "\<And>g. \<not> group_live s g \<Longrightarrow> ts_entries s (GroupEntry g) = fresh_entry (GroupEntry g)"
    "\<And>g. \<not> group_live s g \<Longrightarrow> ts_entries s (DisableEntry g) = fresh_entry (DisableEntry g)"
    "\<And>g i. \<not> inst_live s g i \<Longrightarrow> ts_entries s (InstEntry g i) = fresh_entry (InstEntry g i)"
    "\<And>r t. ts_tasks s r = Some t \<Longrightarrow> wf_t s t"
  shows "swf s"
  using assms unfolding swf_def by blast

lemmas upd_defs = upd_entry_def upd_group_def upd_task_def upd_estats_def upd_gstats_def

section \<open>Looking up groups and entries\<close>

lemma db_at_grow: "0 \<le> i \<Longrightarrow> db_at (db_grow db i) i \<noteq> None"
  by (auto simp: db_at_def db_grow_def kVectorGrowSize_def)

lemma db_at_grow_True: "0 \<le> i \<Longrightarrow> db_at (db_grow db i) j = Some True \<longleftrightarrow> db_at db j = Some True"
  by (auto simp: db_at_def db_grow_def kVectorGrowSize_def nth_vec_resize split: if_splits)

lemma db_at_set: "db_at db i \<noteq> None \<Longrightarrow> db_at (db[nat i := True]) j = Some True \<longleftrightarrow> i = j \<or> db_at db j = Some True"
  by (auto simp: db_at_def nth_list_update split: if_splits)

lemma db_grow_id: "db_at db i = Some b \<Longrightarrow> db_grow db i = db"
  by (auto simp: db_at_def db_grow_def split: if_splits)

lemma GetTaskGroup_live: "group_live s g \<Longrightarrow> GetTaskGroup g s = Some s"
  by (auto simp: GetTaskGroup_def group_live_def db_grow_id db_at_def cpp_assert_def Let_def split: if_splits)

lemma core_of_db: "core_of (s\<lparr>ts_group_db := db\<rparr>) = core_of s"
  by (rule core_eqI) simp_all

lemma GetTaskGroup_ok:
  assumes "swf s" "0 \<le> g"
  obtains db where "GetTaskGroup g s = Some (s\<lparr>ts_group_db := db\<rparr>)"
    "\<And>h. group_live (s\<lparr>ts_group_db := db\<rparr>) h \<longleftrightarrow> h = g \<or> group_live s h"
proof (cases "group_live s g")
  case True
  then show ?thesis using that [of "ts_group_db s"] GetTaskGroup_live by auto
next
  case False
  define db where "db = (db_grow (ts_group_db s) g)[nat g := True]"
  obtain b where b: "db_at (db_grow (ts_group_db s) g) g = Some b" using db_at_grow assms(2) by blast
  then have nb: "\<not> b" using False assms(2) db_at_grow_True [of g "ts_group_db s" g] by (auto simp: group_live_def)
  have same: "(ts_groups s)(g := mk_TaskGroup g) = ts_groups s" "(ts_entries s)(GroupEntry g := fresh_entry (GroupEntry g),
      DisableEntry g := fresh_entry (DisableEntry g)) = ts_entries s"
    using swfD(3-5) [OF assms(1) False] by (auto simp: fun_eq_iff simp del: fresh_entry.simps)
  have "GetTaskGroup g s = Some (s\<lparr>ts_group_db := db\<rparr>)"
    using b nb assms(2) by (simp add: GetTaskGroup_def Let_def db_def same del: fresh_entry.simps)
  moreover have "group_live (s\<lparr>ts_group_db := db\<rparr>) h \<longleftrightarrow> h = g \<or> group_live s h" for h
    using b assms(2) db_at_set [of "db_grow (ts_group_db s) g" g h] db_at_grow_True [of g "ts_group_db s" h]
    by (auto simp: group_live_def db_def)
  ultimately show ?thesis by (rule that)
qed

lemma inst_live_db [simp]: "inst_live (s\<lparr>ts_group_db := db\<rparr>) = inst_live s"
  by (simp add: inst_live_def fun_eq_iff)

lemma wf_GetTaskGroup:
  assumes "swf s" "\<And>h. group_live s h \<Longrightarrow> group_live (s\<lparr>ts_group_db := db\<rparr>) h"
  shows "swf (s\<lparr>ts_group_db := db\<rparr>)"
proof -
  have "live s e \<Longrightarrow> live (s\<lparr>ts_group_db := db\<rparr>) e" for e using assms(2) by (cases e) auto
  then have "wf_t s t \<Longrightarrow> wf_t (s\<lparr>ts_group_db := db\<rparr>) t" for t by (auto simp: wf_t_def)
  then show ?thesis
    by (intro swfI; simp del: fresh_entry.simps) (use assms(2) swfD [OF assms(1)] in blast)+
qed

lemma QueryTaskGroup_live: "group_live s g \<Longrightarrow> QueryTaskGroup g s = Some True"
  by (simp add: QueryTaskGroup_def group_live_def)

lemma QueryTaskEntry_live:
  assumes "live s (ent_of t)" "plain (ent_of t)"
  shows "QueryTaskEntry (tk_id t) (tk_instance t) s = Some (Some (ent_of t))"
  using assms
  by (auto simp: QueryTaskEntry_def ent_of_def QueryTaskGroup_live group_QueryTaskEntry_def inst_live_def db_at_def split: if_splits)

text \<open>Looking up an entry changes the vector of its group only.\<close>

lemma group_GetTaskEntry_ok:
  assumes "swf s" "group_live s g" "i = -1 \<or> 0 \<le> i"
  obtains s' where "group_GetTaskEntry g i s = Some (if i = -1 then GroupEntry g else InstEntry g i, s')"
    "swf s'" "core_of s' = core_of s" "\<And>e. live s e \<Longrightarrow> live s' e" "live s' (if i = -1 then GroupEntry g else InstEntry g i)"
    "ts_tasks s' = ts_tasks s"
proof (cases "i = -1")
  case True
  then show ?thesis using assms that [of s] by (auto simp: group_GetTaskEntry_def)
next
  case False
  then have i: "0 \<le> i" using assms(3) by simp
  define db0 where "db0 = db_grow (tg_entry_db (ts_groups s g)) i"
  obtain b where b: "db_at db0 i = Some b" using db_at_grow [OF i] unfolding db0_def by blast
  define db where "db = (if b then db0 else db0[nat i := True])"
  define s' where "s' = upd_group g (\<lambda>x. x\<lparr>tg_entry_db := db\<rparr>) s"
  have dbT: "db_at db j = Some True \<longleftrightarrow> j = i \<or> inst_live s g j" for j
    using b db_at_set [of db0 i j] db_at_grow_True [OF i, of "tg_entry_db (ts_groups s g)" j]
    by (auto simp: db_def inst_live_def db0_def [symmetric])
  have ent: "(ts_entries s)(InstEntry g i := fresh_entry (InstEntry g i)) = ts_entries s" if "\<not> b"
  proof -
    have "\<not> inst_live s g i" using that b db_at_grow_True [OF i, of "tg_entry_db (ts_groups s g)" i]
      by (auto simp: inst_live_def db0_def [symmetric])
    then show ?thesis using swfD(6) [OF assms(1)] by (auto simp: fun_eq_iff simp del: fresh_entry.simps)
  qed
  have gid: "tg_task_id (ts_groups s g) = g" using assms(1) by (simp add: swf_def wf_g_def)
  have get: "group_GetTaskEntry g i s = Some (InstEntry g i, s')"
    using False b ent by (auto simp: group_GetTaskEntry_def Let_def upd_group_def db0_def [symmetric] gid s'_def db_def simp del: fresh_entry.simps)
  have fr: "ts_entries s' = ts_entries s" "ts_tasks s' = ts_tasks s" "ts_group_db s' = ts_group_db s"
    by (simp_all add: s'_def upd_group_def)
  have gl: "group_live s' = group_live s" by (simp add: group_live_def fr fun_eq_iff)
  have il: "inst_live s' h j \<longleftrightarrow> inst_live s h j \<or> h = g \<and> j = i" for h j
    using dbT by (auto simp: inst_live_def s'_def upd_group_def)
  have lv: "live s e \<Longrightarrow> live s' e" for e by (cases e) (auto simp: gl il)
  have "swf s'"
  proof -
    have "wf_t s t \<Longrightarrow> wf_t s' t" for t using lv by (auto simp: wf_t_def)
    moreover have "wf_g h (ts_groups s' h)" for h using assms(1) by (auto simp: swf_def wf_g_def s'_def upd_group_def)
    moreover have "\<not> group_live s h \<Longrightarrow> ts_groups s' h = ts_groups s h" for h using assms(2) by (auto simp: s'_def upd_group_def)
    ultimately show ?thesis
      by (intro swfI; simp del: fresh_entry.simps add: fr gl il) (use swfD [OF assms(1)] in \<open>simp del: fresh_entry.simps\<close>)+
  qed
  moreover have "core_of s' = core_of s"
    by (rule core_eqI) (auto simp: s'_def upd_group_def)
  moreover have "live s' (InstEntry g i)" using assms(2) by (simp add: gl il)
  ultimately show ?thesis using that [of s'] get lv fr False by auto
qed

section \<open>Updates\<close>

fun alloc :: "sched \<Rightarrow> entry_ref \<Rightarrow> bool" where
  "alloc s (InstEntry g i) = inst_live s g i"
| "alloc s (GroupEntry g) = group_live s g"
| "alloc s (DisableEntry g) = group_live s g"
| "alloc s StopEntry = True"

lemma live_alloc: "live s e \<Longrightarrow> alloc s e"
  by (cases e) auto

lemma not_alloc_fresh: "swf s \<Longrightarrow> \<not> alloc s e \<Longrightarrow> ts_entries s e = fresh_entry e"
  by (cases e) (auto dest: swfD)

lemma busy_alloc:
  assumes "swf s"
  shows "te_run_count (ts_entries s e) \<noteq> 0 \<Longrightarrow> alloc s e" "te_waitq (ts_entries s e) \<noteq> [] \<Longrightarrow> alloc s e"
    "tg_run_count (ts_groups s g) \<noteq> 0 \<Longrightarrow> group_live s g" "inst_live s g i \<Longrightarrow> group_live s g"
proof -
  have "te_run_count (fresh_entry e) = 0" "te_waitq (fresh_entry e) = []" by (cases e; simp add: mk_TaskEntry_def)+
  then show "te_run_count (ts_entries s e) \<noteq> 0 \<Longrightarrow> alloc s e" "te_waitq (ts_entries s e) \<noteq> [] \<Longrightarrow> alloc s e"
    using not_alloc_fresh [OF assms] by metis+
  have "tg_run_count (mk_TaskGroup g) = 0" by (simp add: mk_TaskGroup_def)
  then show "tg_run_count (ts_groups s g) \<noteq> 0 \<Longrightarrow> group_live s g" using swfD(3) [OF assms, of g] by metis
  have "db_at (tg_entry_db (mk_TaskGroup g)) i \<noteq> Some True"
    by (simp add: mk_TaskGroup_def db_at_def kVectorGrowSize_def)
  then show "inst_live s g i \<Longrightarrow> group_live s g" using swfD(3) [OF assms, of g] unfolding inst_live_def by metis
qed

lemma upd_live [simp]:
  "group_live (upd_entry e f s) = group_live s" "inst_live (upd_entry e f s) = inst_live s"
  "group_live (upd_task r h s) = group_live s" "inst_live (upd_task r h s) = inst_live s"
  "group_live (upd_group g k s) = group_live s" "group_live (s\<lparr>ts_tbb := q\<rparr>) = group_live s"
  "inst_live (s\<lparr>ts_tbb := q\<rparr>) = inst_live s"
  by (auto simp: group_live_def inst_live_def upd_defs fun_eq_iff)

lemma upd_group_inst_live [simp]:
  "(\<And>x. tg_entry_db (k x) = tg_entry_db x) \<Longrightarrow> inst_live (upd_group g k s) = inst_live s"
  by (auto simp: inst_live_def upd_defs fun_eq_iff)

lemma live_cong: "group_live s = group_live s' \<Longrightarrow> inst_live s = inst_live s' \<Longrightarrow> live s = live s'"
proof
  fix e
  assume "group_live s = group_live s'" "inst_live s = inst_live s'"
  then show "live s e = live s' e" by (cases e) auto
qed

lemma wf_t_cong: "live s = live s' \<Longrightarrow> wf_t s = wf_t s'"
  by (auto simp: wf_t_def fun_eq_iff)

lemma wf_upd_entry:
  assumes "swf s" "alloc s e" "wf_e e (f (ts_entries s e))"
  shows "swf (upd_entry e f s)"
proof -
  have "wf_t (upd_entry e f s) = wf_t s" by (intro wf_t_cong live_cong) simp_all
  then show ?thesis
    by (intro swfI; simp add: upd_entry_def del: fresh_entry.simps)
      (use assms swfD [OF assms(1)] in \<open>auto simp del: fresh_entry.simps simp: upd_entry_def [symmetric]\<close>)
qed

lemma wf_upd_group:
  assumes "swf s" "group_live s g" "wf_g g (f (ts_groups s g))" "\<And>x. tg_entry_db (f x) = tg_entry_db x"
  shows "swf (upd_group g f s)"
proof -
  have il: "inst_live (upd_group g f s) = inst_live s" using assms(4) by simp
  have "wf_t (upd_group g f s) = wf_t s" using il by (intro wf_t_cong live_cong) simp_all
  then show ?thesis
    by (intro swfI; simp add: il del: fresh_entry.simps)
      (use assms swfD [OF assms(1)] in \<open>auto simp del: fresh_entry.simps simp: upd_group_def\<close>)
qed

lemma wf_upd_task:
  assumes "swf s" "\<And>t. ts_tasks s r = Some t \<Longrightarrow> wf_t s (f t)"
  shows "swf (upd_task r f s)"
proof -
  have "wf_t (upd_task r f s) = wf_t s" by (intro wf_t_cong live_cong) simp_all
  then show ?thesis
    by (intro swfI; simp del: fresh_entry.simps)
      (use assms swfD [OF assms(1)] in \<open>auto simp del: fresh_entry.simps simp: upd_task_def split: if_splits\<close>)
qed

lemma wf_upd_estats: "swf s \<Longrightarrow> alloc s e \<Longrightarrow> swf (upd_estats e f s)"
  unfolding upd_estats_def using swfD(1) [of s e] by (intro wf_upd_entry) (simp_all add: wf_e_def)

lemma wf_upd_gstats: "swf s \<Longrightarrow> group_live s g \<Longrightarrow> swf (upd_gstats g f s)"
  unfolding upd_gstats_def using swfD(2) [of s g] by (intro wf_upd_group) (simp_all add: wf_g_def)

lemma stats_live [simp]:
  "group_live (upd_estats e f s) = group_live s" "inst_live (upd_estats e f s) = inst_live s"
  "group_live (upd_gstats g h s) = group_live s" "inst_live (upd_gstats g h s) = inst_live s"
  by (simp_all add: upd_estats_def upd_gstats_def)

lemma core_of_stats [simp]: "core_of (upd_estats e f s) = core_of s" "core_of (upd_gstats g h s) = core_of s"
  by (rule core_eqI; simp add: upd_defs own_of_def)+

lemma alloc_cong: "group_live s = group_live s' \<Longrightarrow> inst_live s = inst_live s' \<Longrightarrow> alloc s = alloc s'"
proof
  fix e
  assume "group_live s = group_live s'" "inst_live s = inst_live s'"
  then show "alloc s e = alloc s' e" by (cases e) auto
qed

text \<open>The vectors of groups and entries stay as they are.\<close>

definition same_db :: "sched \<Rightarrow> sched \<Rightarrow> bool" where
  "same_db s s' = (group_live s' = group_live s \<and> inst_live s' = inst_live s)"

lemma same_db_refl [simp]: "same_db s s"
  by (simp add: same_db_def)

lemma same_db_trans: "same_db a b \<Longrightarrow> same_db b c \<Longrightarrow> same_db a c"
  by (simp add: same_db_def)

lemma same_db_live: "same_db s s' \<Longrightarrow> live s' = live s" "same_db s s' \<Longrightarrow> alloc s' = alloc s"
  "same_db s s' \<Longrightarrow> group_live s' = group_live s"
  using live_cong alloc_cong unfolding same_db_def by metis+

section \<open>Wait queues\<close>

lemma AddToWaitQ_ok:
  assumes swf: "swf s" and t: "ts_tasks s r = Some t" "ent_of t = e" "tk_state t = INIT" and live: "live s e"
  obtains s' where "AddToWaitQ e r s = Some s'" "swf s'" "core_of s' = m_wait e r (core_of s)" "same_db s s'"
proof -
  have g: "group_live s (eid e)" using live by (cases e) auto
  have id: "te_task_id (ts_entries s e) = eid e" using swfD(1) [OF swf] by (simp add: wf_e_def)
  define s1 where "s1 = upd_task r (\<lambda>t. t\<lparr>tk_state := WAIT\<rparr>) s"
  define s2 where "s2 = upd_estats e (\<lambda>x. x\<lparr>st_wait_count := st_wait_count x + 1\<rparr>) s1"
  define s3 where "s3 = upd_entry e (\<lambda>x. x\<lparr>te_waitq := te_waitq x @ [r]\<rparr>) s2"
  define s4 where "s4 = upd_gstats (eid e) (\<lambda>x. x\<lparr>st_wait_count := st_wait_count x + 1\<rparr>) s3"
  have wt: "wf_t s t" using swfD(7) [OF swf t(1)] .
  have tb: "tk_tbb_state t = TBB_INIT" using wt t by (simp add: wf_t_def)
  have "swf s1" unfolding s1_def
    by (rule wf_upd_task [OF swf]) (use t wt live in \<open>auto simp: wf_t_def ent_of_def\<close>)
  moreover have db: "same_db s s1" "same_db s s2" "same_db s s3" "same_db s s4"
    by (auto simp: same_db_def s1_def s2_def s3_def s4_def)
  moreover have al: "alloc s e" by (rule live_alloc [OF live])
  ultimately have "swf s2" unfolding s2_def by (intro wf_upd_estats) (simp_all add: same_db_live)
  then have "swf s3" unfolding s3_def using al db
    using swfD(1) [of s2 e] by (intro wf_upd_entry) (simp_all add: same_db_live wf_e_def)
  then have "swf s4" unfolding s4_def using g db by (intro wf_upd_gstats) (simp_all add: same_db_live)
  moreover have "AddToWaitQ e r s = Some s4"
    using t g id db by (simp add: AddToWaitQ_def Let_def s1_def [symmetric] s2_def [symmetric] s3_def [symmetric])
      (simp add: s4_def s3_def s2_def s1_def upd_defs GetTaskGroup_live same_db_live)
  moreover have "core_of s4 = m_wait e r (core_of s)"
    unfolding s4_def s3_def s2_def s1_def
    by (rule core_eqI) (auto simp: upd_defs m_wait_def own_of_def t tb ent_of_def)
  ultimately show ?thesis using that db by blast
qed

lemma DeleteFromWaitQ_ok:
  assumes swf: "swf s" and r: "r \<in> set (te_waitq (ts_entries s e))"
  obtains s' where "DeleteFromWaitQ e r s = Some s'" "swf s'" "core_of s' = m_unwait e r (core_of s)" "same_db s s'"
    "ts_tasks s' = ts_tasks s"
proof -
  define s' where "s' = upd_entry e (\<lambda>x. x\<lparr>te_waitq := remove1 r (te_waitq x)\<rparr>) s"
  have "alloc s e" using r by (intro busy_alloc(2) [OF swf]) auto
  then have "swf s'" unfolding s'_def
    by (intro wf_upd_entry swf) (use swfD(1) [OF swf, of e] in \<open>simp_all add: wf_e_def\<close>)
  moreover have "core_of s' = m_unwait e r (core_of s)"
    by (rule core_eqI) (auto simp: s'_def upd_defs m_unwait_def own_of_def)
  moreover have "same_db s s'" by (simp add: same_db_def s'_def)
  ultimately show ?thesis using that r by (simp add: DeleteFromWaitQ_def s'_def upd_defs)
qed

section \<open>Defer queues\<close>

lemma own_of_None [simp]: "own_of x = None \<longleftrightarrow> te_dq_group x = None \<and> te_dq_entry x = None"
  by (cases "te_dq_group x") (auto simp: own_of_def)

lemma own_of_Some:
  "own_of x = Some (GroupQ g) \<longleftrightarrow> te_dq_group x = Some g"
  "own_of x = Some (EntryQ d) \<longleftrightarrow> te_dq_group x = None \<and> te_dq_entry x = Some d"
  by (cases "te_dq_group x"; auto simp: own_of_def)+

lemma GetTaskDeferEntrySeqno_eq:
  assumes "w_ok (core_of s)" "te_waitq (ts_entries s e) \<noteq> []"
  shows "GetTaskDeferEntrySeqno s e = Some (ckey (core_of s) e)"
proof -
  obtain r rs where r: "te_waitq (ts_entries s e) = r # rs" using assms(2) by (cases "te_waitq (ts_entries s e)") auto
  then have "c_state (core_of s) r = Some WAIT" using w_okD(2) [OF assms(1), of r e] by simp
  then obtain t where "ts_tasks s r = Some t" by (cases "ts_tasks s r") auto
  then show ?thesis using r by (simp add: GetTaskDeferEntrySeqno_def ckey_def)
qed

lemma tree_insert_eq:
  fixes k :: "entry_ref \<Rightarrow> nat"
  assumes "\<And>x. x \<in> insert e (set q) \<Longrightarrow> GetTaskDeferEntrySeqno s x = Some (k x)" "k e \<notin> k ` set q"
  shows "tree_insert (TaskDeferEntryCmp s) e q = Some (insort_key k e q)"
  using assms by (induction q) (auto simp: TaskDeferEntryCmp_def not_less)

text \<open>What an insertion into a queue relies on: the entry is in no queue, keys exist and are distinct.\<close>

definition ready :: "sched \<Rightarrow> dq_owner \<Rightarrow> entry_ref \<Rightarrow> bool" where
  "ready s d e = (c_own (core_of s) e = None \<and> c_waitq (core_of s) e \<noteq> [] \<and>
     (\<forall>x \<in> insert e (set (c_dq (core_of s) d)). GetTaskDeferEntrySeqno s x = Some (ckey (core_of s) x)) \<and>
     ckey (core_of s) e \<notin> ckey (core_of s) ` set (c_dq (core_of s) d))"

lemma q_okD:
  assumes "q_ok F c" "c_own c e = Some d"
  shows "e \<in> set (c_dq c d)" "c_waitq c e \<noteq> []" "e \<notin> F"
proof -
  have "c_own c e \<noteq> None" using assms(2) by simp
  then show "e \<in> set (c_dq c d)" "c_waitq c e \<noteq> []" "e \<notin> F" using assms unfolding q_ok_def by blast+
qed

lemma cinv_ready:
  assumes inv: "cinv F X (core_of s)" and e: "e \<in> F" "te_waitq (ts_entries s e) \<noteq> []"
  shows "ready s d e"
proof -
  have w: "w_ok (core_of s)" and q: "q_ok F (core_of s)" using inv by (auto simp: cinv_def)
  have "GetTaskDeferEntrySeqno s x = Some (ckey (core_of s) x)" if "x \<in> insert e (set (c_dq (core_of s) d))" for x
    using that dq_waitq [OF q] e(2) by (intro GetTaskDeferEntrySeqno_eq [OF w]) auto
  moreover have "ckey (core_of s) e \<notin> ckey (core_of s) ` set (c_dq (core_of s) d)"
    using e by (intro ckey_fresh [OF w q]) auto
  moreover have "c_own (core_of s) e = None" using q e(1) unfolding q_ok_def by blast
  ultimately show ?thesis using e(2) by (simp add: ready_def)
qed

lemma ready_fields:
  assumes "ready s d e"
  shows "te_dq_group (ts_entries s e) = None" "te_dq_entry (ts_entries s e) = None" "te_waitq (ts_entries s e) \<noteq> []"
  using assms by (auto simp: ready_def)

lemma deferq_insert_ok:
  assumes e: "ready s d e" and wf: "swf s"
  shows "deferq_insert e (c_dq (core_of s) d) s =
    Some (insort_key (ckey (core_of s)) e (c_dq (core_of s) d), upd_entry e (\<lambda>x. x\<lparr>te_linked := True\<rparr>) s)"
proof -
  have "tree_insert (TaskDeferEntryCmp s) e (c_dq (core_of s) d) = Some (insort_key (ckey (core_of s)) e (c_dq (core_of s) d))"
    using e by (intro tree_insert_eq) (auto simp: ready_def)
  moreover have "\<not> te_linked (ts_entries s e)"
    using ready_fields [OF e] swfD(1) [OF wf, of e] by (simp add: wf_e_def)
  ultimately show ?thesis by (simp add: deferq_insert_def)
qed

lemma ready_stats [simp]: "ready (upd_estats x f s) d e = ready s d e" "ready (upd_gstats g h s) d e = ready s d e"
proof -
  have "GetTaskDeferEntrySeqno (upd_estats x f s) = GetTaskDeferEntrySeqno s"
    "GetTaskDeferEntrySeqno (upd_gstats g h s) = GetTaskDeferEntrySeqno s"
    by (auto simp: GetTaskDeferEntrySeqno_def upd_defs fun_eq_iff split: list.splits)
  then show "ready (upd_estats x f s) d e = ready s d e" "ready (upd_gstats g h s) d e = ready s d e"
    by (simp_all only: ready_def core_of_stats)
qed

lemma group_AddToDeferQ_ok:
  assumes wf: "swf s" and rd: "ready s (GroupQ g) e" and g: "group_live s g"
  obtains s' where "group_AddToDeferQ g e s = Some s'" "swf s'" "core_of s' = m_defer (GroupQ g) e (core_of s)"
    "same_db s s'" "ts_tasks s' = ts_tasks s"
proof -
  define s1 where "s1 = upd_gstats g (\<lambda>x. x\<lparr>st_defer_count := st_defer_count x + 1\<rparr>) s"
  define q where "q = insort_key (ckey (core_of s)) e (tg_deferq (ts_groups s g))"
  define s2 where "s2 = upd_entry e (\<lambda>x. x\<lparr>te_linked := True\<rparr>) s1"
  define s3 where "s3 = upd_group g (\<lambda>x. x\<lparr>tg_deferq := q\<rparr>) s2"
  define s' where "s' = upd_entry e (\<lambda>x. x\<lparr>te_dq_group := Some g\<rparr>) s3"
  have c1: "core_of s1 = core_of s" by (simp add: s1_def)
  have w1: "swf s1" unfolding s1_def by (rule wf_upd_gstats [OF wf g])
  have e1: "ts_entries s1 = ts_entries s" by (simp add: s1_def upd_defs)
  have ins: "deferq_insert e (tg_deferq (ts_groups s1 g)) s1 = Some (q, s2)"
    using deferq_insert_ok [of s1 "GroupQ g" e] rd w1 unfolding c1 s2_def q_def
    by (simp add: s1_def) (simp add: upd_defs)
  note fl = ready_fields(1,2) [OF rd] and wq = ready_fields(3) [OF rd]
  have al1: "alloc s1 e" using wq e1 by (intro busy_alloc(2) [OF w1]) simp
  have db: "same_db s s'" "same_db s s3" by (simp_all add: same_db_def s'_def s3_def s2_def s1_def)
  have s'_eq: "s' = upd_group g (\<lambda>x. x\<lparr>tg_deferq := q\<rparr>) (upd_entry e (\<lambda>x. x\<lparr>te_linked := True, te_dq_group := Some g\<rparr>) s1)"
    by (simp add: s'_def s3_def s2_def upd_defs)
  have w4: "swf (upd_entry e (\<lambda>x. x\<lparr>te_linked := True, te_dq_group := Some g\<rparr>) s1)"
    using w1 al1 fl swfD(1) [OF wf, of e] e1
    by (intro wf_upd_entry) (auto simp: wf_e_def)
  then have "swf s'" unfolding s'_eq using g swfD(2) [OF w4, of g]
    by (intro wf_upd_group) (auto simp: s1_def wf_g_def)
  moreover have "group_AddToDeferQ g e s = Some s'"
    unfolding group_AddToDeferQ_def Let_def s1_def [symmetric] ins
    using fl by (simp add: s'_def s3_def s2_def e1 upd_defs)
  moreover have "core_of s' = m_defer (GroupQ g) e (core_of s)"
    by (rule core_eqI) (auto simp: s'_def s3_def s2_def s1_def upd_defs m_defer_def own_of_def q_def)
  moreover have "ts_tasks s' = ts_tasks s" by (simp add: s'_def s3_def s2_def s1_def upd_defs)
  ultimately show ?thesis using that db(1) by blast
qed

lemma entry_AddToDeferQ_ok:
  assumes wf: "swf s" and rd: "ready s (EntryQ d) e" and d: "alloc s d"
  obtains s' where "entry_AddToDeferQ d e s = Some s'" "swf s'" "core_of s' = m_defer (EntryQ d) e (core_of s)"
    "same_db s s'" "ts_tasks s' = ts_tasks s"
proof -
  define s1 where "s1 = upd_estats d (\<lambda>x. x\<lparr>st_defer_count := st_defer_count x + 1\<rparr>) s"
  define q where "q = insort_key (ckey (core_of s)) e (te_deferq (ts_entries s d))"
  define s2 where "s2 = upd_entry e (\<lambda>x. x\<lparr>te_linked := True\<rparr>) s1"
  define s3 where "s3 = upd_entry d (\<lambda>x. x\<lparr>te_deferq := q\<rparr>) s2"
  define s' where "s' = upd_entry e (\<lambda>x. x\<lparr>te_dq_entry := Some d\<rparr>) s3"
  have c1: "core_of s1 = core_of s" by (simp add: s1_def)
  have w1: "swf s1" unfolding s1_def by (rule wf_upd_estats [OF wf d])
  have wq1: "te_waitq (ts_entries s1 x) = te_waitq (ts_entries s x)" "te_deferq (ts_entries s1 x) = te_deferq (ts_entries s x)"
    "te_dq_entry (ts_entries s1 x) = te_dq_entry (ts_entries s x)" "te_dq_group (ts_entries s1 x) = te_dq_group (ts_entries s x)" for x
    by (simp_all add: s1_def upd_defs)
  have ins: "deferq_insert e (te_deferq (ts_entries s1 d)) s1 = Some (q, s2)"
    using deferq_insert_ok [of s1 "EntryQ d" e] rd w1 unfolding c1 s2_def q_def by (simp add: wq1) (simp add: s1_def)
  note fl = ready_fields(1,2) [OF rd] and wq = ready_fields(3) [OF rd]
  have al: "alloc s e" by (rule busy_alloc(2) [OF wf wq])
  have db: "same_db s s'" "same_db s s1" by (simp_all add: same_db_def s'_def s3_def s2_def s1_def)
  define s4 where "s4 = upd_entry e (\<lambda>x. x\<lparr>te_linked := True, te_dq_entry := Some d\<rparr>) s1"
  have s'_eq: "s' = upd_entry d (\<lambda>x. x\<lparr>te_deferq := q\<rparr>) s4"
    by (auto simp: s'_def s3_def s2_def s4_def upd_defs fun_eq_iff)
  have w4: "swf s4" unfolding s4_def
    using w1 al fl swfD(1) [OF w1, of e] db(2) wq1
    by (intro wf_upd_entry) (auto simp: wf_e_def same_db_live)
  have "same_db s s4" by (simp add: same_db_def s4_def s1_def)
  then have "swf s'" unfolding s'_eq using w4 d swfD(1) [OF w4, of d]
    by (intro wf_upd_entry) (auto simp: wf_e_def same_db_live)
  moreover have "entry_AddToDeferQ d e s = Some s'"
    unfolding entry_AddToDeferQ_def Let_def s1_def [symmetric] ins
    using fl by (cases "e = d") (auto simp: s'_def s3_def s2_def wq1 upd_defs)
  moreover have "core_of s' = m_defer (EntryQ d) e (core_of s)"
    by (rule core_eqI) (auto simp: s'_def s3_def s2_def s1_def upd_defs m_defer_def own_of_def q_def fl)
  moreover have "ts_tasks s' = ts_tasks s" by (simp add: s'_def s3_def s2_def s1_def upd_defs)
  ultimately show ?thesis using that db(1) by blast
qed

lemma DeleteFromDeferQ_ok:
  assumes wf: "swf s" and own: "c_own (core_of s) e = Some d" and mem: "e \<in> set (c_dq (core_of s) d)" and al: "alloc s e"
  obtains s' where "DeleteFromDeferQ d e s = Some s'" "swf s'" "core_of s' = m_undefer d e (core_of s)"
    "same_db s s'" "ts_tasks s' = ts_tasks s"
proof -
  have we: "wf_e e (ts_entries s e)" by (rule swfD(1) [OF wf])
  show ?thesis
  proof (cases d)
    case (GroupQ g)
    define s' where "s' = upd_group g (\<lambda>x. x\<lparr>tg_deferq := remove1 e (tg_deferq x)\<rparr>)
      (upd_entry e (\<lambda>x. x\<lparr>te_linked := False, te_dq_group := None\<rparr>) s)"
    have o: "te_dq_group (ts_entries s e) = Some g" "te_dq_entry (ts_entries s e) = None"
      using own GroupQ we by (auto simp: own_of_Some wf_e_def)
    have g: "group_live s g"
    proof (rule ccontr)
      assume "\<not> group_live s g"
      then have "tg_deferq (ts_groups s g) = []" using swfD(3) [OF wf] by (simp add: mk_TaskGroup_def)
      then show False using mem GroupQ by simp
    qed
    have w1: "swf (upd_entry e (\<lambda>x. x\<lparr>te_linked := False, te_dq_group := None\<rparr>) s)"
      using wf al o we by (intro wf_upd_entry) (auto simp: wf_e_def)
    then have "swf s'" unfolding s'_def using g swfD(2) [OF w1, of g]
      by (intro wf_upd_group) (auto simp: wf_g_def)
    moreover have "DeleteFromDeferQ d e s = Some s'"
      using o mem GroupQ by (simp add: group_DeleteFromDeferQ_def s'_def upd_defs)
    moreover have "core_of s' = m_undefer d e (core_of s)"
      by (rule core_eqI) (auto simp: s'_def upd_defs m_undefer_def own_of_def GroupQ o)
    moreover have "same_db s s'" by (simp add: s'_def same_db_def)
    moreover have "ts_tasks s' = ts_tasks s" by (simp add: s'_def upd_defs)
    ultimately show ?thesis using that by blast
  next
    case (EntryQ x)
    define s1 where "s1 = upd_entry e (\<lambda>x. x\<lparr>te_linked := False, te_dq_entry := None\<rparr>) s"
    define s' where "s' = upd_entry x (\<lambda>x. x\<lparr>te_deferq := remove1 e (te_deferq x)\<rparr>) s1"
    have o: "te_dq_entry (ts_entries s e) = Some x" "te_dq_group (ts_entries s e) = None"
      using own EntryQ we by (auto simp: own_of_Some wf_e_def)
    have x: "alloc s x"
    proof (rule ccontr)
      assume "\<not> alloc s x"
      then have "te_deferq (ts_entries s x) = te_deferq (fresh_entry x)" using not_alloc_fresh [OF wf] by simp
      also have "\<dots> = []" by (cases x) (auto simp: mk_TaskEntry_def)
      finally show False using mem EntryQ by simp
    qed
    have w1: "swf s1" unfolding s1_def using wf al o we by (intro wf_upd_entry) (auto simp: wf_e_def)
    have "same_db s s1" by (simp add: s1_def same_db_def)
    then have "swf s'" unfolding s'_def using w1 x swfD(1) [OF w1, of x]
      by (intro wf_upd_entry) (auto simp: wf_e_def same_db_live)
    moreover have "DeleteFromDeferQ d e s = Some s'"
      using o mem EntryQ by (auto simp: entry_DeleteFromDeferQ_def s'_def s1_def upd_defs fun_eq_iff)
    moreover have "core_of s' = m_undefer d e (core_of s)"
      by (rule core_eqI) (auto simp: s'_def s1_def upd_defs m_undefer_def own_of_def EntryQ o)
    moreover have "same_db s s'" by (simp add: s'_def s1_def same_db_def)
    moreover have "ts_tasks s' = ts_tasks s" by (simp add: s'_def s1_def upd_defs)
    ultimately show ?thesis using that by blast
  qed
qed

section \<open>Starting tasks\<close>

lemma is_inst_ent_of: "is_inst (ent_of t) \<longleftrightarrow> tk_instance t \<noteq> -1"
  by (simp add: ent_of_def)

lemma eid_ent_of [simp]: "eid (ent_of t) = tk_id t"
  by (simp add: ent_of_def)

lemma live_group: "live s e \<Longrightarrow> group_live s (eid e)"
  by (cases e) auto

lemma same_dbI:
  "ts_group_db s' = ts_group_db s \<Longrightarrow> (\<And>g. tg_entry_db (ts_groups s' g) = tg_entry_db (ts_groups s g)) \<Longrightarrow> same_db s s'"
  by (simp add: same_db_def group_live_def inst_live_def fun_eq_iff)

lemma swf_cong:
  assumes "ts_group_db s' = ts_group_db s" "ts_groups s' = ts_groups s" "ts_entries s' = ts_entries s" "ts_tasks s' = ts_tasks s"
  shows "swf s' = swf s"
proof -
  have l: "group_live s' = group_live s" "inst_live s' = inst_live s"
    using assms by (simp_all add: group_live_def inst_live_def fun_eq_iff)
  have "wf_t s' = wf_t s" by (intro wf_t_cong live_cong l)
  then show ?thesis unfolding swf_def assms l by simp
qed

lemma StartTask_ok:
  assumes wf: "swf s" and t: "ts_tasks s r = Some t" "\<not> tk_impl t" "live s (ent_of t)"
  obtains s' where "StartTask r s = Some s'" "swf s'" "same_db s s'"
    "core_of s' = (core_of s)\<lparr>c_state := (c_state (core_of s))(r \<mapsto> RUN), c_tbb := c_tbb (core_of s) @ [r]\<rparr>"
    "ts_entries s' = ts_entries s" "ts_groups s' = ts_groups s"
proof -
  define n where "n = (if tk_enqueue_time t \<noteq> 0 then ts_clock s else tk_schedule_time t)"
  define t' where "t' = t\<lparr>tk_schedule_time := n, tk_state := RUN, tk_tbb_state := TBB_ENQUEUED, tk_impl := True\<rparr>"
  define log where "log = (if tk_enqueue_time t \<noteq> 0 \<and> sub64 (ts_clock s) (tk_enqueue_time t) > schedule_delay_of t s
    then ts_log s @ [(r, ''Schedule delay(in usec) '', sub64 (ts_clock s) (tk_enqueue_time t))] else ts_log s)"
  have s': "StartTask r s = Some (s\<lparr>ts_tasks := (ts_tasks s)(r \<mapsto> t'), ts_tbb := ts_tbb s @ [r], ts_log := log\<rparr>)"
    using t by (simp add: StartTask_def Let_def upd_task_def task_trace_def t'_def n_def log_def schedule_delay_of_def)
  define s1 where "s1 = upd_task r (\<lambda>_. t') s"
  have wt: "wf_t s t" by (rule swfD(7) [OF wf t(1)])
  have "swf s1" unfolding s1_def by (rule wf_upd_task [OF wf]) (use wt t in \<open>auto simp: wf_t_def t'_def ent_of_def split: if_splits\<close>)
  moreover define s2 where "s2 = s\<lparr>ts_tasks := (ts_tasks s)(r \<mapsto> t'), ts_tbb := ts_tbb s @ [r], ts_log := log\<rparr>"
  have "swf s2 = swf s1" by (rule swf_cong) (simp_all add: s1_def s2_def upd_defs t)
  moreover have "same_db s s2" by (rule same_dbI) (simp_all add: s2_def)
  moreover have "core_of s2 = (core_of s)\<lparr>c_state := (c_state (core_of s))(r \<mapsto> RUN), c_tbb := c_tbb (core_of s) @ [r]\<rparr>"
    by (rule core_eqI) (auto simp: s2_def t'_def t ent_of_def)
  ultimately show ?thesis using that s' unfolding s2_def by simp
qed

lemma RunTask_ok:
  assumes wf: "swf s" and t: "ts_tasks s r = Some t" "\<not> tk_impl t" "live s (ent_of t)" and e: "ent_of t = e"
    and inst: "is_inst e \<Longrightarrow> te_run_task (ts_entries s e) = None \<and> te_run_count (ts_entries s e) = 0"
  obtains s' where "RunTask e r s = Some s'" "swf s'" "same_db s s'" "core_of s' = m_run e r (core_of s)"
proof -
  define s1 where "s1 = upd_estats e (\<lambda>x. x\<lparr>st_run_count := st_run_count x + 1\<rparr>) s"
  define s2 where "s2 = upd_entry e (\<lambda>x. x\<lparr>te_run_task := (if is_inst e then Some r else te_run_task x),
    te_run_count := te_run_count x + 1\<rparr>) s1"
  define s3 where "s3 = TaskStarted (tk_id t) s2"
  have al: "alloc s e" using live_alloc t(3) e by simp
  have g: "group_live s (tk_id t)" using live_group [OF t(3)] by simp
  have db: "same_db s s1" "same_db s s2" "same_db s s3"
    by (simp_all add: same_db_def s3_def s2_def s1_def TaskStarted_def)
  have w1: "swf s1" unfolding s1_def by (rule wf_upd_estats [OF wf al])
  have w2: "swf s2" unfolding s2_def
    using w1 swfD(1) [OF w1, of e] al db(1) by (intro wf_upd_entry) (simp_all add: wf_e_def same_db_live)
  have w3: "swf s3" unfolding s3_def TaskStarted_def
    using w2 swfD(2) [OF w2, of "tk_id t"] g db(2) by (intro wf_upd_group) (simp_all add: wf_g_def same_db_live)
  have t3: "ts_tasks s3 r = Some t" using t by (simp add: s3_def s2_def s1_def TaskStarted_def upd_defs)
  obtain s' where s': "StartTask r s3 = Some s'" "swf s'" "same_db s3 s'"
    "core_of s' = (core_of s3)\<lparr>c_state := (c_state (core_of s3))(r \<mapsto> RUN), c_tbb := c_tbb (core_of s3) @ [r]\<rparr>"
    by (rule StartTask_ok [OF w3 t3 t(2)]) (use t(3) db(3) in \<open>simp_all add: same_db_live\<close>)
  have "is_inst e \<longleftrightarrow> tk_instance t \<noteq> -1" using e is_inst_ent_of by blast
  then have "RunTask e r s = StartTask r s3"
    using t g db(2) inst unfolding RunTask_def Let_def s1_def [symmetric]
    by (auto simp: s3_def same_db_live QueryTaskGroup_live)
      (auto simp: s2_def s1_def upd_defs comp_def QueryTaskGroup_def group_live_def)
  moreover have "core_of s3 = (core_of s)\<lparr>c_rce := (c_rce (core_of s))(e := c_rce (core_of s) e + 1),
      c_rcg := (c_rcg (core_of s))(eid e := c_rcg (core_of s) (eid e) + 1),
      c_rt := (if is_inst e then (c_rt (core_of s))(e \<mapsto> r) else c_rt (core_of s))\<rparr>"
    using e by (intro core_eqI) (auto simp: s3_def s2_def s1_def upd_defs TaskStarted_def own_of_def)
  then have "core_of s' = m_run e r (core_of s)" unfolding s'(4) m_run_def by simp
  ultimately show ?thesis using that s' same_db_trans [OF db(3)] by simp
qed

lemma waiting_task:
  assumes "swf s" "c_state (core_of s) r = Some WAIT"
  obtains t where "ts_tasks s r = Some t" "\<not> tk_impl t" "tk_state t = WAIT" "live s (ent_of t)" "c_ent (core_of s) r = ent_of t"
proof -
  obtain t where t: "ts_tasks s r = Some t" using assms(2) by (cases "ts_tasks s r") auto
  moreover have "tk_state t = WAIT" using assms(2) t by (auto split: if_splits)
  moreover have "wf_t s t" by (rule swfD(7) [OF assms(1) t])
  ultimately show ?thesis using that by (simp add: wf_t_def)
qed

text \<open>The start of the first waiting task.\<close>

lemma start_first_ok:
  assumes wf: "swf s" and r: "te_waitq (ts_entries s e) = r # rs" "c_state (core_of s) r = Some WAIT" "c_ent (core_of s) r = e"
    and inst: "is_inst e \<Longrightarrow> te_run_task (ts_entries s e) = None \<and> te_run_count (ts_entries s e) = 0"
  obtains s1 s' where "DeleteFromWaitQ e r s = Some s1" "RunTask e r s1 = Some s'" "swf s'" "same_db s s'"
    "core_of s' = m_start e r (core_of s)"
proof -
  obtain t where t: "ts_tasks s r = Some t" "\<not> tk_impl t" "live s (ent_of t)" "ent_of t = e"
    using waiting_task [OF wf r(2)] r(3) by metis
  obtain s1 where s1: "DeleteFromWaitQ e r s = Some s1" "swf s1" "core_of s1 = m_unwait e r (core_of s)" "same_db s s1"
    "ts_tasks s1 = ts_tasks s"
    by (rule DeleteFromWaitQ_ok [OF wf, of r e]) (use r in auto)
  have "c_rt (core_of s1) = c_rt (core_of s)" "c_rce (core_of s1) = c_rce (core_of s)" by (simp_all add: s1(3) m_unwait_def)
  then have inst1: "is_inst e \<Longrightarrow> te_run_task (ts_entries s1 e) = None \<and> te_run_count (ts_entries s1 e) = 0"
    using inst by (metis core_of_simps(5,7))
  obtain s' where s': "RunTask e r s1 = Some s'" "swf s'" "same_db s1 s'" "core_of s' = m_run e r (core_of s1)"
    by (rule RunTask_ok [OF s1(2), of r t e]) (use t s1 same_db_live inst1 in auto)
  show ?thesis using that [OF s1(1) s'(1,2) same_db_trans [OF s1(4) s'(3)]] s'(4) s1(3) by (simp add: m_start_def)
qed

lemma RunWaitQ_all_ok:
  assumes "swf s" "te_waitq (ts_entries s e) = rs" "\<not> is_inst e" "distinct rs"
    "\<And>r. r \<in> set rs \<Longrightarrow> c_state (core_of s) r = Some WAIT \<and> c_ent (core_of s) r = e"
  shows "\<exists>s'. RunWaitQ_all e s = Some s' \<and> swf s' \<and> same_db s s' \<and> core_of s' = fold (m_start e) rs (core_of s)"
  using assms
proof (induction rs arbitrary: s)
  case Nil
  then show ?case by (subst RunWaitQ_all.simps) simp
next
  case (Cons r rs)
  have r: "c_state (core_of s) r = Some WAIT" "c_ent (core_of s) r = e" using Cons.prems(5) by auto
  obtain s1 s2 where s2: "DeleteFromWaitQ e r s = Some s1" "RunTask e r s1 = Some s2" "swf s2" "same_db s s2"
    "core_of s2 = m_start e r (core_of s)"
    using start_first_ok [OF Cons.prems(1,2) r] Cons.prems(3) by blast
  have "c_waitq (core_of s2) e = rs" unfolding s2(5) using Cons.prems(2) by (simp add: move_defs)
  moreover have "c_state (core_of s2) q = Some WAIT \<and> c_ent (core_of s2) q = e" if "q \<in> set rs" for q
  proof -
    have "q \<noteq> r" using that Cons.prems(4) by auto
    then show ?thesis using that Cons.prems(5) [of q] unfolding s2(5) start_frame(4) by (simp add: start_frame(11) del: core_of_simps)
  qed
  ultimately obtain s' where "RunWaitQ_all e s2 = Some s'" "swf s'" "same_db s2 s'" "core_of s' = fold (m_start e) rs (core_of s2)"
    using Cons.IH [of s2] Cons.prems(3,4) s2(3) by (auto simp del: core_of_simps(10,12))
  then show ?case
    using s2 Cons.prems(2) same_db_trans [OF s2(4)] by (subst RunWaitQ_all.simps) simp
qed

lemma idle_inst:
  assumes "cinv F X c" "free c e" "is_inst e" "plain e"
  shows "c_rt c e = None" "c_rce c e = 0"
proof -
  show 0: "c_rce c e = 0" using assms unfolding cinv_def p_ok_def free_def by blast
  have ro: "r_ok c" using assms(1) by (simp add: cinv_def)
  have "length (filter (\<lambda>r. c_ent c r = e) (c_tbb c)) = 0" using ro 0 unfolding r_ok_def by metis
  then have "\<not> (r \<in> set (c_tbb c) \<and> c_ent c r = e)" for r by (auto simp: filter_empty_conv)
  then show "c_rt c e = None" using ro assms(3) unfolding r_ok_def by (metis not_Some_eq)
qed

lemma RunWaitQ_ok:
  assumes wf: "swf s" and inv: "cinv {e} X (core_of s)" and w: "te_waitq (ts_entries s e) \<noteq> []" and fr: "free (core_of s) e"
  obtains s' where "RunWaitQ e s = Some s'" "swf s'" "same_db s s'" "place e (core_of s) (core_of s')"
proof -
  have wo: "w_ok (core_of s)" and p: "p_ok (core_of s)" and ro: "r_ok (core_of s)" using inv by (auto simp: cinv_def)
  have plain: "plain e" using plain_waiting [OF wo] w by simp
  have ok: "ok_start (core_of s) e" by (rule free_ok_start [OF fr p plain ro])
  obtain r rs where rs: "te_waitq (ts_entries s e) = r # rs" using w by (cases "te_waitq (ts_entries s e)") auto
  have mem: "c_state (core_of s) q = Some WAIT \<and> c_ent (core_of s) q = e" if "q \<in> set (r # rs)" for q
    using w_okD(2) [OF wo, of q e] that rs by (simp del: core_of_simps(10,12))
  have ti: "te_task_instance (ts_entries s e) = einst e" using swfD(1) [OF wf, of e] by (simp add: wf_e_def)
  show ?thesis
  proof (cases "is_inst e")
    case True
    then have ni: "te_task_instance (ts_entries s e) \<noteq> -1" using ti plain by (cases e) auto
    have "is_inst e \<Longrightarrow> te_run_task (ts_entries s e) = None \<and> te_run_count (ts_entries s e) = 0"
      using idle_inst [OF inv fr True plain] by simp
    then obtain s1 s2 where s2: "DeleteFromWaitQ e r s = Some s1" "RunTask e r s1 = Some s2" "swf s2" "same_db s s2"
      "core_of s2 = m_start e r (core_of s)"
      using start_first_ok [OF wf rs] mem [of r] by auto
    have "c_waitq (core_of s2) e = rs" unfolding s2(5) using rs by (simp add: move_defs)
    then have wq: "te_waitq (ts_entries s2 e) = rs" by simp
    show ?thesis
    proof (cases rs)
      case Nil
      then have "RunWaitQ e s = Some s2" using rs s2 ni wq by (simp add: RunWaitQ_def)
      moreover have "place e (core_of s) (core_of s2)"
        unfolding s2(5) by (rule run_last [OF fr True]) (use rs Nil in simp)
      ultimately show ?thesis using that s2 by blast
    next
      case (Cons q qs)
      have "cinv {e} X (core_of s2)" unfolding s2(5) by (rule cinv_start [OF inv _ _ ok, of r rs]) (use rs in auto)
      moreover have "alloc s2 e" using wq Cons by (intro busy_alloc(2) [OF s2(3)]) simp
      ultimately obtain s3 where s3: "entry_AddToDeferQ e e s2 = Some s3" "swf s3"
        "core_of s3 = m_defer (EntryQ e) e (core_of s2)" "same_db s2 s3"
        using entry_AddToDeferQ_ok [OF s2(3) cinv_ready [of "{e}" X s2 e], of e] wq Cons by auto
      then have "RunWaitQ e s = Some s3" using rs s2 ni wq Cons by (simp add: RunWaitQ_def)
      moreover have "place e (core_of s) (core_of s3)"
        unfolding s2(5) s3(3) by (rule run_first [OF fr True, of r q qs]) (use rs Cons in simp)
      ultimately show ?thesis using that s3 s2(4) same_db_trans by blast
    qed
  next
    case False
    have "sorted_wrt (\<lambda>a b. c_seq (core_of s) a < c_seq (core_of s) b) (r # rs)" using w_okD(1) [OF wo, of e] rs by simp
    then have "distinct (r # rs)" by (rule sorted_distinct)
    then obtain s' where s': "RunWaitQ_all e s = Some s'" "swf s'" "same_db s s'" "core_of s' = fold (m_start e) (r # rs) (core_of s)"
      using RunWaitQ_all_ok [OF wf rs False _ mem] by blast
    moreover have "te_task_instance (ts_entries s e) = -1" using ti False by (cases e) auto
    moreover have "place e (core_of s) (core_of s')"
      unfolding s'(4) using run_all [OF fr False] rs by simp
    ultimately show ?thesis using that rs by (simp add: RunWaitQ_def)
  qed
qed

lemma ActiveGroup_None:
  "ActiveGroupInPolicy g s = None \<longleftrightarrow> (\<forall>h \<in> c_polg (core_of s) g. c_rcg (core_of s) h = 0)"
  by (auto simp: ActiveGroupInPolicy_def find_None_iff)

lemma ActiveEntry_None:
  "ActiveEntryInPolicy e s = None \<longleftrightarrow> (\<forall>f \<in> c_pole (core_of s) e. c_rce (core_of s) f = 0)"
  by (auto simp: ActiveEntryInPolicy_def find_None_iff)

lemma ActiveGroup_Some:
  "ActiveGroupInPolicy g s = Some h \<Longrightarrow> h \<in> c_polg (core_of s) g \<and> c_rcg (core_of s) h \<noteq> 0"
  by (auto simp: ActiveGroupInPolicy_def find_Some_iff)

lemma ActiveEntry_Some:
  "ActiveEntryInPolicy e s = Some f \<Longrightarrow> f \<in> c_pole (core_of s) e \<and> c_rce (core_of s) f \<noteq> 0"
  by (auto simp: ActiveEntryInPolicy_def find_Some_iff)

lemma RunDeferEntry_ok:
  assumes wf: "swf s" and inv: "cinv {e} X (core_of s)" and w: "te_waitq (ts_entries s e) \<noteq> []"
  obtains s' where "RunDeferEntry e s = Some s'" "swf s'" "same_db s s'" "place e (core_of s) (core_of s')"
proof -
  have wo: "w_ok (core_of s)" using inv by (simp add: cinv_def)
  have plain: "plain e" using plain_waiting [OF wo] w by simp
  have id: "te_task_id (ts_entries s e) = eid e" using swfD(1) [OF wf, of e] by (simp add: wf_e_def)
  have "alloc s e" by (rule busy_alloc(2) [OF wf w])
  then have g: "group_live s (eid e)" using plain busy_alloc(4) [OF wf] by (cases e) auto
  show ?thesis
  proof (cases "ActiveGroupInPolicy (eid e) s")
    case (Some h)
    then have b: "blocked_by (core_of s) e (GroupQ h)" using ActiveGroup_Some [OF Some] by (simp add: blocked_by_def)
    obtain s1 where s1: "group_AddToDeferQ h e s = Some s1" "swf s1" "core_of s1 = m_defer (GroupQ h) e (core_of s)" "same_db s s1"
      by (rule group_AddToDeferQ_ok [OF wf cinv_ready [OF inv _ w], of h]) (use busy_alloc(3) [OF wf] ActiveGroup_Some [OF Some] in auto)
    then have "RunDeferEntry e s = Some s1"
      using w Some GetTaskGroup_live [OF g] by (simp add: RunDeferEntry_def Let_def id group_DeferOnPolicyFail_def)
    then show ?thesis using that s1 deferred [OF b] by simp
  next
    case None: None
    show ?thesis
    proof (cases "ActiveEntryInPolicy e s")
      case (Some f)
      then have b: "blocked_by (core_of s) e (EntryQ f)" using ActiveEntry_Some [OF Some] by (simp add: blocked_by_def)
      obtain s1 where s1: "entry_AddToDeferQ f e s = Some s1" "swf s1" "core_of s1 = m_defer (EntryQ f) e (core_of s)" "same_db s s1"
        by (rule entry_AddToDeferQ_ok [OF wf cinv_ready [OF inv _ w], of f]) (use busy_alloc(1) [OF wf] ActiveEntry_Some [OF Some] in auto)
      then have "RunDeferEntry e s = Some s1"
        using w Some None GetTaskGroup_live [OF g]
        by (simp add: RunDeferEntry_def Let_def id group_DeferOnPolicyFail_def entry_DeferOnPolicyFail_def)
      then show ?thesis using that s1 deferred [OF b] by simp
    next
      case no: None
      have "free (core_of s) e" using ActiveGroup_None [of "eid e" s] ActiveEntry_None [of e s] None no by (simp add: free_def)
      then obtain s1 where s1: "RunWaitQ e s = Some s1" "swf s1" "same_db s s1" "place e (core_of s) (core_of s1)"
        by (rule RunWaitQ_ok [OF wf inv w])
      then have "RunDeferEntry e s = Some s1"
        using w no None GetTaskGroup_live [OF g]
        by (simp add: RunDeferEntry_def Let_def id group_DeferOnPolicyFail_def entry_DeferOnPolicyFail_def)
      then show ?thesis using that s1 by simp
    qed
  qed
qed

section \<open>Running the queues\<close>

lemma place_still:
  assumes inv: "cinv {e} X c" and pl: "place e c c'" and o: "c_own c' e \<noteq> Some d" and zs: "set zs \<subseteq> set (c_dq c d)"
  shows "c_dq c' d = c_dq c d" "wsum c' zs = wsum c zs"
proof -
  show "c_dq c' d = c_dq c d" using place_dq [OF pl] o by (metis fun_upd_apply)
  have "e \<notin> set (c_dq c d)" using inv dq_waitq by (fastforce simp: cinv_def)
  then have "c_waitq c' x = c_waitq c x" if "x \<in> set zs" for x
    using that zs place_waitq(1) [OF pl, of x] by blast
  then show "wsum c' zs = wsum c zs" unfolding wsum_def by (simp cong: map_cong)
qed

lemma place_cursors:
  assumes inv: "cinv {e} X c" and w: "c_waitq c e \<noteq> []" and pl: "place e c c'" and d: "d1 \<noteq> d2"
    and q: "c_dq c d1 = xs @ ys" "c_dq c d2 = us @ vs"
    and later: "\<forall>y \<in> set ys \<union> set vs. ckey c e < ckey c y"
  shows "\<exists>xs' ys' us' vs'. c_dq c' d1 = xs' @ ys' \<and> it_begin ys' = it_begin ys \<and> set ys \<subseteq> set ys' \<and>
    c_dq c' d2 = us' @ vs' \<and> it_begin vs' = it_begin vs \<and> set vs \<subseteq> set vs' \<and>
    wsum c' ys' + wsum c' vs' < wsum c ys + wsum c vs + length (c_waitq c e)"
proof (cases "c_own c' e = Some d1")
  case True
  then have "c_dq c' d2 = us @ vs" "wsum c' vs = wsum c vs"
    using place_still [OF inv pl, of d2 vs] d q by auto
  moreover have "\<exists>xs' ys'. c_dq c' d1 = xs' @ ys' \<and> it_begin ys' = it_begin ys \<and> set ys \<subseteq> set ys' \<and>
      wsum c' ys' < wsum c ys + length (c_waitq c e)"
    by (rule place_cursor [OF inv w pl q(1)]) (use later in auto)
  ultimately show ?thesis by (metis add.commute add.left_commute add_less_cancel_left subset_refl)
next
  case False
  then have "c_dq c' d1 = xs @ ys" "wsum c' ys = wsum c ys"
    using place_still [OF inv pl, of d1 ys] q by auto
  moreover have "\<exists>us' vs'. c_dq c' d2 = us' @ vs' \<and> it_begin vs' = it_begin vs \<and> set vs \<subseteq> set vs' \<and>
      wsum c' vs' < wsum c vs + length (c_waitq c e)"
    by (rule place_cursor [OF inv w pl q(2)]) (use later in auto)
  ultimately show ?thesis by (metis add.assoc add_less_cancel_left subset_refl)
qed

lemma deferq_core [simp]: "deferq_of s d = c_dq (core_of s) d"
  by (cases d) auto

lemma wsum_undefer [simp]: "wsum (m_undefer d e c) = wsum c" "ckey (m_undefer d e c) = ckey c"
  by (auto simp: wsum_def ckey_def undefer_fields fun_eq_iff)

text \<open>One entry is taken out of its queue and placed again.\<close>

lemma rerun_ok:
  assumes wf: "swf s" and inv: "cinv {} X (core_of s)" and own: "e \<in> set (c_dq (core_of s) d)"
  obtains s1 s2 where "DeleteFromDeferQ d e s = Some s1" "RunDeferEntry e s1 = Some s2" "swf s2" "same_db s s2"
    "cinv {} (X - {e}) (core_of s2)" "moved (core_of s) (core_of s2)"
    "cinv {e} (X - {e}) (m_undefer d e (core_of s))" "place e (m_undefer d e (core_of s)) (core_of s2)"
    "c_waitq (core_of s) e \<noteq> []"
proof -
  have o: "c_own (core_of s) e = Some d" using inv own unfolding cinv_def q_ok_def by blast
  have w: "c_waitq (core_of s) e \<noteq> []" using inv dq_waitq own by (fastforce simp: cinv_def simp del: core_of_simps)
  obtain s1 where s1: "DeleteFromDeferQ d e s = Some s1" "swf s1" "core_of s1 = m_undefer d e (core_of s)" "same_db s s1"
    by (rule DeleteFromDeferQ_ok [OF wf o own]) (use busy_alloc(2) [OF wf, of e] w in simp_all)
  have i1: "cinv {e} (X - {e}) (core_of s1)" unfolding s1(3) by (rule cinv_undefer [OF inv o])
  have w1: "te_waitq (ts_entries s1 e) \<noteq> []"
  proof -
    have "c_waitq (core_of s1) = c_waitq (core_of s)" unfolding s1(3) by (simp add: undefer_fields)
    with w show ?thesis by (metis core_of_simps(1))
  qed
  obtain s2 where s2: "RunDeferEntry e s1 = Some s2" "swf s2" "same_db s1 s2" "place e (core_of s1) (core_of s2)"
    by (rule RunDeferEntry_ok [OF s1(2) i1 w1])
  have "cinv {} (X - {e}) (core_of s2)" by (rule cinv_place [OF i1 _ s2(4)]) (use w1 in simp)
  moreover have "moved (core_of s1) (core_of s2)" using moved_place [OF _ s2(4)] i1 by (simp add: cinv_def)
  then have "moved (core_of s) (core_of s2)" unfolding s1(3) by (rule moved_trans [OF moved_undefer(1)])
  ultimately show ?thesis
    using that [OF s1(1) s2(1,2) same_db_trans [OF s1(4) s2(3)]] i1 s2(4) w unfolding s1(3) by blast
qed

lemma it_next_split: "x \<notin> set xs \<Longrightarrow> it_next (xs @ x # ys) x = it_begin ys"
  by (induction xs) auto

lemma dq_distinct: "q_ok F c \<Longrightarrow> distinct (c_dq c d)"
  unfolding q_ok_def using sorted_distinct by blast

lemma dq_later: "q_ok F c \<Longrightarrow> c_dq c d = xs @ e # ys \<Longrightarrow> \<forall>y \<in> set ys. ckey c e < ckey c y"
  unfolding q_ok_def by (metis sorted_wrt.simps(2) sorted_wrt_append)

lemma undefer_split:
  assumes "q_ok F c" "c_dq c d = xs @ e # ys"
  shows "c_dq (m_undefer d e c) d = xs @ ys" "it_next (c_dq c d) e = it_begin ys" "e \<notin> set xs \<union> set ys"
proof -
  have "distinct (xs @ e # ys)" using dq_distinct [OF assms(1), of d] assms(2) by simp
  then show "c_dq (m_undefer d e c) d = xs @ ys" "it_next (c_dq c d) e = it_begin ys" "e \<notin> set xs \<union> set ys"
    using assms(2) by (auto simp: m_undefer_def remove1_append it_next_split)
qed

lemma RunDeferQ_loop_ok:
  assumes "swf s" "cinv {} X (core_of s)" "c_dq (core_of s) d = xs @ ys" "X \<subseteq> set ys"
  shows "\<exists>s'. RunDeferQ_loop d (it_begin ys) s = Some s' \<and> swf s' \<and> same_db s s' \<and> cinv {} {} (core_of s') \<and>
    moved (core_of s) (core_of s')"
  using assms
proof (induction "wsum (core_of s) ys" arbitrary: s X xs ys rule: less_induct)
  case less
  show ?case
  proof (cases ys)
    case Nil
    then show ?thesis using less.prems by (subst RunDeferQ_loop.simps) (auto simp: it_begin_def)
  next
    case (Cons e zs)
    have q: "q_ok {} (core_of s)" using less.prems by (simp add: cinv_def)
    have split: "c_dq (core_of s) d = xs @ e # zs" using less.prems Cons by simp
    note u = undefer_split [OF q split]
    have e: "e \<in> set (c_dq (core_of s) d)" using split by simp
    obtain s1 s2 where s2: "DeleteFromDeferQ d e s = Some s1" "RunDeferEntry e s1 = Some s2" "swf s2" "same_db s s2"
      "cinv {} (X - {e}) (core_of s2)" "moved (core_of s) (core_of s2)"
      "cinv {e} (X - {e}) (m_undefer d e (core_of s))" "place e (m_undefer d e (core_of s)) (core_of s2)"
      "c_waitq (core_of s) e \<noteq> []"
      by (rule rerun_ok [OF less.prems(1,2) e])
    have "\<exists>xs' ys'. c_dq (core_of s2) d = xs' @ ys' \<and> it_begin ys' = it_begin zs \<and> set zs \<subseteq> set ys' \<and>
        wsum (core_of s2) ys' < wsum (m_undefer d e (core_of s)) zs + length (c_waitq (m_undefer d e (core_of s)) e)"
      by (rule place_cursor [OF s2(7) _ s2(8) u(1)]) (use dq_later [OF q split] s2(9) in \<open>simp_all add: undefer_fields del: core_of_simps\<close>)
    then obtain xs' ys' where ys': "c_dq (core_of s2) d = xs' @ ys'" "it_begin ys' = it_begin zs" "set zs \<subseteq> set ys'"
      "wsum (core_of s2) ys' < wsum (core_of s) ys"
      unfolding Cons by (auto simp: undefer_fields) (auto simp: wsum_def)
    obtain s' where "RunDeferQ_loop d (it_begin ys') s2 = Some s'" "swf s'" "same_db s2 s'" "cinv {} {} (core_of s')"
      "moved (core_of s2) (core_of s')"
      using less.hyps [OF ys'(4) s2(3,5) ys'(1)] ys'(3) less.prems(4) Cons by auto
    moreover from this have "RunDeferQ_loop d (Some e) s = Some s'"
      using s2(1,2) u(2) ys'(2) by (subst RunDeferQ_loop.simps) simp
    ultimately show ?thesis
      using Cons same_db_trans [OF s2(4)] moved_trans [OF s2(6)] by (auto simp: it_begin_def)
  qed
qed

lemma RunDeferQ_all_ok:
  assumes "swf s" "cinv {} X (core_of s)" "X \<subseteq> set (c_dq (core_of s) d)"
  shows "\<exists>s'. RunDeferQ_loop d (it_begin (c_dq (core_of s) d)) s = Some s' \<and> swf s' \<and> same_db s s' \<and>
    cinv {} {} (core_of s') \<and> moved (core_of s) (core_of s')"
  using RunDeferQ_loop_ok [OF assms(1,2) _ assms(3), of d "[]"] by simp

text \<open>One step of the loop over two queues.\<close>

lemma rerun_two_ok:
  assumes wf: "swf s" and inv: "cinv {} X (core_of s)" and d: "d1 \<noteq> d2"
    and q: "c_dq (core_of s) d1 = xs @ e # ys" "c_dq (core_of s) d2 = us @ f # vs"
    and less: "ckey (core_of s) e < ckey (core_of s) f" and X: "X \<subseteq> set (e # ys) \<union> set (f # vs)"
  obtains s1 s2 xs' ys' us' vs' where "DeleteFromDeferQ d1 e s = Some s1" "RunDeferEntry e s1 = Some s2"
    "swf s2" "same_db s s2" "cinv {} (X - {e}) (core_of s2)" "moved (core_of s) (core_of s2)"
    "it_next (c_dq (core_of s) d1) e = it_begin ys'" "it_begin vs' = Some f" "X - {e} \<subseteq> set ys' \<union> set vs'"
    "c_dq (core_of s2) d1 = xs' @ ys'" "c_dq (core_of s2) d2 = us' @ vs'"
    "wsum (core_of s2) ys' + wsum (core_of s2) vs' < wsum (core_of s) (e # ys) + wsum (core_of s) (f # vs)"
proof -
  let ?c = "m_undefer d1 e (core_of s)"
  have qo: "q_ok {} (core_of s)" using inv by (simp add: cinv_def)
  note u = undefer_split [OF qo q(1)]
  have e: "e \<in> set (c_dq (core_of s) d1)" using q by simp
  obtain s1 s2 where s2: "DeleteFromDeferQ d1 e s = Some s1" "RunDeferEntry e s1 = Some s2" "swf s2" "same_db s s2"
    "cinv {} (X - {e}) (core_of s2)" "moved (core_of s) (core_of s2)" "cinv {e} (X - {e}) ?c" "place e ?c (core_of s2)"
    "c_waitq (core_of s) e \<noteq> []"
    by (rule rerun_ok [OF wf inv e])
  have q2: "c_dq ?c d2 = us @ f # vs" using d q(2) by (simp add: m_undefer_def)
  have later: "\<forall>y \<in> set ys \<union> set (f # vs). ckey ?c e < ckey ?c y"
    using dq_later [OF qo q(1)] dq_later [OF qo q(2)] less by auto
  have "\<exists>xs' ys' us' vs'. c_dq (core_of s2) d1 = xs' @ ys' \<and> it_begin ys' = it_begin ys \<and> set ys \<subseteq> set ys' \<and>
    c_dq (core_of s2) d2 = us' @ vs' \<and> it_begin vs' = it_begin (f # vs) \<and> set (f # vs) \<subseteq> set vs' \<and>
    wsum (core_of s2) ys' + wsum (core_of s2) vs' < wsum ?c ys + wsum ?c (f # vs) + length (c_waitq ?c e)"
    by (rule place_cursors [OF s2(7) _ s2(8) d u(1) q2 later]) (use s2(9) in \<open>simp add: undefer_fields\<close>)
  then obtain xs' ys' us' vs' where r: "c_dq (core_of s2) d1 = xs' @ ys'" "it_begin ys' = it_begin ys" "set ys \<subseteq> set ys'"
    "c_dq (core_of s2) d2 = us' @ vs'" "it_begin vs' = it_begin (f # vs)" "set (f # vs) \<subseteq> set vs'"
    "wsum (core_of s2) ys' + wsum (core_of s2) vs' < wsum ?c ys + wsum ?c (f # vs) + length (c_waitq ?c e)" by metis
  show ?thesis
  proof (rule that [OF s2(1-6), of ys' vs' xs' us'])
    show "it_next (c_dq (core_of s) d1) e = it_begin ys'" using u(2) r(2) by simp
    show "it_begin vs' = Some f" using r(5) by (simp add: it_begin_def)
    show "X - {e} \<subseteq> set ys' \<union> set vs'" using X r(3,6) by auto
    show "wsum (core_of s2) ys' + wsum (core_of s2) vs' < wsum (core_of s) (e # ys) + wsum (core_of s) (f # vs)"
      using r(7) by (simp add: undefer_fields) (simp add: wsum_def)
  qed (use r in simp_all)
qed

lemma Cmp_core:
  assumes "cinv F X (core_of s)" "a \<in> set (c_dq (core_of s) d)" "b \<in> set (c_dq (core_of s) d')"
  shows "TaskDeferEntryCmp s a b \<longleftrightarrow> ckey (core_of s) a < ckey (core_of s) b"
proof -
  have w: "w_ok (core_of s)" and q: "q_ok F (core_of s)" using assms(1) by (auto simp: cinv_def)
  have "GetTaskDeferEntrySeqno s a = Some (ckey (core_of s) a)" "GetTaskDeferEntrySeqno s b = Some (ckey (core_of s) b)"
    using dq_waitq [OF q assms(2)] dq_waitq [OF q assms(3)] by (intro GetTaskDeferEntrySeqno_eq [OF w]; simp)+
  then show ?thesis by (simp add: TaskDeferEntryCmp_def)
qed

lemma RunCombined_end:
  "i = None \<or> j = None \<Longrightarrow> RunCombined_loop g d i j s = Some (i, j, s)"
  by (subst RunCombined_loop.simps) (auto split: option.splits)

lemma RunCombined_loop_ok:
  assumes "swf s" "cinv {} X (core_of s)" "c_dq (core_of s) (GroupQ g) = xs @ ys" "c_dq (core_of s) (EntryQ d) = us @ vs"
    "X \<subseteq> set ys \<union> set vs"
  shows "\<exists>s' X' xs' ys' us' vs'. RunCombined_loop g d (it_begin ys) (it_begin vs) s = Some (it_begin ys', it_begin vs', s') \<and>
    swf s' \<and> same_db s s' \<and> moved (core_of s) (core_of s') \<and> cinv {} X' (core_of s') \<and> X' \<subseteq> set ys' \<union> set vs' \<and>
    c_dq (core_of s') (GroupQ g) = xs' @ ys' \<and> c_dq (core_of s') (EntryQ d) = us' @ vs' \<and> (ys' = [] \<or> vs' = [])"
  using assms
proof (induction "wsum (core_of s) ys + wsum (core_of s) vs" arbitrary: s X xs ys us vs rule: less_induct)
  case less
  note pr = less.prems
  consider (one) "ys = [] \<or> vs = []" | (two) e ys' f vs' where "ys = e # ys'" "vs = f # vs'"
    by (cases ys; cases vs) auto
  then show ?case
  proof cases
    case two
    have mem: "e \<in> set (c_dq (core_of s) (GroupQ g))" "f \<in> set (c_dq (core_of s) (EntryQ d))" using pr two by auto
    have qo: "q_ok {} (core_of s)" and wo: "w_ok (core_of s)" using pr(2) by (auto simp: cinv_def)
    have cmp: "TaskDeferEntryCmp s e f \<longleftrightarrow> ckey (core_of s) e < ckey (core_of s) f" by (rule Cmp_core [OF pr(2) mem])
    show ?thesis
    proof (cases "ckey (core_of s) e < ckey (core_of s) f")
      case True
      obtain s1 s2 xs2 ys2 us2 vs2 where s2: "DeleteFromDeferQ (GroupQ g) e s = Some s1" "RunDeferEntry e s1 = Some s2"
        "swf s2" "same_db s s2" "cinv {} (X - {e}) (core_of s2)" "moved (core_of s) (core_of s2)"
        "it_next (c_dq (core_of s) (GroupQ g)) e = it_begin ys2" "it_begin vs2 = Some f" "X - {e} \<subseteq> set ys2 \<union> set vs2"
        "c_dq (core_of s2) (GroupQ g) = xs2 @ ys2" "c_dq (core_of s2) (EntryQ d) = us2 @ vs2"
        "wsum (core_of s2) ys2 + wsum (core_of s2) vs2 < wsum (core_of s) (e # ys') + wsum (core_of s) (f # vs')"
        by (rule rerun_two_ok [OF pr(1,2), of "GroupQ g" "EntryQ d" xs e ys' us f vs']) (use pr two True in auto)
      have "RunCombined_loop g d (it_begin ys) (it_begin vs) s = RunCombined_loop g d (it_begin ys2) (it_begin vs2) s2"
        using s2(1,2,7,8) two cmp True by (subst RunCombined_loop.simps) (simp add: it_begin_def)
      with less.hyps [OF _ s2(3,5,10,11,9)] s2(12) two show ?thesis
        using same_db_trans [OF s2(4)] moved_trans [OF s2(6)] by metis
    next
      case False
      have "e \<noteq> f" using mem qo unfolding q_ok_def by (metis dq_owner.distinct(1) option.inject)
      moreover have "ckey (core_of s) e = ckey (core_of s) f \<Longrightarrow> e = f"
        using ckey_inj [OF wo] dq_waitq [OF qo mem(1)] dq_waitq [OF qo mem(2)] by blast
      ultimately have lt: "ckey (core_of s) f < ckey (core_of s) e" using False by linarith
      obtain s1 s2 us2 vs2 xs2 ys2 where s2: "DeleteFromDeferQ (EntryQ d) f s = Some s1" "RunDeferEntry f s1 = Some s2"
        "swf s2" "same_db s s2" "cinv {} (X - {f}) (core_of s2)" "moved (core_of s) (core_of s2)"
        "it_next (c_dq (core_of s) (EntryQ d)) f = it_begin vs2" "it_begin ys2 = Some e" "X - {f} \<subseteq> set vs2 \<union> set ys2"
        "c_dq (core_of s2) (EntryQ d) = us2 @ vs2" "c_dq (core_of s2) (GroupQ g) = xs2 @ ys2"
        "wsum (core_of s2) vs2 + wsum (core_of s2) ys2 < wsum (core_of s) (f # vs') + wsum (core_of s) (e # ys')"
        by (rule rerun_two_ok [OF pr(1,2), of "EntryQ d" "GroupQ g" us f vs' xs e ys']) (use pr two lt in auto)
      have "RunCombined_loop g d (it_begin ys) (it_begin vs) s = RunCombined_loop g d (it_begin ys2) (it_begin vs2) s2"
        using s2(1,2,7,8) two cmp False by (subst RunCombined_loop.simps) (simp add: it_begin_def)
      moreover have "X - {f} \<subseteq> set ys2 \<union> set vs2" using s2(9) by blast
      ultimately show ?thesis
        using less.hyps [OF _ s2(3,5,11,10)] s2(12) two same_db_trans [OF s2(4)] moved_trans [OF s2(6)]
        by (metis add.commute)
    qed
  next
    case one
    then have "RunCombined_loop g d (it_begin ys) (it_begin vs) s = Some (it_begin ys, it_begin vs, s)"
      by (intro RunCombined_end) (auto simp: it_begin_def)
    then show ?thesis using pr one moved_refl same_db_refl by blast
  qed
qed

lemma RunCombinedDeferQ_ok:
  assumes "swf s" "cinv {} X (core_of s)" "group_live s (eid e)"
    "X \<subseteq> set (c_dq (core_of s) (GroupQ (eid e))) \<union> set (c_dq (core_of s) (EntryQ e))"
  shows "\<exists>s'. RunCombinedDeferQ e s = Some s' \<and> swf s' \<and> same_db s s' \<and> cinv {} {} (core_of s') \<and> moved (core_of s) (core_of s')"
proof -
  have id: "te_task_id (ts_entries s e) = eid e" using swfD(1) [OF assms(1)] by (simp add: wf_e_def)
  obtain s1 X' xs ys us vs where s1: "RunCombined_loop (eid e) e (it_begin (c_dq (core_of s) (GroupQ (eid e))))
      (it_begin (c_dq (core_of s) (EntryQ e))) s = Some (it_begin ys, it_begin vs, s1)"
    "swf s1" "same_db s s1" "moved (core_of s) (core_of s1)" "cinv {} X' (core_of s1)" "X' \<subseteq> set ys \<union> set vs"
    "c_dq (core_of s1) (GroupQ (eid e)) = xs @ ys" "c_dq (core_of s1) (EntryQ e) = us @ vs" "ys = [] \<or> vs = []"
    using RunCombined_loop_ok [OF assms(1,2), of "eid e" "[]" "c_dq (core_of s) (GroupQ (eid e))" e "[]" "c_dq (core_of s) (EntryQ e)"]
      assms(4) unfolding append_Nil by metis
  consider "ys = []" "vs = []" | "ys \<noteq> []" "vs = []" | "ys = []" "vs \<noteq> []" using s1(9) by blast
  then show ?thesis
  proof cases
    case 1
    then show ?thesis using s1 QueryTaskGroup_live [OF assms(3)]
      by (auto simp: RunCombinedDeferQ_def id Let_def it_begin_def)
  next
    case 2
    then have "X' \<subseteq> set (c_dq (core_of s1) (GroupQ (eid e)))" using s1(6,7) by auto
    from RunDeferQ_all_ok [OF s1(2,5) this] obtain s' where
      "group_RunDeferQ (eid e) s1 = Some s'" "swf s'" "same_db s1 s'" "cinv {} {} (core_of s')" "moved (core_of s1) (core_of s')"
      by (auto simp: group_RunDeferQ_def)
    moreover have "it_begin ys \<noteq> None" using 2 by (auto simp: it_begin_def split: list.splits)
    ultimately show ?thesis using s1(1) QueryTaskGroup_live [OF assms(3)] same_db_trans [OF s1(3)] moved_trans [OF s1(4)]
      by (auto simp: RunCombinedDeferQ_def id Let_def)
  next
    case 3
    then have "X' \<subseteq> set (c_dq (core_of s1) (EntryQ e))" using s1(6,8) by auto
    from RunDeferQ_all_ok [OF s1(2,5) this] obtain s' where
      "entry_RunDeferQ e s1 = Some s'" "swf s'" "same_db s1 s'" "cinv {} {} (core_of s')" "moved (core_of s1) (core_of s')"
      by (auto simp: entry_RunDeferQ_def)
    moreover have "it_begin ys = None" "it_begin vs \<noteq> None" using 3 by (auto simp: it_begin_def split: list.splits)
    ultimately show ?thesis using s1(1) QueryTaskGroup_live [OF assms(3)] same_db_trans [OF s1(3)] moved_trans [OF s1(4)]
      by (auto simp: RunCombinedDeferQ_def id Let_def)
  qed
qed

section \<open>The exit of a task\<close>

definition m_count :: "entry_ref \<Rightarrow> core \<Rightarrow> core" where
  "m_count e c = c\<lparr>c_rce := (c_rce c)(e := c_rce c e - 1), c_rcg := (c_rcg c)(eid e := c_rcg c (eid e) - 1),
     c_rt := (if is_inst e then (c_rt c)(e := None) else c_rt c)\<rparr>"

lemma entry_TaskExited_ok:
  assumes wf: "swf s" and lv: "live s e" "plain e"
    and inst: "is_inst e \<Longrightarrow> te_run_task (ts_entries s e) = Some r \<and> te_run_count (ts_entries s e) = 1"
    and inv: "cinv {} (woken e (m_count e (core_of s))) (m_count e (core_of s))"
  shows "\<exists>s'. entry_TaskExited e r (eid e) s = Some s' \<and> swf s' \<and> same_db s s' \<and> cinv {} {} (core_of s') \<and>
    moved (m_count e (core_of s)) (core_of s')"
proof -
  define s1 where "s1 = upd_entry e (\<lambda>x. x\<lparr>te_run_task := (if is_inst e then None else te_run_task x), te_run_count := te_run_count x - 1\<rparr>) s"
  define s2 where "s2 = upd_estats e (\<lambda>x. x\<lparr>st_total_tasks_completed := st_total_tasks_completed x + 1,
                                st_last_exit_time := ts_utc s1\<rparr>) s1"
  define s3 where "s3 = group_TaskExited (eid e) s2"
  have al: "alloc s e" by (rule live_alloc [OF lv(1)])
  have gl: "group_live s (eid e)" by (rule live_group [OF lv(1)])
  have db: "same_db s s1" "same_db s s2" "same_db s s3"
    by (simp_all add: same_db_def s3_def s2_def s1_def group_TaskExited_def)
  have w1: "swf s1" unfolding s1_def
    using wf swfD(1) [OF wf, of e] al by (intro wf_upd_entry) (simp_all add: wf_e_def)
  have w2: "swf s2" unfolding s2_def by (rule wf_upd_estats [OF w1]) (use al db in \<open>simp add: same_db_live\<close>)
  have w3: "swf s3" unfolding s3_def group_TaskExited_def
    using w2 swfD(2) [OF w2, of "eid e"] gl db(2)
    by (intro wf_upd_gstats wf_upd_group) (simp_all add: wf_g_def same_db_live)
  have c3: "core_of s3 = m_count e (core_of s)"
    by (rule core_eqI) (auto simp: s3_def s2_def s1_def group_TaskExited_def upd_defs m_count_def own_of_def)
  have ti: "te_task_instance (ts_entries s e) = einst e" using swfD(1) [OF wf, of e] by (simp add: wf_e_def)
  have "te_task_instance (ts_entries s e) \<noteq> -1 \<longleftrightarrow> is_inst e" using lv(2) ti by (cases e) auto
  then have run: "entry_TaskExited e r (eid e) s =
    (if tg_run_count (ts_groups s3 (eid e)) = 0 \<and> te_run_count (ts_entries s3 e) = 0 then RunCombinedDeferQ e s3
     else if tg_run_count (ts_groups s3 (eid e)) = 0 then group_RunDeferQ (eid e) s3
     else if te_run_count (ts_entries s3 e) = 0 then entry_RunDeferQ e s3 else Some s3)"
    unfolding entry_TaskExited_def s3_def s2_def s1_def Let_def using inst
    by (cases "is_inst e") (simp_all add: upd_entry_def)
  let ?g = "c_rcg (core_of s3) (eid e) = 0" and ?e = "c_rce (core_of s3) e = 0"
  have i3: "cinv {} (woken e (core_of s3)) (core_of s3)" using inv c3 by simp
  consider "?g" "?e" | "?g" "\<not> ?e" | "\<not> ?g" "?e" | "\<not> ?g" "\<not> ?e" by blast
  then have "\<exists>s'. entry_TaskExited e r (eid e) s = Some s' \<and> swf s' \<and> same_db s3 s' \<and> cinv {} {} (core_of s') \<and>
    moved (core_of s3) (core_of s')"
  proof cases
    case 1
    then show ?thesis unfolding run
      using RunCombinedDeferQ_ok [OF w3 i3] gl db(3) by (simp add: woken_def same_db_live)
  next
    case 2
    then show ?thesis unfolding run group_RunDeferQ_def
      using RunDeferQ_all_ok [OF w3 i3, of "GroupQ (eid e)"] by (simp add: woken_def)
  next
    case 3
    then show ?thesis unfolding run entry_RunDeferQ_def
      using RunDeferQ_all_ok [OF w3 i3, of "EntryQ e"] by (simp add: woken_def)
  next
    case 4
    then show ?thesis unfolding run using w3 i3 by (auto simp: woken_def)
  qed
  then show ?thesis using same_db_trans [OF db(3)] unfolding c3 by blast
qed

text \<open>A task that leaves the state without waiting or running.\<close>

lemma forget_task_ok:
  assumes wf: "swf s" and inv: "cinv {} {} (core_of s)" and r: "c_state (core_of s) r \<notin> {Some WAIT, Some RUN}"
  shows "swf (s\<lparr>ts_tasks := (ts_tasks s)(r := None)\<rparr>)" "cinv {} {} (core_of (s\<lparr>ts_tasks := (ts_tasks s)(r := None)\<rparr>))"
proof -
  let ?s = "s\<lparr>ts_tasks := (ts_tasks s)(r := None)\<rparr>"
  have l: "group_live ?s = group_live s" "inst_live ?s = inst_live s" by (simp_all add: group_live_def inst_live_def fun_eq_iff)
  have "wf_t ?s = wf_t s" by (intro wf_t_cong live_cong l)
  then show "swf ?s"
    by (intro swfI; simp add: l del: fresh_entry.simps) (use swfD [OF wf] in \<open>auto simp del: fresh_entry.simps split: if_splits\<close>)
  have "core_of ?s = m_task r None 0 StopEntry (c_seqno (core_of s)) (core_of s)"
    by (rule core_eqI) (auto simp: m_task_def)
  then show "cinv {} {} (core_of ?s)" using cinv_task [OF inv r] by simp
qed

section \<open>Enqueue\<close>

inductive enq :: "entry_ref \<Rightarrow> task_ref \<Rightarrow> core \<Rightarrow> core \<Rightarrow> bool" for e r c where
  behind: "c_waitq c e \<noteq> [] \<Longrightarrow> enq e r c (m_wait e r c)"
| stopped: "c_waitq c e = [] \<Longrightarrow> \<not> c_running c \<Longrightarrow> enq e r c (m_defer (EntryQ StopEntry) e (m_wait e r c))"
| blocked: "c_waitq c e = [] \<Longrightarrow> c_running c \<Longrightarrow> blocked_by c e d \<Longrightarrow> enq e r c (m_defer d e (m_wait e r c))"
| run: "c_waitq c e = [] \<Longrightarrow> c_running c \<Longrightarrow> free c e \<Longrightarrow> enq e r c (m_run e r c)"

lemma blocked_active:
  assumes "blocked_by c e d" "p_ok c"
  shows "active c d e"
proof -
  have "StopEntry \<notin> c_pole c e" using assms(2) unfolding p_ok_def by blast
  then show ?thesis using assms(1) by (cases d) (auto simp: blocked_by_def)
qed

lemma m_wait_frame: "c_rce (m_wait e r c) = c_rce c" "c_rcg (m_wait e r c) = c_rcg c" "c_pole (m_wait e r c) = c_pole c"
  "c_polg (m_wait e r c) = c_polg c" "c_running (m_wait e r c) = c_running c" "p_ok (m_wait e r c) = p_ok c"
  "active (m_wait e r c) d x = active c d x" "blocked_by (m_wait e r c) x d = blocked_by c x d"
  by (cases d; simp add: m_wait_def p_ok_def blocked_by_def)+

lemma cinv_enq:
  assumes inv: "cinv {} {} c" and r: "fresh_seq c r" "c_ent c r = e" "plain e" and c': "enq e r c c'"
  shows "cinv {} {} c'"
  using c'
proof cases
  case behind
  then show ?thesis using cinv_wait [OF inv r(1,2)] by simp
next
  case stopped
  have "cinv {e} {} (m_wait e r c)" using cinv_wait [OF inv r(1,2)] stopped by simp
  from cinv_defer [OF this, of e "EntryQ StopEntry"] show ?thesis
    using stopped by (simp add: m_wait_frame del: active.simps) (simp add: m_wait_def)
next
  case (blocked d)
  have "cinv {e} {} (m_wait e r c)" using cinv_wait [OF inv r(1,2)] blocked by simp
  from cinv_defer [OF this, of e d] show ?thesis
    using blocked blocked_active [of c e d] inv by (simp add: m_wait_frame cinv_def del: active.simps) (simp add: m_wait_def)
next
  case run
  have "ok_start c e" by (rule free_ok_start [OF run(4)]) (use inv r in \<open>simp_all add: cinv_def\<close>)
  then show ?thesis unfolding run(1) by (intro cinv_run_new [OF inv]) (use r in \<open>simp_all add: fresh_seq_def\<close>)
qed

lemma EnqueueUnLocked_prefix:
  assumes wf: "swf s" and t: "ts_tasks s r = Some t" "tk_state t = INIT" "tk_seqno t = 0" and n: "ts_seqno s + 1 < 2 ^ 64"
  obtains s' t' where "swf s'" "live s' (ent_of t)" "ts_tasks s' r = Some t'" "ent_of t' = ent_of t" "tk_state t' = INIT"
    "core_of s' = m_task r (Some INIT) (ts_seqno s + 1) (ent_of t) (ts_seqno s + 1) (core_of s)"
    "\<And>x. live s x \<Longrightarrow> live s' x"
    "EnqueueUnLocked r s =
      (if length (te_waitq (ts_entries s' (ent_of t))) \<noteq> 0 then AddToWaitQ (ent_of t) r s'
       else if ts_running s' = False then do {
         s \<leftarrow> AddToWaitQ (ent_of t) r s';
         entry_AddToDeferQ StopEntry (ent_of t) s
       }
       else do {
         (deferred, s) \<leftarrow> group_DeferOnPolicyFail (tk_id t) (ent_of t) r s';
         if deferred then Some s
         else do {
           (deferred, s) \<leftarrow> entry_DeferOnPolicyFail (ent_of t) r s;
           if deferred then Some s else RunTask (ent_of t) r s
         }
       })"
proof -
  let ?e = "ent_of t" and ?g = "tk_id t"
  have wt: "wf_t s t" by (rule swfD(7) [OF wf t(1)])
  have g0: "0 \<le> ?g" and i0: "tk_instance t = -1 \<or> 0 \<le> tk_instance t" using wt by (auto simp: wf_t_def ent_of_def split: if_splits)
  have e_eq: "(if tk_instance t = -1 then GroupEntry ?g else InstEntry ?g (tk_instance t)) = ?e" by (simp add: ent_of_def)
  define ta where "ta = t\<lparr>tk_enqueue_time := (if ts_measure_delay s then ts_clock s else tk_enqueue_time t), tk_seqno := ts_seqno s + 1\<rparr>"
  define s1 where "s1 = upd_task r (\<lambda>_. ta) s"
  define s2 where "s2 = s1\<lparr>ts_enqueue_count := ts_enqueue_count s + 1, ts_seqno := ts_seqno s + 1\<rparr>"
  have w1: "swf s1" unfolding s1_def by (rule wf_upd_task [OF wf]) (use wt t in \<open>auto simp: wf_t_def ta_def ent_of_def\<close>)
  have w2: "swf s2" using w1 swf_cong [of s2 s1] by (simp add: s2_def)
  obtain db where db: "GetTaskGroup ?g s2 = Some (s2\<lparr>ts_group_db := db\<rparr>)"
    "\<And>h. group_live (s2\<lparr>ts_group_db := db\<rparr>) h \<longleftrightarrow> h = ?g \<or> group_live s2 h"
    using GetTaskGroup_ok [OF w2 g0] by metis
  define s3 where "s3 = s2\<lparr>ts_group_db := db\<rparr>"
  have w3: "swf s3" unfolding s3_def by (rule wf_GetTaskGroup [OF w2]) (use db(2) in blast)
  have g3: "group_live s3 ?g" using db(2) by (simp add: s3_def)
  have l12: "group_live s2 = group_live s" "inst_live s2 = inst_live s"
    by (simp_all add: group_live_def inst_live_def s2_def s1_def upd_defs fun_eq_iff)
  have l3: "live s x \<Longrightarrow> live s3 x" for x
    using db(2) by (cases x) (simp_all add: s3_def [symmetric] l12, simp_all add: s3_def l12)
  define tb where "tb = ta\<lparr>tk_schedule_delay := tg_schedule_delay (ts_groups s3 ?g), tk_execute_delay := tg_execute_delay (ts_groups s3 ?g)\<rparr>"
  define s4 where "s4 = upd_task r (\<lambda>_. tb) s3"
  define s5 where "s5 = upd_gstats ?g (\<lambda>x. x\<lparr>st_enqueue_count := st_enqueue_count x + 1\<rparr>) s4"
  have t3: "ts_tasks s3 r = Some ta" using t by (simp add: s3_def s2_def s1_def upd_defs)
  have w4: "swf s4" unfolding s4_def
    by (rule wf_upd_task [OF w3]) (use swfD(7) [OF w3 t3] in \<open>auto simp: wf_t_def tb_def ent_of_def\<close>)
  have w5: "swf s5" unfolding s5_def by (rule wf_upd_gstats [OF w4]) (use g3 in \<open>simp add: s4_def\<close>)
  have g5: "group_live s5 ?g" and l5: "live s x \<Longrightarrow> live s5 x" for x
    using g3 l3 live_cong [of s5 s3] by (simp_all add: s5_def s4_def)
  obtain s6 where s6: "group_GetTaskEntry ?g (tk_instance t) s5 = Some (?e, s6)" "swf s6" "core_of s6 = core_of s5"
    "\<And>x. live s5 x \<Longrightarrow> live s6 x" "live s6 ?e" "ts_tasks s6 = ts_tasks s5"
    using group_GetTaskEntry_ok [OF w5 g5 i0] unfolding e_eq by metis
  define s7 where "s7 = upd_estats ?e (\<lambda>x. x\<lparr>st_enqueue_count := st_enqueue_count x + 1\<rparr>) s6"
  have w7: "swf s7" unfolding s7_def by (rule wf_upd_estats [OF s6(2) live_alloc [OF s6(5)]])
  have l7: "live s7 = live s6" by (intro live_cong) (simp_all add: s7_def)
  have t7: "ts_tasks s7 r = Some tb" using t3 s6(6) by (simp add: s7_def s5_def s4_def upd_defs)
  have "core_of s5 = m_task r (Some INIT) (ts_seqno s + 1) ?e (ts_seqno s + 1) (core_of s)"
    using t wt by (intro core_eqI) (auto simp: s5_def s4_def s3_def s2_def s1_def tb_def ta_def upd_defs m_task_def ent_of_def wf_t_def)
  then have c7: "core_of s7 = m_task r (Some INIT) (ts_seqno s + 1) ?e (ts_seqno s + 1) (core_of s)"
    using s6(3) by (simp add: s7_def)
  have nd: "\<not> tg_disable (ts_groups s7 ?g)" "\<not> te_disable (ts_entries s7 ?e)"
    using swfD(1) [OF w7, of ?e] swfD(2) [OF w7, of ?g] by (simp_all add: wf_e_def wf_g_def)
  have u: "u64 (ts_seqno s + 1) = ts_seqno s + 1" using n by (simp add: u64_def)
  let ?s = "if ts_measure_delay s then upd_task r (\<lambda>t. t\<lparr>tk_enqueue_time := ts_clock s\<rparr>) s else s"
  have pre: "upd_task r (\<lambda>t. t\<lparr>tk_seqno := ts_seqno (?s\<lparr>ts_enqueue_count := ts_enqueue_count ?s + 1, ts_seqno := u64 (ts_seqno ?s + 1)\<rparr>)\<rparr>)
      (?s\<lparr>ts_enqueue_count := ts_enqueue_count ?s + 1, ts_seqno := u64 (ts_seqno ?s + 1)\<rparr>) = s2"
    using t u by (cases "ts_measure_delay s") (simp_all add: s2_def s1_def ta_def upd_defs)
  obtain t0 where t0: "ts_tasks ?s r = Some t0" "tk_seqno t0 = 0" "tk_id t0 = ?g" "tk_instance t0 = tk_instance t"
    using t by (cases "ts_measure_delay s") (simp_all add: upd_defs)
  have mid: "upd_gstats ?g (\<lambda>x. x\<lparr>st_enqueue_count := st_enqueue_count x + 1\<rparr>)
      (upd_task r (\<lambda>t. t\<lparr>tk_schedule_delay := tg_schedule_delay (ts_groups s3 ?g), tk_execute_delay := tg_execute_delay (ts_groups s3 ?g)\<rparr>) s3) = s5"
    using t3 by (simp add: s5_def s4_def tb_def upd_task_def)
  show ?thesis
  proof (rule that [OF w7 _ t7 _ _ c7])
    show "live s7 ?e" "\<And>x. live s x \<Longrightarrow> live s7 x" using s6(4,5) l5 l7 by simp_all
    show "ent_of tb = ?e" "tk_state tb = INIT" using t by (simp_all add: tb_def ta_def ent_of_def)
  qed (use nd t0(2) in \<open>simp only: EnqueueUnLocked_def Let_def pre t0 db(1) s3_def [symmetric] mid GetTaskEntry_def
      GetTaskGroup_live [OF g5] s6(1) s7_def [symmetric] Option.bind.bind_lunit cpp_assert_True prod.case if_False HOL.simp_thms\<close>)
qed

lemma defer_new_ok:
  assumes wf: "swf s" and inv: "cinv {} {} (core_of s)" and fs: "fresh_seq (core_of s) r" "c_waitq (core_of s) e = []"
    and t: "ts_tasks s r = Some t" "ent_of t = e" "tk_state t = INIT" and lv: "live s e"
    and d: "case d of GroupQ h \<Rightarrow> group_live s h | EntryQ f \<Rightarrow> alloc s f"
  shows "\<exists>s1 s'. AddToWaitQ e r s = Some s1 \<and> swf s' \<and> core_of s' = m_defer d e (m_wait e r (core_of s)) \<and>
    (case d of GroupQ h \<Rightarrow> group_AddToDeferQ h e s1 | EntryQ f \<Rightarrow> entry_AddToDeferQ f e s1) = Some s'"
proof -
  obtain s1 where s1: "AddToWaitQ e r s = Some s1" "swf s1" "core_of s1 = m_wait e r (core_of s)" "same_db s s1"
    by (rule AddToWaitQ_ok [OF wf t lv])
  have ent: "c_ent (core_of s) r = e" using t by simp
  have i1: "cinv {e} {} (core_of s1)" unfolding s1(3) using cinv_wait [OF inv fs(1) ent] fs(2) by simp
  have "c_waitq (core_of s1) e \<noteq> []" unfolding s1(3) by (simp add: m_wait_def)
  then have rd: "ready s1 d e" by (intro cinv_ready [OF i1]) simp_all
  show ?thesis
  proof (cases d)
    case (GroupQ h)
    obtain s' where s': "group_AddToDeferQ h e s1 = Some s'" "swf s'" "core_of s' = m_defer (GroupQ h) e (core_of s1)" "same_db s1 s'"
      by (rule group_AddToDeferQ_ok [OF s1(2), of h e]) (use rd GroupQ d same_db_live(3) [OF s1(4)] in auto)
    show ?thesis using s1(1,3) s' GroupQ by simp
  next
    case (EntryQ f)
    obtain s' where s': "entry_AddToDeferQ f e s1 = Some s'" "swf s'" "core_of s' = m_defer (EntryQ f) e (core_of s1)" "same_db s1 s'"
      by (rule entry_AddToDeferQ_ok [OF s1(2), of f e]) (use rd EntryQ d same_db_live(2) [OF s1(4)] in auto)
    show ?thesis using s1(1,3) s' EntryQ by simp
  qed
qed

lemma fresh_seq_task:
  assumes "w_ok c" "c_state c r = Some INIT"
  shows "fresh_seq (m_task r (Some INIT) (Suc (c_seqno c)) e (Suc (c_seqno c)) c) r"
  using w_okD(3) [OF assms(1)] assms(2) by (auto simp: fresh_seq_def m_task_def less_Suc_eq_le)

lemma EnqueueUnLocked_ok:
  assumes wf: "swf s" and inv: "cinv {} {} (core_of s)"
    and t: "ts_tasks s r = Some t" "tk_state t = INIT" "tk_seqno t = 0" and n: "ts_seqno s + 1 < 2 ^ 64"
  shows "\<exists>s'. EnqueueUnLocked r s = Some s' \<and> swf s' \<and>
    enq (ent_of t) r (m_task r (Some INIT) (ts_seqno s + 1) (ent_of t) (ts_seqno s + 1) (core_of s)) (core_of s')"
proof -
  let ?e = "ent_of t" and ?c = "m_task r (Some INIT) (ts_seqno s + 1) (ent_of t) (ts_seqno s + 1) (core_of s)"
  have wt: "wf_t s t" by (rule swfD(7) [OF wf t(1)])
  have st: "c_state (core_of s) r = Some INIT" using t wt by (simp add: wf_t_def)
  obtain s1 t1 where s1: "swf s1" "live s1 ?e" "ts_tasks s1 r = Some t1" "ent_of t1 = ?e" "tk_state t1 = INIT" "core_of s1 = ?c"
    "EnqueueUnLocked r s =
      (if length (te_waitq (ts_entries s1 ?e)) \<noteq> 0 then AddToWaitQ ?e r s1
       else if ts_running s1 = False then do {
         s \<leftarrow> AddToWaitQ ?e r s1;
         entry_AddToDeferQ StopEntry ?e s
       }
       else do {
         (deferred, s) \<leftarrow> group_DeferOnPolicyFail (tk_id t) ?e r s1;
         if deferred then Some s
         else do {
           (deferred, s) \<leftarrow> entry_DeferOnPolicyFail ?e r s;
           if deferred then Some s else RunTask ?e r s
         }
       })"
    by (rule EnqueueUnLocked_prefix [OF wf t n])
  have i1: "cinv {} {} (core_of s1)"
    unfolding s1(6) by (rule cinv_task [OF inv]) (use st wt in \<open>auto simp: wf_t_def simp del: core_of_simps(10)\<close>)
  have fs: "fresh_seq (core_of s1) r" unfolding s1(6) using fresh_seq_task [of "core_of s" r ?e] st inv by (simp add: cinv_def del: core_of_simps(10))
  show ?thesis
  proof (cases "te_waitq (ts_entries s1 ?e) = []")
    case False
    obtain s' where "AddToWaitQ ?e r s1 = Some s'" "swf s'" "core_of s' = m_wait ?e r (core_of s1)"
      by (rule AddToWaitQ_ok [OF s1(1,3-5,2)])
    then show ?thesis unfolding s1(7) s1(6) [symmetric] using False enq.behind [of "core_of s1" ?e r] by auto
  next
    case wq: True
    note dnew = defer_new_ok [OF s1(1) i1 fs _ s1(3-5,2)]
    show ?thesis
    proof (cases "ts_running s1")
      case False
      obtain sa s' where "AddToWaitQ ?e r s1 = Some sa" "swf s'" "core_of s' = m_defer (EntryQ StopEntry) ?e (m_wait ?e r (core_of s1))"
        "entry_AddToDeferQ StopEntry ?e sa = Some s'"
        using dnew [of "EntryQ StopEntry"] wq by auto
      then show ?thesis unfolding s1(7) s1(6) [symmetric] using False wq enq.stopped [of "core_of s1" ?e r] by auto
    next
      case run: True
      show ?thesis
      proof (cases "ActiveGroupInPolicy (tk_id t) s1")
        case (Some h)
        have b: "blocked_by (core_of s1) ?e (GroupQ h)" using ActiveGroup_Some [OF Some] by (simp add: blocked_by_def)
        obtain sa s' where "AddToWaitQ ?e r s1 = Some sa" "swf s'" "core_of s' = m_defer (GroupQ h) ?e (m_wait ?e r (core_of s1))"
          "group_AddToDeferQ h ?e sa = Some s'"
          using dnew [of "GroupQ h"] wq busy_alloc(3) [OF s1(1)] ActiveGroup_Some [OF Some] by auto
        then show ?thesis unfolding s1(7) s1(6) [symmetric]
          using run wq Some enq.blocked [of "core_of s1" ?e "GroupQ h" r] b by (auto simp: group_DeferOnPolicyFail_def)
      next
        case ng: None
        show ?thesis
        proof (cases "ActiveEntryInPolicy ?e s1")
          case (Some f)
          have b: "blocked_by (core_of s1) ?e (EntryQ f)" using ActiveEntry_Some [OF Some] by (simp add: blocked_by_def)
          obtain sa s' where "AddToWaitQ ?e r s1 = Some sa" "swf s'" "core_of s' = m_defer (EntryQ f) ?e (m_wait ?e r (core_of s1))"
            "entry_AddToDeferQ f ?e sa = Some s'"
            using dnew [of "EntryQ f"] wq busy_alloc(1) [OF s1(1)] ActiveEntry_Some [OF Some] by auto
          then show ?thesis unfolding s1(7) s1(6) [symmetric]
            using run wq ng Some enq.blocked [of "core_of s1" ?e "EntryQ f" r] b
            by (auto simp: group_DeferOnPolicyFail_def entry_DeferOnPolicyFail_def)
        next
          case no: None
          have fr: "free (core_of s1) ?e" using ActiveGroup_None [of "tk_id t" s1] ActiveEntry_None [of ?e s1] ng no by (simp add: free_def)
          have plain: "plain ?e" using wt by (simp add: wf_t_def)
          have ni: "\<not> tk_impl t1" using swfD(7) [OF s1(1,3)] s1(5) by (simp add: wf_t_def)
          have l1: "live s1 (ent_of t1)" using s1(2,4) by simp
          obtain s' where "RunTask ?e r s1 = Some s'" "swf s'" "core_of s' = m_run ?e r (core_of s1)"
            by (rule RunTask_ok [OF s1(1,3) ni l1 s1(4)]) (use idle_inst [OF i1 fr _ plain] in simp_all)
          then show ?thesis unfolding s1(7) s1(6) [symmetric]
            using run wq ng no enq.run [of "core_of s1" ?e r] fr
            by (auto simp: group_DeferOnPolicyFail_def entry_DeferOnPolicyFail_def)
        qed
      qed
    qed
  qed
qed

text \<open>The state stays good.\<close>

definition good :: "sched \<Rightarrow> bool" where
  "good s = (swf s \<and> cinv {} {} (core_of s))"

lemma Enqueue_good:
  assumes "good s" "ts_tasks s r = Some t" "tk_state t = INIT" "tk_seqno t = 0" "ts_seqno s + 1 < 2 ^ 64"
  shows "\<exists>s'. EnqueueUnLocked r s = Some s' \<and> good s' \<and>
    enq (ent_of t) r (m_task r (Some INIT) (ts_seqno s + 1) (ent_of t) (ts_seqno s + 1) (core_of s)) (core_of s')"
proof -
  have wf: "swf s" and inv: "cinv {} {} (core_of s)" using assms(1) by (auto simp: good_def)
  have wt: "wf_t s t" by (rule swfD(7) [OF wf assms(2)])
  have st: "c_state (core_of s) r = Some INIT" using assms wt by (simp add: wf_t_def)
  let ?c = "m_task r (Some INIT) (ts_seqno s + 1) (ent_of t) (ts_seqno s + 1) (core_of s)"
  have i1: "cinv {} {} ?c" by (rule cinv_task [OF inv]) (use st wt in \<open>auto simp: wf_t_def simp del: core_of_simps(10)\<close>)
  have fs: "fresh_seq ?c r" using fresh_seq_task [of "core_of s" r "ent_of t"] st inv by (simp add: cinv_def del: core_of_simps(10))
  have "c_ent ?c r = ent_of t" "plain (ent_of t)" using wt by (simp_all add: m_task_def wf_t_def)
  then show ?thesis using EnqueueUnLocked_ok [OF wf inv assms(2-5)] cinv_enq [OF i1 fs] by (auto simp: good_def)
qed

section \<open>Exit, start and stop\<close>

lemma goodD: "good s \<Longrightarrow> swf s" "good s \<Longrightarrow> cinv {} {} (core_of s)"
  by (simp_all add: good_def)

lemma ent_of_cong: "tk_id t = tk_id q \<Longrightarrow> tk_instance t = tk_instance q \<Longrightarrow> ent_of t = ent_of q"
  by (simp add: ent_of_def)

text \<open>What a running task is.\<close>

lemma running_task:
  assumes "good s" "r \<in> set (ts_tbb s)"
  obtains t where "ts_tasks s r = Some t" "tk_state t = RUN" "tk_tbb_state t \<noteq> TBB_DONE" "live s (ent_of t)" "plain (ent_of t)"
    "c_state (core_of s) r = Some RUN" "c_ent (core_of s) r = ent_of t"
    "is_inst (ent_of t) \<Longrightarrow> te_run_task (ts_entries s (ent_of t)) = Some r \<and> te_run_count (ts_entries s (ent_of t)) = 1"
proof -
  have ro: "r_ok (core_of s)" using goodD(2) [OF assms(1)] by (simp add: cinv_def)
  have st: "c_state (core_of s) r = Some RUN" using ro assms(2) by (auto simp: r_ok_def simp del: core_of_simps(10))
  then obtain t where t: "ts_tasks s r = Some t" by (cases "ts_tasks s r") auto
  have rt: "tk_state t = RUN" "tk_tbb_state t \<noteq> TBB_DONE" using st t by (auto split: if_splits)
  have wt: "wf_t s t" by (rule swfD(7) [OF goodD(1) [OF assms(1)] t])
  have "c_rt (core_of s) (ent_of t) = Some r \<and> c_rce (core_of s) (ent_of t) = 1" if i: "is_inst (ent_of t)"
  proof -
    have "r \<in> set (filter (\<lambda>q. c_ent (core_of s) q = ent_of t) (c_tbb (core_of s)))" using assms(2) t by simp
    then have "0 < length (filter (\<lambda>q. c_ent (core_of s) q = ent_of t) (c_tbb (core_of s)))" by (rule length_pos_if_in_set)
    then have "0 < c_rce (core_of s) (ent_of t)" using ro unfolding r_ok_def by metis
    moreover have "c_rce (core_of s) (ent_of t) \<le> 1" using ro i unfolding r_ok_def by blast
    moreover have "c_rt (core_of s) (ent_of t) = Some r \<longleftrightarrow> r \<in> set (c_tbb (core_of s)) \<and> c_ent (core_of s) r = ent_of t"
      using ro i unfolding r_ok_def by blast
    ultimately show ?thesis using assms(2) t by simp
  qed
  then show ?thesis using that [OF t rt] wt rt st t by (simp add: wf_t_def)
qed

lemma OnTaskExit_good:
  assumes g: "good s" and r: "r \<in> set (ts_tbb s)" and n: "ts_seqno s + 1 < 2 ^ 64"
    and t0: "ts_tasks s r = Some t"
  shows "\<exists>s' c. OnTaskExit r s = Some s' \<and> good s' \<and> moved (m_exit (ent_of t) r (core_of s)) c \<and>
    (if tk_recycle t = False \<or> tk_cancel t = True then core_of s' = m_task r None 0 StopEntry (ts_seqno s) c
     else enq (ent_of t) r (m_task r (Some INIT) (ts_seqno s + 1) (ent_of t) (ts_seqno s + 1) c) (core_of s'))"
proof -
  have t: "ts_tasks s r = Some t" "tk_state t = RUN" "tk_tbb_state t \<noteq> TBB_DONE" "live s (ent_of t)" "plain (ent_of t)"
    "c_state (core_of s) r = Some RUN" "c_ent (core_of s) r = ent_of t"
    "is_inst (ent_of t) \<Longrightarrow> te_run_task (ts_entries s (ent_of t)) = Some r \<and> te_run_count (ts_entries s (ent_of t)) = 1"
    using running_task [OF g r] t0 by (metis option.inject)+
  let ?e = "ent_of t"
  define s1 where "s1 = upd_task r (\<lambda>t. t\<lparr>tk_tbb_state := TBB_DONE\<rparr>) (s\<lparr>ts_done_count := ts_done_count s + 1, ts_tbb := remove1 r (ts_tbb s)\<rparr>)"
  note wf = goodD(1) [OF g] and inv = goodD(2) [OF g]
  have wt: "wf_t s t" by (rule swfD(7) [OF wf t(1)])
  have l1: "group_live s1 = group_live s" "inst_live s1 = inst_live s"
    by (simp_all add: group_live_def inst_live_def s1_def upd_defs fun_eq_iff)
  have lv: "live s1 ?e" using t(4) live_cong [OF l1] by simp
  have "swf (upd_task r (\<lambda>t. t\<lparr>tk_tbb_state := TBB_DONE\<rparr>) s)"
    by (rule wf_upd_task [OF wf]) (use t(1,2) wt in \<open>auto simp: wf_t_def ent_of_def split: if_splits\<close>)
  then have w1: "swf s1" by (subst swf_cong [of s1 "upd_task r (\<lambda>t. t\<lparr>tk_tbb_state := TBB_DONE\<rparr>) s"]) (simp_all add: s1_def upd_defs)
  have c1: "m_count ?e (core_of s1) = m_exit ?e r (core_of s)"
    by (rule core_eqI) (auto simp: s1_def upd_defs m_count_def m_exit_def t(1) ent_of_def)
  have "c_state (core_of s) r = Some RUN" by (rule t(6))
  have rin: "r \<in> set (c_tbb (core_of s))" using r by simp
  have "\<exists>s'. entry_TaskExited ?e r (eid ?e) s1 = Some s' \<and> swf s' \<and> same_db s1 s' \<and> cinv {} {} (core_of s') \<and>
    moved (m_count ?e (core_of s1)) (core_of s')"
    by (rule entry_TaskExited_ok [OF w1 lv t(5)])
      (use t(8) cinv_exit [OF inv rin t(7)] in \<open>simp_all add: c1 [symmetric]\<close>, simp_all add: s1_def upd_defs)
  then obtain s2 where s2: "entry_TaskExited ?e r (tk_id t) s1 = Some s2" "swf s2" "cinv {} {} (core_of s2)" "same_db s1 s2"
    "moved (m_exit ?e r (core_of s)) (core_of s2)" unfolding c1 by auto
  have st2: "c_state (core_of s2) r = Some INIT" using movedD(1) [OF s2(5), of r] by (simp add: m_exit_def)
  have ent2: "c_ent (core_of s2) r = ?e" and n2: "c_seqno (core_of s2) = ts_seqno s"
    using moved_fields [OF s2(5)] t(7) by (simp_all add: m_exit_def del: core_of_simps(12))
  have run: "OnTaskExit r s = (if tk_recycle t = False \<or> tk_cancel t = True
     then Some (s2\<lparr>ts_tasks := (ts_tasks s2)(r := None)\<rparr>)
     else EnqueueUnLocked r (upd_task r (\<lambda>t. t\<lparr>tk_impl := False, tk_seqno := 0, tk_state := INIT,
                                 tk_tbb_state := TBB_INIT\<rparr>) s2))"
    using t(1) QueryTaskEntry_live [OF lv t(5)] GetTaskGroup_live [OF live_group [OF lv]] s2(1)
    by (simp add: OnTaskExit_def Let_def s1_def)
  show ?thesis
  proof (cases "tk_recycle t = False \<or> tk_cancel t = True")
    case True
    let ?s = "s2\<lparr>ts_tasks := (ts_tasks s2)(r := None)\<rparr>"
    have "core_of ?s = m_task r None 0 StopEntry (ts_seqno s) (core_of s2)"
      using n2 by (intro core_eqI) (auto simp: m_task_def)
    moreover have "good ?s" using forget_task_ok [OF s2(2,3), of r] st2 by (simp add: good_def del: core_of_simps)
    ultimately show ?thesis using True run s2(5) by (intro exI [of _ ?s] exI [of _ "core_of s2"]) simp
  next
    case False
    obtain t2 where t2: "ts_tasks s2 r = Some t2" using st2 by (cases "ts_tasks s2 r") auto
    have e2: "ent_of t2 = ?e" using ent2 t2 by simp
    define s3 where "s3 = upd_task r (\<lambda>t. t\<lparr>tk_impl := False, tk_seqno := 0, tk_state := INIT, tk_tbb_state := TBB_INIT\<rparr>) s2"
    define t3 where "t3 = t2\<lparr>tk_impl := False, tk_seqno := 0, tk_state := INIT, tk_tbb_state := TBB_INIT\<rparr>"
    have e3: "ent_of t3 = ?e" using e2 ent_of_cong [of t3 t2] by (simp add: t3_def)
    have t3: "ts_tasks s3 r = Some t3" using t2 by (simp add: s3_def t3_def upd_defs)
    have w3: "swf s3" unfolding s3_def
    proof (rule wf_upd_task [OF s2(2)])
      fix x assume "ts_tasks s2 r = Some x"
      then have "x\<lparr>tk_impl := False, tk_seqno := 0, tk_state := INIT, tk_tbb_state := TBB_INIT\<rparr> = t3" using t2 by (simp add: t3_def)
      moreover have "wf_t s2 t3" unfolding wf_t_def e3 using t(5) by (simp add: t3_def)
      ultimately show "wf_t s2 (x\<lparr>tk_impl := False, tk_seqno := 0, tk_state := INIT, tk_tbb_state := TBB_INIT\<rparr>)" by simp
    qed
    have c3: "core_of s3 = m_task r (Some INIT) 0 ?e (c_seqno (core_of s2)) (core_of s2)"
      using t2 e2 e3 by (intro core_eqI) (auto simp: s3_def upd_defs m_task_def t3_def)
    then have "cinv {} {} (core_of s3)" using cinv_task [OF s2(3), of r "Some INIT"] st2 t(5) by simp
    then have "good s3" using w3 by (simp add: good_def)
    moreover have n3: "ts_seqno s3 = ts_seqno s" using n2 by (simp add: s3_def upd_defs)
    ultimately obtain s' where s': "EnqueueUnLocked r s3 = Some s'" "good s'"
      "enq (ent_of t3) r (m_task r (Some INIT) (ts_seqno s3 + 1) (ent_of t3) (ts_seqno s3 + 1) (core_of s3)) (core_of s')"
      using Enqueue_good [OF _ t3] n by (auto simp: t3_def)
    have "m_task r (Some INIT) (ts_seqno s3 + 1) (ent_of t3) (ts_seqno s3 + 1) (core_of s3) =
        m_task r (Some INIT) (ts_seqno s + 1) ?e (ts_seqno s + 1) (core_of s2)"
      unfolding c3 e3 n3 by (simp add: m_task_def)
    then show ?thesis using s' run False s2(5) e3 by (intro exI [of _ s'] exI [of _ "core_of s2"]) (simp add: s3_def [symmetric])
  qed
qed

section \<open>Cancel\<close>

definition erase_task :: "task_ref \<Rightarrow> sched \<Rightarrow> sched" where
  "erase_task r s = s\<lparr>ts_tasks := (ts_tasks s)(r := None), ts_cancel_count := ts_cancel_count s + 1\<rparr>"

lemma erase_task_wf:
  assumes wf: "swf s"
  shows "swf (erase_task r s)"
proof -
  have l: "group_live (erase_task r s) = group_live s" "inst_live (erase_task r s) = inst_live s"
    by (simp_all add: erase_task_def group_live_def inst_live_def fun_eq_iff)
  have "wf_t (erase_task r s) = wf_t s" by (intro wf_t_cong live_cong l)
  then show ?thesis
    by (intro swfI; simp add: l del: fresh_entry.simps; simp add: erase_task_def del: fresh_entry.simps)
      (use swfD [OF wf] in \<open>auto simp del: fresh_entry.simps split: if_splits\<close>)
qed

lemma drop_undefer_frame:
  "c_own (m_drop e r (m_undefer d e c)) = (c_own c)(e := None)" "c_rce (m_drop e r c) = c_rce c" "c_rcg (m_drop e r c) = c_rcg c"
  "active (m_drop e r c) x y = active c x y" "active (m_undefer d e c) x y = active c x y"
  by (simp_all add: m_drop_def m_undefer_def) (cases x; simp)+

text \<open>Taking the entry out of its queue when its first task goes, and putting it back when tasks are left.\<close>

lemma cancel_requeue_ok:
  assumes g: "good s" and r: "c_state (core_of s) r = Some WAIT" "c_ent (core_of s) r = e" and own: "c_own (core_of s) e = Some d"
    and s1: "swf s1" "core_of s1 = m_unwait e r (core_of s)" "same_db s s1" "ts_tasks s1 = ts_tasks s"
  obtains s2 where "DeleteFromDeferQ d e s1 = Some s2" "swf s2" "ts_tasks s2 = ts_tasks s" "same_db s s2"
    "core_of (erase_task r s2) = m_drop e r (m_undefer d e (core_of s))"
    "c_waitq (core_of s2) e \<noteq> [] \<Longrightarrow> ready s2 d e" "\<And>x. ckey (core_of (erase_task r s2)) x = ckey (core_of s2) x"
proof -
  note inv = goodD(2) [OF g]
  have q: "q_ok {} (core_of s)" using inv by (simp add: cinv_def)
  note qd = q_okD [OF q own]
  have al: "alloc s1 e" using busy_alloc(2) [OF goodD(1) [OF g], of e] qd(2) same_db_live(2) [OF s1(3)] by simp
  have o1: "c_own (core_of s1) e = Some d" "e \<in> set (c_dq (core_of s1) d)" unfolding s1(2) using own qd(1) by (simp_all add: m_unwait_def)
  obtain s2 where s2: "DeleteFromDeferQ d e s1 = Some s2" "swf s2" "core_of s2 = m_undefer d e (core_of s1)" "same_db s1 s2" "ts_tasks s2 = ts_tasks s1"
    by (rule DeleteFromDeferQ_ok [OF s1(1) o1 al])
  let ?c = "m_drop e r (m_undefer d e (core_of s))"
  have c2: "core_of s2 = m_undefer d e (m_unwait e r (core_of s))" using s2(3) s1(2) by simp
  have "core_of (erase_task r s2) = (core_of s2)\<lparr>c_state := (c_state (core_of s2))(r := None), c_seq := (c_seq (core_of s2))(r := 0),
      c_ent := (c_ent (core_of s2))(r := StopEntry)\<rparr>"
    by (rule core_eqI) (auto simp: erase_task_def)
  also have "\<dots> = ?c" unfolding c2 by (rule core_eqI) (auto simp: m_undefer_def m_unwait_def m_drop_def)
  finally have cd: "core_of (erase_task r s2) = ?c" .
  have i1: "cinv {e} ({} - {e}) (m_undefer d e (core_of s))" by (rule cinv_undefer [OF inv own])
  have i2: "cinv {e} {} ?c" using cinv_drop [OF i1, of r e] r by (simp add: undefer_fields del: core_of_simps)
  have w2: "w_ok ?c" and q2: "q_ok {e} ?c" using i2 by (auto simp: cinv_def)
  have fr: "c_waitq (core_of s2) = c_waitq ?c" "c_dq (core_of s2) = c_dq ?c" "c_own (core_of s2) = c_own ?c"
    unfolding c2 by (simp_all add: m_undefer_def m_unwait_def m_drop_def)
  have other: "c_seq (core_of s2) p = c_seq ?c p" "c_state (core_of s2) p = c_state ?c p" if "p \<noteq> r" for p
    unfolding c2 using that by (simp_all add: m_undefer_def m_unwait_def m_drop_def)
  have hd_ne: "p \<noteq> r" "c_state ?c p = Some WAIT" if "c_waitq ?c x = p # ps" for x p ps
    using w_okD(2) [OF w2, of p x] that by (auto simp: m_drop_def)
  have key: "ckey (core_of s2) x = ckey ?c x" for x
    using hd_ne(1) other(1) unfolding ckey_def fr by (auto split: list.splits)
  have seqno: "GetTaskDeferEntrySeqno s2 x = Some (ckey (core_of s2) x)" if w: "c_waitq ?c x \<noteq> []" for x
  proof -
    obtain p ps where p: "c_waitq ?c x = p # ps" using w by (cases "c_waitq ?c x") auto
    then have "c_state (core_of s2) p = Some WAIT" using hd_ne [OF p] other(2) by simp
    moreover have wq: "te_waitq (ts_entries s2 x) = p # ps" using p fr(1) by (metis core_of_simps(1))
    ultimately show ?thesis by (cases "ts_tasks s2 p") (auto simp: GetTaskDeferEntrySeqno_def ckey_def)
  qed
  have "ready s2 d e" if w: "c_waitq (core_of s2) e \<noteq> []"
  proof -
    have "GetTaskDeferEntrySeqno s2 x = Some (ckey (core_of s2) x)" if "x \<in> insert e (set (c_dq (core_of s2) d))" for x
      using that w dq_waitq [OF q2, of x d] seqno [of x] unfolding fr by auto
    moreover have "ckey (core_of s2) e \<notin> ckey (core_of s2) ` set (c_dq (core_of s2) d)"
      using ckey_fresh [OF w2 q2, of e d] w unfolding fr key [abs_def] by simp
    moreover have "c_own (core_of s2) e = None" unfolding fr(3) drop_undefer_frame(1) by simp
    ultimately show ?thesis using w unfolding ready_def by blast
  qed
  then show ?thesis using that [OF s2(1,2) _ same_db_trans [OF s1(3) s2(4)] cd] s2(5) s1(4) key unfolding cd by simp
qed

definition steady :: "core \<Rightarrow> core \<Rightarrow> bool" where
  "steady c c' = (c_pole c' = c_pole c \<and> c_polg c' = c_polg c \<and> c_tbb c' = c_tbb c \<and> c_running c' = c_running c)"

lemma steady_erase: "steady c (core_of (erase_task r s)) \<longleftrightarrow> steady c (core_of s)"
proof -
  have "core_of (erase_task r s) = (core_of s)\<lparr>c_state := (c_state (core_of s))(r := None), c_seq := (c_seq (core_of s))(r := 0),
      c_ent := (c_ent (core_of s))(r := StopEntry)\<rparr>" by (rule core_eqI) (auto simp: erase_task_def)
  then show ?thesis by (simp add: steady_def)
qed

lemma erase_defer:
  assumes "\<And>x. x \<in> insert e (set (c_dq (core_of s) d)) \<Longrightarrow> ckey (core_of (erase_task r s)) x = ckey (core_of s) x"
    "core_of s' = m_defer d e (core_of s)"
  shows "core_of (erase_task r s') = m_defer d e (core_of (erase_task r s))"
proof -
  have e: "core_of (erase_task r x) = (core_of x)\<lparr>c_state := (c_state (core_of x))(r := None), c_seq := (c_seq (core_of x))(r := 0),
      c_ent := (c_ent (core_of x))(r := StopEntry)\<rparr>" for x
    by (rule core_eqI) (auto simp: erase_task_def)
  have "insort_key (ckey (core_of (erase_task r s))) e xs = insort_key (ckey (core_of s)) e xs"
    if "set xs \<subseteq> set (c_dq (core_of s) d)" for xs
    using that assms(1) by (induction xs) auto
  then show ?thesis unfolding e [of s'] assms(2) by (simp add: m_defer_def) (simp add: e)
qed

lemma Cancel_requeue_eq:
  assumes "own_of (ts_entries s e) = Some d" "wf_e e (ts_entries s e)" "te_waitq (ts_entries s e) = [] \<or> was_first"
  shows "Cancel_requeue h e was_first s = do {
    s' \<leftarrow> DeleteFromDeferQ d e s;
    if te_waitq (ts_entries s e) \<noteq> []
    then (case d of GroupQ k \<Rightarrow> group_AddToDeferQ k e s' | EntryQ f \<Rightarrow> entry_AddToDeferQ f e s') else Some s' }"
proof (cases d)
  case (GroupQ k)
  then have "te_dq_group (ts_entries s e) = Some k" "te_dq_entry (ts_entries s e) = None"
    using assms(1,2) by (auto simp: own_of_Some wf_e_def)
  then show ?thesis using assms(3) GroupQ by (cases "te_waitq (ts_entries s e) = []") (auto simp: Cancel_requeue_def Let_def)
next
  case (EntryQ f)
  then have "te_dq_group (ts_entries s e) = None" "te_dq_entry (ts_entries s e) = Some f"
    using assms(1,2) by (auto simp: own_of_Some wf_e_def)
  then show ?thesis using assms(3) EntryQ by (cases "te_waitq (ts_entries s e) = []") (auto simp: Cancel_requeue_def Let_def)
qed

lemma Cancel_requeue_good:
  assumes g: "good s" and r: "c_state (core_of s) r = Some WAIT" "c_ent (core_of s) r = e"
    and s1: "swf s1" "core_of s1 = m_unwait e r (core_of s)" "same_db s s1" "ts_tasks s1 = ts_tasks s"
  shows "\<exists>s'. Cancel_requeue h e (r = hd (c_waitq (core_of s) e)) s1 = Some s' \<and> ts_tasks s' = ts_tasks s \<and>
    steady (core_of s) (core_of s') \<and> good (erase_task r s')"
proof -
  note inv = goodD(2) [OF g]
  have w: "w_ok (core_of s)" and q: "q_ok {} (core_of s)" and b: "b_ok {} (core_of s)" and p: "p_ok (core_of s)"
    using inv by (auto simp: cinv_def)
  have "r \<in> set (c_waitq (core_of s) e)" using w_okD(2) [OF w] r by blast
  then obtain d where own: "c_own (core_of s) e = Some d" using q unfolding q_ok_def by (metis empty_iff empty_set not_None_eq)
  have act: "active (core_of s) d e" using b own unfolding b_ok_def by blast
  let ?wq = "te_waitq (ts_entries s1 e)" and ?f = "r = hd (c_waitq (core_of s) e)"
  let ?c = "m_drop e r (m_undefer d e (core_of s))"
  have tbb1: "steady (core_of s) (core_of s1)" unfolding s1(2) by (simp add: m_unwait_def steady_def)
  show ?thesis
  proof (cases "?wq \<noteq> [] \<and> \<not> ?f")
    case True
    have "core_of (erase_task r s1) = m_drop e r (core_of s)"
    proof -
      have "core_of (erase_task r s1) = (core_of s1)\<lparr>c_state := (c_state (core_of s1))(r := None), c_seq := (c_seq (core_of s1))(r := 0),
          c_ent := (c_ent (core_of s1))(r := StopEntry)\<rparr>" by (rule core_eqI) (auto simp: erase_task_def)
      then show ?thesis unfolding s1(2) by (simp add: m_drop_def m_unwait_def)
    qed
    moreover have "cinv {} {} (m_drop e r (core_of s))" by (rule cinv_drop [OF inv r]) (use True in auto)
    ultimately have "good (erase_task r s1)" using erase_task_wf [OF s1(1)] by (simp add: good_def)
    then show ?thesis using True s1(4) tbb1 by (simp add: Cancel_requeue_def Let_def)
  next
    case False
    obtain s2 where s2: "DeleteFromDeferQ d e s1 = Some s2" "swf s2" "ts_tasks s2 = ts_tasks s" "same_db s s2"
      "core_of (erase_task r s2) = ?c" "c_waitq (core_of s2) e \<noteq> [] \<Longrightarrow> ready s2 d e"
      "\<And>x. ckey (core_of (erase_task r s2)) x = ckey (core_of s2) x"
      by (rule cancel_requeue_ok [OF g r own s1]) blast
    have i1: "cinv {e} ({} - {e}) (m_undefer d e (core_of s))" by (rule cinv_undefer [OF inv own])
    have i2: "cinv {e} {} ?c" using cinv_drop [OF i1, of r e] r by (simp add: undefer_fields del: core_of_simps)
    have wq2: "c_waitq ?c e = te_waitq (ts_entries s2 e)" using arg_cong [OF s2(5), of "\<lambda>c. c_waitq c e"] by (simp add: erase_task_def)
    have "c_waitq (core_of s1) e = c_waitq ?c e" unfolding s1(2) by (simp add: m_unwait_def m_drop_def m_undefer_def)
    then have wq: "?wq = te_waitq (ts_entries s2 e)" using wq2 by simp
    have tbb2: "steady (core_of s) (core_of s2)"
      unfolding steady_erase [of _ r s2, symmetric] s2(5) by (simp add: steady_def m_drop_def m_undefer_def)
    have "c_own (core_of s1) e = Some d" unfolding s1(2) using own by (simp add: m_unwait_def)
    then have eq: "Cancel_requeue h e ?f s1 = do {
        s' \<leftarrow> DeleteFromDeferQ d e s1;
        if ?wq \<noteq> [] then (case d of GroupQ k \<Rightarrow> group_AddToDeferQ k e s' | EntryQ f \<Rightarrow> entry_AddToDeferQ f e s') else Some s' }"
      using False by (intro Cancel_requeue_eq swfD(1) [OF s1(1)]) auto
    show ?thesis
    proof (cases "?wq = []")
      case True
      have "cinv {} {} ?c" using cinv_settled [OF i2, of e] wq2 wq True by simp
      then have "good (erase_task r s2)" using erase_task_wf [OF s2(2)] s2(5) by (simp add: good_def)
      moreover have "Cancel_requeue h e ?f s1 = Some s2" using eq True s2(1) by simp
      ultimately show ?thesis using s2(3) tbb2 by blast
    next
      case again: False
      have rd: "ready s2 d e" using s2(6) wq again by simp
      obtain s3 where s3: "(case d of GroupQ k \<Rightarrow> group_AddToDeferQ k e s2 | EntryQ f \<Rightarrow> entry_AddToDeferQ f e s2) = Some s3"
        "swf s3" "core_of s3 = m_defer d e (core_of s2)" "ts_tasks s3 = ts_tasks s2"
      proof (cases d)
        case (GroupQ k)
        have "group_live s2 k" using busy_alloc(3) [OF goodD(1) [OF g], of k] act GroupQ same_db_live(3) [OF s2(4)] by simp
        then show ?thesis using group_AddToDeferQ_ok [OF s2(2), of k e] rd GroupQ that by (metis dq_owner.simps(6))
      next
        case (EntryQ f)
        have "alloc s2 f" using busy_alloc(1) [OF goodD(1) [OF g], of f] act EntryQ same_db_live(2) [OF s2(4)] by (cases "f = StopEntry") auto
        then show ?thesis using entry_AddToDeferQ_ok [OF s2(2), of f e] rd EntryQ that by (metis dq_owner.simps(5))
      qed
      have "core_of (erase_task r s3) = m_defer d e ?c"
      proof -
        have "core_of (erase_task r s3) = m_defer d e (core_of (erase_task r s2))"
          by (rule erase_defer [OF _ s3(3)]) (use s2(7) in simp)
        then show ?thesis unfolding s2(5) .
      qed
      moreover have "cinv ({e} - {e}) {} (m_defer d e ?c)"
        by (rule cinv_defer [OF i2]) (use wq wq2 again act in \<open>simp_all add: drop_undefer_frame del: active.simps core_of_simps\<close>)
      ultimately have "good (erase_task r s3)" using erase_task_wf [OF s3(2)] by (simp add: good_def)
      moreover have "steady (core_of s) (core_of s3)" using tbb2 unfolding s3(3) by (simp add: steady_def m_defer_def)
      moreover have "Cancel_requeue h e ?f s1 = Some s3" using eq again s2(1) s3(1) by simp
      ultimately show ?thesis using s2(3) s3(4) by auto
    qed
  qed
qed

lemma Cancel_good:
  assumes g: "good s" and t: "ts_tasks s r = Some t"
  shows "\<exists>code s'. Cancel r s = Some (code, s') \<and> good s' \<and>
    code = (case tk_state t of RUN \<Rightarrow> QUEUED | WAIT \<Rightarrow> CANCELLED | INIT \<Rightarrow> FAILED) \<and>
    (if tk_state t = WAIT then ts_tasks s' = (ts_tasks s)(r := None) else core_of s' = core_of s) \<and> steady (core_of s) (core_of s')"
proof (cases "tk_state t")
  case INIT
  then show ?thesis using g t by (simp add: Cancel_def steady_def)
next
  case RUN
  let ?s = "upd_task r (\<lambda>t. t\<lparr>tk_cancel := True\<rparr>) s"
  have wt: "wf_t s t" by (rule swfD(7) [OF goodD(1) [OF g] t])
  have "swf ?s" by (rule wf_upd_task [OF goodD(1) [OF g]]) (use t wt in \<open>auto simp: wf_t_def ent_of_def split: if_splits\<close>)
  moreover have "core_of ?s = core_of s" using t by (intro core_eqI) (auto simp: upd_defs ent_of_def)
  ultimately show ?thesis using RUN t g by (simp add: Cancel_def good_def steady_def upd_task_def)
next
  case WAIT
  note wf = goodD(1) [OF g]
  have wt: "wf_t s t" by (rule swfD(7) [OF wf t])
  have lv: "live s (ent_of t)" "plain (ent_of t)" using wt WAIT by (simp_all add: wf_t_def)
  have st: "c_state (core_of s) r = Some WAIT" using t wt WAIT by (simp add: wf_t_def)
  have ent: "c_ent (core_of s) r = ent_of t" using t by simp
  have w: "w_ok (core_of s)" using goodD(2) [OF g] by (simp add: cinv_def)
  have mem: "r \<in> set (te_waitq (ts_entries s (ent_of t)))" using w_okD(2) [OF w, of r "ent_of t"] st ent by simp
  obtain s1 where s1: "DeleteFromWaitQ (ent_of t) r s = Some s1" "swf s1" "core_of s1 = m_unwait (ent_of t) r (core_of s)"
    "same_db s s1" "ts_tasks s1 = ts_tasks s"
    by (rule DeleteFromWaitQ_ok [OF wf mem])
  obtain s2 where s2: "Cancel_requeue (tk_id t) (ent_of t) (r = hd (te_waitq (ts_entries s (ent_of t)))) s1 = Some s2"
    "ts_tasks s2 = ts_tasks s" "steady (core_of s) (core_of s2)" "good (erase_task r s2)"
    using Cancel_requeue_good [OF g st ent s1(2-5), of "tk_id t"] by auto
  have "te_waitq (ts_entries s (ent_of t)) \<noteq> []" using mem by auto
  then have "Cancel r s = Some (CANCELLED, erase_task r s2)"
    using t WAIT QueryTaskEntry_live [OF lv] QueryTaskGroup_live [OF live_group [OF lv(1)]] s1(1) s2(1)
    by (auto simp: Cancel_def erase_task_def Let_def)
  then show ?thesis using s2 WAIT steady_erase [of "core_of s" r s2] by (simp add: erase_task_def)
qed

section \<open>Stop, start and policies\<close>

lemma Stop_good: "good s \<Longrightarrow> good (Stop s)"
proof -
  assume g: "good s"
  have "core_of (Stop s) = (core_of s)\<lparr>c_running := False\<rparr>" by (rule core_eqI) (simp_all add: Stop_def)
  moreover have "swf (Stop s) = swf s" by (rule swf_cong) (simp_all add: Stop_def)
  ultimately show ?thesis using cinv_stop [OF goodD(2) [OF g]] goodD(1) [OF g] by (simp add: good_def)
qed

lemma Start_good: "good s \<Longrightarrow> \<exists>s'. Start s = Some s' \<and> good s' \<and> moved ((core_of s)\<lparr>c_running := True\<rparr>) (core_of s')"
proof -
  assume g: "good s"
  let ?s = "s\<lparr>ts_running := True\<rparr>"
  have c: "core_of ?s = (core_of s)\<lparr>c_running := True\<rparr>" by (rule core_eqI) simp_all
  have w: "swf ?s" using goodD(1) [OF g] by (subst swf_cong [of ?s s]) simp_all
  have i: "cinv {} (set (c_dq (core_of s) (EntryQ StopEntry))) (core_of ?s)" unfolding c by (rule cinv_go [OF goodD(2) [OF g]])
  have d: "c_dq (core_of ?s) (EntryQ StopEntry) = c_dq (core_of s) (EntryQ StopEntry)" by simp
  obtain s' where s': "RunDeferQ_loop (EntryQ StopEntry) (it_begin (c_dq (core_of ?s) (EntryQ StopEntry))) ?s = Some s'"
    "swf s'" "cinv {} {} (core_of s')" "moved (core_of ?s) (core_of s')"
    using RunDeferQ_all_ok [OF w i, of "EntryQ StopEntry"] d by auto
  moreover have "Start s = Some s'" using s'(1) by (simp add: Start_def entry_RunDeferQ_def)
  ultimately show ?thesis unfolding c by (auto simp: good_def)
qed

text \<open>Only the policies change.\<close>

definition pol_le :: "core \<Rightarrow> core \<Rightarrow> bool" where
  "pol_le c c' = ((\<forall>e. c_pole c e \<subseteq> c_pole c' e) \<and> (\<forall>g. c_polg c g \<subseteq> c_polg c' g))"

lemma pol_le_trans: "pol_le a b \<Longrightarrow> pol_le b c \<Longrightarrow> pol_le a c"
  unfolding pol_le_def by blast

text \<open>The rule \<open>p\<close> of the policy of \<open>g\<close> has been added.\<close>

definition rule_in :: "core \<Rightarrow> int \<Rightarrow> task_exclusion \<Rightarrow> bool" where
  "rule_in c g p =
     (if match_instance p = -1 then match_id p \<in> c_polg c g
      else InstEntry (match_id p) (match_instance p) \<in> c_pole c (InstEntry g (match_instance p)) \<and>
        InstEntry (match_id p) (match_instance p) \<in> c_pole c (GroupEntry g))"

lemma rule_in_le: "rule_in c g p \<Longrightarrow> pol_le c c' \<Longrightarrow> rule_in c' g p"
  unfolding rule_in_def pol_le_def by (auto split: if_splits)

text \<open>What the rules of a policy add, in both directions.\<close>

definition rules_g :: "int \<Rightarrow> task_exclusion list \<Rightarrow> int \<Rightarrow> int set" where
  "rules_g g ps x = {h. \<exists>p \<in> set ps. match_instance p = -1 \<and> (x = g \<and> h = match_id p \<or> x = match_id p \<and> h = g)}"

definition rules_e :: "int \<Rightarrow> task_exclusion list \<Rightarrow> entry_ref \<Rightarrow> entry_ref set" where
  "rules_e g ps x = {f. \<exists>p \<in> set ps. match_instance p \<noteq> -1 \<and>
     ((x = InstEntry g (match_instance p) \<or> x = GroupEntry g) \<and> f = InstEntry (match_id p) (match_instance p) \<or>
      x = InstEntry (match_id p) (match_instance p) \<and> (f = InstEntry g (match_instance p) \<or> f = GroupEntry g))}"

definition m_policy :: "int \<Rightarrow> task_exclusion list \<Rightarrow> core \<Rightarrow> core" where
  "m_policy g ps c = c\<lparr>c_pole := (\<lambda>x. c_pole c x \<union> rules_e g ps x), c_polg := (\<lambda>x. c_polg c x \<union> rules_g g ps x)\<rparr>"

lemma m_policy_le: "pol_le c (m_policy g ps c)"
  by (auto simp: pol_le_def m_policy_def)

lemma m_policy_rule: "p \<in> set ps \<Longrightarrow> rule_in (m_policy g ps c) g p"
  by (auto simp: rule_in_def m_policy_def rules_g_def rules_e_def)

lemma p_ok_policy: "p_ok c \<Longrightarrow> p_ok (m_policy g ps c)"
  unfolding p_ok_def m_policy_def rules_g_def rules_e_def by auto

lemma GetTaskGroup_step:
  assumes "swf s" "0 \<le> g"
  obtains s' where "GetTaskGroup g s = Some s'" "swf s'" "core_of s' = core_of s" "ts_tasks s' = ts_tasks s"
    "group_live s' g" "\<And>x. live s x \<Longrightarrow> live s' x" "\<And>h. group_live s h \<Longrightarrow> group_live s' h"
    "ts_groups s' = ts_groups s" "ts_entries s' = ts_entries s"
proof -
  obtain db where db: "GetTaskGroup g s = Some (s\<lparr>ts_group_db := db\<rparr>)"
    "\<And>h. group_live (s\<lparr>ts_group_db := db\<rparr>) h \<longleftrightarrow> h = g \<or> group_live s h"
    using GetTaskGroup_ok [OF assms] by metis
  let ?s = "s\<lparr>ts_group_db := db\<rparr>"
  have "swf ?s" by (rule wf_GetTaskGroup [OF assms(1)]) (use db(2) in blast)
  moreover have "live s x \<Longrightarrow> live ?s x" for x using db(2) by (cases x) auto
  ultimately show ?thesis using that [OF db(1)] db(2) core_of_db by simp
qed

lemma GetTaskEntry_step:
  assumes "swf s" "0 \<le> g" "0 \<le> i"
  obtains s' where "GetTaskEntry g i s = Some (InstEntry g i, s')" "swf s'" "core_of s' = core_of s" "ts_tasks s' = ts_tasks s"
    "live s' (InstEntry g i)" "\<And>x. live s x \<Longrightarrow> live s' x"
proof -
  obtain s1 where s1: "GetTaskGroup g s = Some s1" "swf s1" "core_of s1 = core_of s" "ts_tasks s1 = ts_tasks s"
    "group_live s1 g" "\<And>x. live s x \<Longrightarrow> live s1 x"
    using GetTaskGroup_step [OF assms(1,2)] by metis
  have i: "i = -1 \<or> 0 \<le> i" "i \<noteq> -1" using assms(3) by auto
  obtain s2 where "group_GetTaskEntry g i s1 = Some (InstEntry g i, s2)"
    "swf s2" "core_of s2 = core_of s1" "\<And>e. live s1 e \<Longrightarrow> live s2 e" "live s2 (InstEntry g i)" "ts_tasks s2 = ts_tasks s1"
    by (rule group_GetTaskEntry_ok [OF s1(2,5) i(1), unfolded if_not_P [OF i(2)]]) blast
  then show ?thesis using that s1 by (simp add: GetTaskEntry_def)
qed

lemma entry_AddPolicy_pair:
  assumes wf: "swf s" and lv: "live s e" "live s f"
  defines "s' \<equiv> entry_AddPolicy f e (entry_AddPolicy e f s)"
  shows "swf s'" "same_db s s'"
    "core_of s' = (core_of s)\<lparr>c_pole := (\<lambda>x. c_pole (core_of s) x \<union> (if x = e then {f} else {}) \<union> (if x = f then {e} else {}))\<rparr>"
proof -
  define s1 where "s1 = entry_AddPolicy e f s"
  have w1: "swf s1" unfolding s1_def entry_AddPolicy_def using swfD(1) [OF wf, of e]
    by (intro wf_upd_entry [OF wf] live_alloc lv) (simp add: wf_e_def)
  have d1: "same_db s s1" by (simp add: s1_def entry_AddPolicy_def same_db_def)
  show "swf s'" unfolding s'_def s1_def [symmetric] unfolding entry_AddPolicy_def using swfD(1) [OF w1, of f] lv(2) d1
    by (intro wf_upd_entry [OF w1] live_alloc) (simp_all add: wf_e_def same_db_live)
  show "same_db s s'" by (simp add: s'_def entry_AddPolicy_def same_db_def)
  show "core_of s' = (core_of s)\<lparr>c_pole := (\<lambda>x. c_pole (core_of s) x \<union> (if x = e then {f} else {}) \<union> (if x = f then {e} else {}))\<rparr>"
    by (rule core_eqI) (auto simp: s'_def entry_AddPolicy_def upd_defs own_of_def)
qed

lemma group_AddPolicy_pair:
  assumes wf: "swf s" and lv: "group_live s g" "group_live s h"
  defines "s' \<equiv> group_AddPolicy h g (group_AddPolicy g h s)"
  shows "swf s'" "same_db s s'"
    "core_of s' = (core_of s)\<lparr>c_polg := (\<lambda>x. c_polg (core_of s) x \<union> (if x = g then {h} else {}) \<union> (if x = h then {g} else {}))\<rparr>"
proof -
  define s1 where "s1 = group_AddPolicy g h s"
  have w1: "swf s1" unfolding s1_def group_AddPolicy_def using swfD(2) [OF wf, of g]
    by (intro wf_upd_group [OF wf] lv) (simp_all add: wf_g_def)
  show "swf s'" unfolding s'_def s1_def [symmetric] unfolding group_AddPolicy_def using swfD(2) [OF w1, of h] lv(2)
    by (intro wf_upd_group [OF w1]) (simp_all add: wf_g_def s1_def group_AddPolicy_def)
  show "same_db s s'" by (simp add: s'_def group_AddPolicy_def same_db_def)
  show "core_of s' = (core_of s)\<lparr>c_polg := (\<lambda>x. c_polg (core_of s) x \<union> (if x = g then {h} else {}) \<union> (if x = h then {g} else {}))\<rparr>"
    by (rule core_eqI) (auto simp: s'_def group_AddPolicy_def upd_defs own_of_def)
qed

text \<open>One rule.\<close>

lemma m_policy_Cons: "m_policy g (p # ps) c = m_policy g ps (m_policy g [p] c)"
  unfolding m_policy_def rules_e_def rules_g_def by (rule core.equality) (auto simp: fun_eq_iff)

lemma SetPolicy_rule_ok:
  assumes wf: "swf s" and g: "group_live s g" "0 \<le> g" and p: "0 \<le> match_id p" "match_instance p = -1 \<or> 0 \<le> match_instance p"
  shows "\<exists>s'. SetPolicy_rules g (p # ps) s = SetPolicy_rules g ps s' \<and> swf s' \<and> group_live s' g \<and> core_of s' = m_policy g [p] (core_of s)"
proof (cases "match_instance p = -1")
  case True
  obtain s1 where s1: "GetTaskGroup (match_id p) s = Some s1" "swf s1" "core_of s1 = core_of s"
    "group_live s1 (match_id p)" "group_live s1 g"
    using GetTaskGroup_step [OF wf p(1)] g by metis
  define s2 where "s2 = group_AddPolicy (match_id p) g (group_AddPolicy g (match_id p) s1)"
  note s2 = group_AddPolicy_pair [OF s1(2,5,4), folded s2_def]
  have "core_of s2 = m_policy g [p] (core_of s)" unfolding s2(3) s1(3) m_policy_def rules_e_def rules_g_def
    using True by (intro core.equality) (auto simp: fun_eq_iff simp del: core_of_simps)
  moreover have "SetPolicy_rules g (p # ps) s = SetPolicy_rules g ps s2" using True s1(1) by (simp add: s2_def)
  ultimately show ?thesis using s2(1,2) s1(5) by (auto simp: same_db_live)
next
  case False
  then have i: "0 \<le> match_instance p" using p(2) by simp
  let ?e = "InstEntry g (match_instance p)" and ?f = "InstEntry (match_id p) (match_instance p)"
  obtain s1 where s1: "GetTaskEntry g (match_instance p) s = Some (?e, s1)" "swf s1" "core_of s1 = core_of s"
    "live s1 ?e" "live s1 (GroupEntry g)"
    using GetTaskEntry_step [OF wf g(2) i] g(1) by (metis live.simps(2))
  obtain s2 where s2: "GetTaskEntry (match_id p) (match_instance p) s1 = Some (?f, s2)" "swf s2" "core_of s2 = core_of s1"
    "live s2 ?f" "live s2 ?e" "live s2 (GroupEntry g)"
    using GetTaskEntry_step [OF s1(2) p(1) i] s1(4,5) by metis
  define s3 where "s3 = entry_AddPolicy ?f ?e (entry_AddPolicy ?e ?f s2)"
  define s4 where "s4 = entry_AddPolicy ?f (GroupEntry g) (entry_AddPolicy (GroupEntry g) ?f s3)"
  note s3 = entry_AddPolicy_pair [OF s2(2,5,4), folded s3_def]
  have l3: "live s3 ?f" "live s3 (GroupEntry g)" using s2(4,6) same_db_live(1) [OF s3(2)] by simp_all
  note s4 = entry_AddPolicy_pair [OF s3(1) l3(2,1), folded s4_def]
  have "core_of s4 = m_policy g [p] (core_of s)" unfolding s4(3) s3(3) s2(3) s1(3) m_policy_def rules_e_def rules_g_def
    using False by (intro core.equality) (auto simp: fun_eq_iff simp del: core_of_simps)
  moreover have "SetPolicy_rules g (p # ps) s = SetPolicy_rules g ps s4" using False s1(1) s2(1) by (simp add: s4_def s3_def Let_def)
  ultimately show ?thesis using s4(1,2) l3(2) by (auto simp: same_db_live)
qed

lemma SetPolicy_rules_ok:
  assumes "swf s" "group_live s g" "0 \<le> g" "\<forall>p \<in> set ps. 0 \<le> match_id p \<and> (match_instance p = -1 \<or> 0 \<le> match_instance p)"
  shows "\<exists>s'. SetPolicy_rules g ps s = Some s' \<and> swf s' \<and> core_of s' = m_policy g ps (core_of s)"
  using assms
proof (induction ps arbitrary: s)
  case Nil
  moreover have "m_policy g [] (core_of s) = core_of s" by (simp add: m_policy_def rules_e_def rules_g_def del: core_of_simps)
  ultimately show ?case by simp
next
  case (Cons p ps)
  obtain s1 where s1: "SetPolicy_rules g (p # ps) s = SetPolicy_rules g ps s1" "swf s1" "group_live s1 g" "core_of s1 = m_policy g [p] (core_of s)"
    using SetPolicy_rule_ok [OF Cons.prems(1-3), of p ps] Cons.prems(4) by auto
  show ?case unfolding s1(1) m_policy_Cons [of g p ps] s1(4) [symmetric]
    using Cons.IH [OF s1(2,3)] Cons.prems(3,4) by simp
qed

end
