(* ===== verification/Task_Steps.thy ===== *)
theory Task_Steps
  imports Task_Refine
begin

text \<open>
  The scheduler as a transition system and what holds in every state it can reach: no call aborts,
  policies are kept, waiting tasks start in order and none is forgotten, and everything that has been
  enqueued runs. The steps are the calls of the clients and the events of the TBB threads; disabling
  groups and entries (test code) is not a step.
\<close>

lemma SetPolicy_good:
  assumes g: "good s" and idle: "ts_tbb s = []" and id: "0 \<le> g" and new: "\<not> tg_policy_set (ts_groups s g)"
    and ps: "\<forall>p \<in> set ps. 0 \<le> match_id p \<and> (match_instance p = -1 \<or> 0 \<le> match_instance p)"
  shows "\<exists>s'. SetPolicy g ps s = Some s' \<and> good s' \<and> core_of s' = m_policy g ps (core_of s)"
proof -
  note wf = goodD(1) [OF g] and inv = goodD(2) [OF g]
  obtain s1 where s1: "GetTaskGroup g s = Some s1" "swf s1" "core_of s1 = core_of s" "group_live s1 g" "ts_groups s1 = ts_groups s"
    using GetTaskGroup_step [OF wf id] by metis
  define s2 where "s2 = upd_group g (\<lambda>x. x\<lparr>tg_policy_set := True\<rparr>) s1"
  have w2: "swf s2" unfolding s2_def using swfD(2) [OF s1(2), of g] by (intro wf_upd_group [OF s1(2,4)]) (simp_all add: wf_g_def)
  have "core_of s2 = core_of s1" by (rule core_eqI) (auto simp: s2_def upd_defs)
  then have c2: "core_of s2 = core_of s" using s1(3) by simp
  have g2: "group_live s2 g" using s1(4) by (simp add: s2_def)
  obtain s3 where s3: "SetPolicy_rules g ps s2 = Some s3" "swf s3" "core_of s3 = m_policy g ps (core_of s)"
    using SetPolicy_rules_ok [OF w2 g2 id ps] c2 by auto
  have "p_ok (m_policy g ps (core_of s))" using inv by (intro p_ok_policy) (simp add: cinv_def)
  then have "cinv {} {} (core_of s3)" unfolding s3(3) m_policy_def by (intro cinv_policy [OF inv]) (use idle in simp_all)
  moreover have "SetPolicy g ps s = Some s3" using s1(1,5) s3(1) new by (simp add: SetPolicy_def PolicySet_def s2_def)
  ultimately show ?thesis using s3(2,3) by (simp add: good_def)
qed

lemma init_good: "good mk_TaskScheduler"
proof -
  have gl: "group_live mk_TaskScheduler g = False" "inst_live mk_TaskScheduler g i = False" for g i
    by (simp_all add: mk_TaskScheduler_def group_live_def inst_live_def mk_TaskGroup_def db_at_def kVectorGrowSize_def)
  have e: "wf_e e (fresh_entry e)" for e by (cases e) (simp_all add: wf_e_def mk_TaskEntry_def)
  have f: "te_waitq (fresh_entry e) = []" "te_deferq (fresh_entry e) = []" "te_run_count (fresh_entry e) = 0"
    "te_run_task (fresh_entry e) = None" "own_of (fresh_entry e) = None" for e
    by (cases e; simp add: mk_TaskEntry_def)+
  have p: "set (te_policyq (fresh_entry e)) = (if is_inst e \<and> einst e \<noteq> -1 then {e} else {})" for e
    by (cases e) (simp_all add: mk_TaskEntry_def)
  have "swf mk_TaskScheduler"
    by (rule swfI) (use e in \<open>simp_all add: mk_TaskScheduler_def wf_g_def mk_TaskGroup_def del: fresh_entry.simps\<close>)
  moreover have "cinv {} {} (core_of mk_TaskScheduler)"
  proof -
    have d: "c_dq (core_of mk_TaskScheduler) x = []" for x
      by (cases x) (simp_all add: mk_TaskScheduler_def mk_TaskGroup_def f del: fresh_entry.simps)
    have "p_ok (core_of mk_TaskScheduler)"
      unfolding p_ok_def by (auto simp: mk_TaskScheduler_def mk_TaskGroup_def p simp del: fresh_entry.simps split: if_splits elim: is_inst.elims)
    then show ?thesis
      unfolding cinv_def w_ok_def r_ok_def q_ok_def b_ok_def x_ok_def d
      by (simp add: mk_TaskScheduler_def mk_TaskGroup_def f del: fresh_entry.simps)
  qed
  ultimately show ?thesis by (simp add: good_def)
qed

lemma upd_running_good:
  assumes g: "good s" and t: "ts_tasks s r = Some t" "ts_tasks s' = (ts_tasks s)(r \<mapsto> t')" and f: "ent_of t' = ent_of t"
    "tk_state t' = tk_state t" "tk_impl t' = tk_impl t" "tk_seqno t' = tk_seqno t" "tk_state t = RUN"
    "tk_tbb_state t \<noteq> TBB_DONE" "tk_tbb_state t' \<noteq> TBB_DONE"
    and s': "ts_entries s' = ts_entries s" "ts_group_db s' = ts_group_db s" "ts_tbb s' = ts_tbb s" "ts_running s' = ts_running s"
    "ts_seqno s' = ts_seqno s" "ts_groups s' = (\<lambda>h. (ts_groups s h)\<lparr>tg_total_run_time := n h\<rparr>)"
    "\<And>h. \<not> group_live s h \<Longrightarrow> n h = tg_total_run_time (ts_groups s h)"
  shows "good s'" "core_of s' = core_of s"
proof -
  have gf: "tg_entry_db (ts_groups s' h) = tg_entry_db (ts_groups s h)" "tg_task_id (ts_groups s' h) = tg_task_id (ts_groups s h)"
    "tg_disable (ts_groups s' h) = tg_disable (ts_groups s h)" "tg_deferq (ts_groups s' h) = tg_deferq (ts_groups s h)"
    "tg_run_count (ts_groups s' h) = tg_run_count (ts_groups s h)" "tg_policy (ts_groups s' h) = tg_policy (ts_groups s h)" for h
    by (simp_all add: s'(6))
  have gs: "ts_groups s' h = ts_groups s h" if "\<not> group_live s h" for h using s'(7) [OF that] by (simp add: s'(6))
  have l: "group_live s' = group_live s" "inst_live s' = inst_live s" by (simp_all add: group_live_def inst_live_def gf s'(2) fun_eq_iff)
  have lv: "live s' = live s" by (rule live_cong [OF l])
  show c: "core_of s' = core_of s" by (rule core_eqI) (use t f in \<open>auto simp: s' gf\<close>)
  have "wf_t s' x" if "ts_tasks s' q = Some x" for q x
    using that t f swfD(7) [OF goodD(1) [OF g]] by (cases "q = r") (auto simp: wf_t_def lv)
  then have "swf s'"
    by (intro swfI) (use swfD [OF goodD(1) [OF g]] in \<open>simp_all add: s'(1) l wf_g_def gf gs del: fresh_entry.simps\<close>)
  then show "good s'" using g c by (simp add: good_def)
qed

lemma execute_begin_good:
  assumes g: "good s" and r: "r \<in> set (ts_tbb s)"
  shows "\<exists>t0 s'. execute_begin r s = Some (t0, s') \<and> good s' \<and> core_of s' = core_of s"
proof -
  obtain t where t: "ts_tasks s r = Some t" "tk_state t = RUN" "tk_tbb_state t \<noteq> TBB_DONE" by (rule running_task [OF g r])
  let ?d = "sub64 (ts_clock s) (tk_enqueue_time t)"
  define log where "log = (if tk_enqueue_time t \<noteq> 0 \<and> ?d > schedule_delay_of t s
    then ts_log s @ [(r, ''TBB schedule time(in usec) '', ?d)] else ts_log s)"
  define s' where "s' = s\<lparr>ts_tasks := (ts_tasks s)(r \<mapsto> t\<lparr>tk_tbb_state := TBB_EXEC\<rparr>), ts_log := log\<rparr>"
  have e: "execute_begin r s = Some (if tk_enqueue_time t \<noteq> 0 \<or> ts_track_run_time s then ts_clock s else 0, s')"
    using t by (auto simp: execute_begin_def Let_def upd_task_def task_trace_def s'_def log_def schedule_delay_of_def)
  have "good s' \<and> core_of s' = core_of s"
    using upd_running_good [OF g t(1), of s' "t\<lparr>tk_tbb_state := TBB_EXEC\<rparr>" "\<lambda>h. tg_total_run_time (ts_groups s h)"] t
    by (simp add: s'_def ent_of_def)
  then show ?thesis using e by auto
qed

lemma execute_end_good:
  assumes g: "good s" and r: "r \<in> set (ts_tbb s)" and t: "ts_tasks s r = Some t"
  shows "\<exists>s'. execute_end r t0 b s = Some s' \<and> good s' \<and> core_of s' = core_of s \<and>
    ts_tasks s' r = Some (t\<lparr>tk_recycle := \<not> b\<rparr>)"
proof -
  have rt: "tk_state t = RUN" "tk_tbb_state t \<noteq> TBB_DONE" "live s (ent_of t)" using running_task [OF g r] t by (metis option.inject)+
  let ?d = "sub64 (ts_clock s) t0" and ?x = "execute_delay_of t s"
  define log where "log = (if t0 \<noteq> 0 \<and> ?x \<noteq> 0 \<and> ?d < 2 ^ 63 \<and> ?d > ?x then ts_log s @ [(r, ''Run time(in usec) '', ?d)] else ts_log s)"
  define n where "n = (\<lambda>h. if t0 \<noteq> 0 \<and> ts_track_run_time s \<and> h = tk_id t then u64 (tg_total_run_time (ts_groups s h) + ?d)
    else tg_total_run_time (ts_groups s h))"
  define s' where "s' = s\<lparr>ts_tasks := (ts_tasks s)(r \<mapsto> t\<lparr>tk_recycle := \<not> b\<rparr>), ts_log := log,
    ts_groups := (\<lambda>h. (ts_groups s h)\<lparr>tg_total_run_time := n h\<rparr>)\<rparr>"
  have gl: "group_live s (tk_id t)" using live_group [OF rt(3)] by simp
  have gu: "(ts_groups s)(tk_id t := (ts_groups s (tk_id t))\<lparr>tg_total_run_time := u64 (tg_total_run_time (ts_groups s (tk_id t)) + ?d)\<rparr>) =
    (\<lambda>h. (ts_groups s h)\<lparr>tg_total_run_time := n h\<rparr>)" if "t0 \<noteq> 0" "ts_track_run_time s"
    using that by (auto simp: n_def fun_eq_iff)
  have gn: "(\<lambda>h. (ts_groups s h)\<lparr>tg_total_run_time := n h\<rparr>) = ts_groups s" if "\<not> (t0 \<noteq> 0 \<and> ts_track_run_time s)"
    using that by (auto simp: n_def fun_eq_iff)
  have q: "db_at (ts_group_db s) (tk_id t) = Some True" using gl by (simp add: group_live_def)
  have e: "execute_end r t0 b s = Some s'"
  proof (cases "t0 \<noteq> 0 \<and> ts_track_run_time s")
    case True
    then show ?thesis
      using t q gu by (auto simp: execute_end_def Let_def upd_defs task_trace_def s'_def log_def IncrementTotalRunTime_def QueryTaskGroup_def)
  next
    case False
    show ?thesis unfolding s'_def gn [OF False]
      using t False by (auto simp: execute_end_def Let_def upd_defs task_trace_def log_def)
  qed
  have "good s' \<and> core_of s' = core_of s"
  proof -
    have e1: "ent_of (t\<lparr>tk_recycle := \<not> b\<rparr>) = ent_of t" by (rule ent_of_cong) simp_all
    have "n h = tg_total_run_time (ts_groups s h)" if "\<not> group_live s h" for h using that gl by (auto simp: n_def)
    then show ?thesis using upd_running_good [OF g t, of s' "t\<lparr>tk_recycle := \<not> b\<rparr>" n] rt e1 by (simp add: s'_def)
  qed
  then show ?thesis using e by (auto simp: s'_def)
qed

lemma create_good:
  assumes g: "good s" and n: "ts_tasks s r = None" "0 \<le> tid" "i = -1 \<or> 0 \<le> i"
  shows "good (s\<lparr>ts_tasks := (ts_tasks s)(r \<mapsto> mk_Task tid i)\<rparr>)"
    "core_of (s\<lparr>ts_tasks := (ts_tasks s)(r \<mapsto> mk_Task tid i)\<rparr>) =
     m_task r (Some INIT) 0 (ent_of (mk_Task tid i)) (ts_seqno s) (core_of s)"
proof -
  let ?s = "s\<lparr>ts_tasks := (ts_tasks s)(r \<mapsto> mk_Task tid i)\<rparr>"
  have pl: "plain (ent_of (mk_Task tid i))" using n by (auto simp: ent_of_def mk_Task_def)
  show c: "core_of ?s = m_task r (Some INIT) 0 (ent_of (mk_Task tid i)) (ts_seqno s) (core_of s)"
    by (rule core_eqI) (auto simp: m_task_def mk_Task_def)
  have l: "group_live ?s = group_live s" "inst_live ?s = inst_live s" by (simp_all add: group_live_def inst_live_def fun_eq_iff)
  have w: "wf_t ?s = wf_t s" by (intro wf_t_cong live_cong l)
  have "wf_t s (mk_Task tid i)" using pl by (simp add: wf_t_def) (simp add: mk_Task_def)
  then have "swf ?s"
    by (intro swfI; simp add: l w del: fresh_entry.simps) (use swfD [OF goodD(1) [OF g]] in \<open>auto simp del: fresh_entry.simps split: if_splits\<close>)
  moreover have "cinv {} {} (core_of ?s)" unfolding c by (rule cinv_task [OF goodD(2) [OF g]]) (use n pl in auto)
  ultimately show "good ?s" by (simp add: good_def)
qed

section \<open>Steps\<close>

text \<open>
  The calls that the program makes and the events of TBB. A client enqueues a task that it has
  created; the threads of TBB run the tasks of \<open>ts_tbb\<close>; policies are set while nothing runs.
  The sequence number is a counter of 64 bits: the steps stop before it wraps.
\<close>

inductive sched_step :: "sched \<Rightarrow> sched \<Rightarrow> bool" where
  create: "ts_tasks s r = None \<Longrightarrow> 0 \<le> tid \<Longrightarrow> i = -1 \<or> 0 \<le> i \<Longrightarrow>
    sched_step s (s\<lparr>ts_tasks := (ts_tasks s)(r \<mapsto> mk_Task tid i)\<rparr>)"
| enqueue: "ts_tasks s r = Some t \<Longrightarrow> tk_state t = INIT \<Longrightarrow> tk_seqno t = 0 \<Longrightarrow> ts_seqno s + 1 < 2 ^ 64 \<Longrightarrow>
    Enqueue r s = Some s' \<Longrightarrow> sched_step s s'"
| execute: "r \<in> set (ts_tbb s) \<Longrightarrow> execute_begin r s = Some (t0, s') \<Longrightarrow> sched_step s s'"
| executed: "r \<in> set (ts_tbb s) \<Longrightarrow> execute_end r t0 b s = Some s' \<Longrightarrow> sched_step s s'"
| exit: "r \<in> set (ts_tbb s) \<Longrightarrow> ts_seqno s + 1 < 2 ^ 64 \<Longrightarrow> OnTaskExit r s = Some s' \<Longrightarrow> sched_step s s'"
| cancel: "ts_tasks s r \<noteq> None \<Longrightarrow> Cancel r s = Some (code, s') \<Longrightarrow> sched_step s s'"
| stop: "sched_step s (Stop s)"
| start: "Start s = Some s' \<Longrightarrow> sched_step s s'"
| policy: "ts_tbb s = [] \<Longrightarrow> 0 \<le> tid \<Longrightarrow> \<not> tg_policy_set (ts_groups s tid) \<Longrightarrow>
    \<forall>p \<in> set ps. 0 \<le> match_id p \<and> (match_instance p = -1 \<or> 0 \<le> match_instance p) \<Longrightarrow>
    SetPolicy tid ps s = Some s' \<Longrightarrow> sched_step s s'"
| tick: "sched_step s (s\<lparr>ts_clock := c, ts_utc := u\<rparr>)"
| latency: "sched_step s (EnableLatencyThresholds x d s)"
| name: "GetTaskId n s = (i, s') \<Longrightarrow> sched_step s s'"

abbreviation reach :: "sched \<Rightarrow> bool" where
  "reach \<equiv> reachable ((=) mk_TaskScheduler) sched_step"

lemma frame_good:
  assumes "good s" "ts_running s' = ts_running s" "ts_seqno s' = ts_seqno s" "ts_group_db s' = ts_group_db s"
    "ts_groups s' = ts_groups s" "ts_entries s' = ts_entries s" "ts_tasks s' = ts_tasks s" "ts_tbb s' = ts_tbb s"
  shows "good s'" "core_of s' = core_of s"
proof -
  show c: "core_of s' = core_of s" by (rule core_eqI) (simp_all add: assms)
  show "good s'" using assms(1) c swf_cong [OF assms(4-7)] by (simp add: good_def)
qed

lemma GetTaskId_frame: "GetTaskId n s = (i, s') \<Longrightarrow> good s \<Longrightarrow> good s' \<and> core_of s' = core_of s"
  using frame_good [of s s']
  by (auto simp: GetTaskId_def GetTaskId_read_def GetTaskId_write_def Let_def split: option.splits)

lemma step_good: "sched_step s s' \<Longrightarrow> good s \<Longrightarrow> good s'"
proof (induction rule: sched_step.induct)
  case (create s r tid i) then show ?case using create_good by blast
next
  case (enqueue s r t s') then show ?case using Enqueue_good [of s r t] by (auto simp: Enqueue_def)
next
  case (execute r s t0 s') then show ?case using execute_begin_good [of s r] by auto
next
  case (executed r s t0 b s')
  obtain t where "ts_tasks s r = Some t" by (rule running_task [OF executed(3,1)])
  then show ?case using execute_end_good [of s r t t0 b] executed by auto
next
  case (exit r s s')
  obtain t where "ts_tasks s r = Some t" by (rule running_task [OF exit(4,1)])
  then show ?case using OnTaskExit_good [of s r t] exit by auto
next
  case (cancel s r code s') then show ?case using Cancel_good [of s r] by auto
next
  case (stop s) then show ?case by (rule Stop_good)
next
  case (start s s') then show ?case using Start_good [of s] by auto
next
  case (policy s tid ps s') then show ?case using SetPolicy_good [of s tid ps] by auto
next
  case (tick s u c) then show ?case using frame_good [of s "s\<lparr>ts_clock := c, ts_utc := u\<rparr>"] by simp
next
  case (latency s x d)
  then show ?case using frame_good [of s "EnableLatencyThresholds x d s"] by (simp add: EnableLatencyThresholds_def)
next
  case (name n s i s') then show ?case using GetTaskId_frame by blast
qed

section \<open>What a step does to the tasks\<close>

lemma enq_effect:
  assumes "enq e r c c'"
  shows "c_state c' = (c_state c)(r \<mapsto> WAIT) \<and> c_tbb c' = c_tbb c \<or> c_state c' = (c_state c)(r \<mapsto> RUN) \<and> c_tbb c' = c_tbb c @ [r]"
    "c_seq c' = c_seq c" "c_pole c' = c_pole c" "c_polg c' = c_polg c" "c_running c' = c_running c"
    "c_waitq c' x = c_waitq c x \<or> x = e \<and> c_waitq c' x = c_waitq c x @ [r]"
  using assms by (cases; simp add: m_wait_def m_run_def m_defer_def)+

definition tasks_ok :: "core \<Rightarrow> bool" where
  "tasks_ok c = (finite (dom (c_state c)) \<and> (\<forall>r. c_state c r = Some INIT \<longrightarrow> c_seq c r = 0))"

lemma tasks_ok_enq:
  assumes "finite (dom (c_state c))" "\<And>q. q \<noteq> r \<Longrightarrow> c_state c q = Some INIT \<Longrightarrow> c_seq c q = 0" "enq e r (m_task r (Some INIT) n e n c) c'"
  shows "tasks_ok c'"
  using enq_effect(1,2) [OF assms(3)] assms(1,2) unfolding tasks_ok_def by (auto simp: m_task_def split: if_splits)

lemma moved_init:
  assumes "moved c c'" "c_state c' q = Some INIT"
  shows "c_state c q = Some INIT"
  using assms movedD(1) [OF assms(1), of q] movedD(4) [OF assms(1), of q] by (cases "c_state c q = Some WAIT") auto

lemma moved_dom:
  assumes "moved c c'"
  shows "dom (c_state c') = dom (c_state c)"
proof (rule set_eqI)
  fix q
  show "q \<in> dom (c_state c') \<longleftrightarrow> q \<in> dom (c_state c)"
    using movedD(1) [OF assms, of q] movedD(4) [OF assms, of q] by (cases "c_state c q = Some WAIT") (auto simp: domIff)
qed

lemma tasks_ok_moved: "tasks_ok c \<Longrightarrow> moved c c' \<Longrightarrow> tasks_ok c'"
  unfolding tasks_ok_def using moved_dom moved_init moved_fields(1) by metis

lemma tasks_ok_exit:
  assumes ok: "tasks_ok c" and mv: "moved (m_exit e r c) c1"
    and c': "if b then c' = m_task r None 0 StopEntry n c1 else enq e r (m_task r (Some INIT) m e m c1) c'"
  shows "tasks_ok c'"
proof -
  have "finite (dom (c_state c1))" using ok unfolding moved_dom [OF mv] by (simp add: tasks_ok_def m_exit_def)
  moreover have "c_seq c1 q = 0" if "c_state c1 q = Some INIT" "q \<noteq> r" for q
    using moved_init [OF mv that(1)] that(2) ok unfolding moved_fields(1) [OF mv] by (simp add: tasks_ok_def m_exit_def)
  ultimately show ?thesis using c' tasks_ok_enq [of c1 r e m c'] by (cases b) (auto simp: tasks_ok_def m_task_def)
qed

lemma step_tasks_ok: "sched_step s s' \<Longrightarrow> good s \<Longrightarrow> tasks_ok (core_of s) \<Longrightarrow> tasks_ok (core_of s')"
proof (induction rule: sched_step.induct)
  case (create s r tid i)
  show ?case unfolding create_good(2) [OF create(4,1,2,3)]
    using create(5) by (auto simp: tasks_ok_def m_task_def simp del: core_of_simps)
next
  case (enqueue s r t s')
  have "tasks_ok (core_of s')"
    using Enqueue_good [OF enqueue(6,1-4)] enqueue(5,7) tasks_ok_enq [of "core_of s" r "ent_of t" "ts_seqno s + 1"]
    by (auto simp: Enqueue_def tasks_ok_def simp del: core_of_simps)
  then show ?case .
next
  case (execute r s t0 s') then show ?case using execute_begin_good [of s r] by auto
next
  case (executed r s t0 b s')
  obtain t where "ts_tasks s r = Some t" by (rule running_task [OF executed(3,1)])
  then show ?case using execute_end_good [of s r t t0 b] executed by auto
next
  case (exit r s s')
  obtain t where "ts_tasks s r = Some t" by (rule running_task [OF exit(4,1)])
  then show ?case using OnTaskExit_good [of s r t] exit tasks_ok_exit [OF exit(5)] by (metis option.inject)
next
  case (cancel s r code s')
  then obtain t where t: "ts_tasks s r = Some t" by auto
  from Cancel_good [OF cancel(3) t] cancel(2)
  have "if tk_state t = WAIT then ts_tasks s' = (ts_tasks s)(r := None) else core_of s' = core_of s" by auto
  then show ?case
  proof (cases "tk_state t = WAIT")
    case True
    then have ts: "ts_tasks s' = (ts_tasks s)(r := None)" using \<open>if _ then _ else _\<close> by simp
    then have "c_state (core_of s') = (c_state (core_of s))(r := None)" "\<And>q. q \<noteq> r \<Longrightarrow> c_seq (core_of s') q = c_seq (core_of s) q"
      by (auto simp: fun_eq_iff)
    then show ?thesis using cancel(4) unfolding tasks_ok_def by (auto split: if_splits simp del: core_of_simps)
  next
    case False
    then show ?thesis using \<open>if _ then _ else _\<close> cancel(4) by simp
  qed
next
  case (stop s)
  have "core_of (Stop s) = (core_of s)\<lparr>c_running := False\<rparr>" by (rule core_eqI) (simp_all add: Stop_def)
  then show ?case using stop by (simp add: tasks_ok_def)
next
  case (start s s')
  have "tasks_ok ((core_of s)\<lparr>c_running := True\<rparr>)" using start by (simp add: tasks_ok_def)
  then show ?case using Start_good [of s] start tasks_ok_moved by auto
next
  case (policy s tid ps s')
  then show ?case using SetPolicy_good [of s tid ps] by (auto simp: tasks_ok_def m_policy_def simp del: core_of_simps)
next
  case (tick s u c) then show ?case using frame_good [of s "s\<lparr>ts_clock := c, ts_utc := u\<rparr>"] by simp
next
  case (latency s x d)
  then show ?case using frame_good [of s "EnableLatencyThresholds x d s"] by (simp add: EnableLatencyThresholds_def)
next
  case (name n s i s') then show ?case using GetTaskId_frame [of n s i s'] by simp
qed

lemma init_tasks_ok: "tasks_ok (core_of mk_TaskScheduler)"
proof -
  have "c_state (core_of mk_TaskScheduler) = (\<lambda>_. None)" by (auto simp: mk_TaskScheduler_def fun_eq_iff)
  then show ?thesis by (simp add: tasks_ok_def del: core_of_simps)
qed

interpretation sched: invariant "(=) mk_TaskScheduler" sched_step "\<lambda>s. good s \<and> tasks_ok (core_of s)"
  by unfold_locales (use init_good init_tasks_ok step_good step_tasks_ok in auto)

lemma reach_good: "reach s \<Longrightarrow> good s" "reach s \<Longrightarrow> tasks_ok (core_of s)"
  using sched.holds by blast+

lemma tbb_state: "good s \<Longrightarrow> r \<in> set (ts_tbb s) \<longleftrightarrow> c_state (core_of s) r = Some RUN"
  using goodD(2) by (auto simp: cinv_def r_ok_def simp del: core_of_simps(10))

lemma waiting_in_queue:
  assumes "good s" "ts_tasks s r = Some t" "tk_state t = WAIT"
  shows "r \<in> set (te_waitq (ts_entries s (ent_of t)))" "c_state (core_of s) r = Some WAIT" "live s (ent_of t)"
proof -
  have wt: "wf_t s t" by (rule swfD(7) [OF goodD(1) [OF assms(1)] assms(2)])
  then show st: "c_state (core_of s) r = Some WAIT" "live s (ent_of t)" using assms by (simp_all add: wf_t_def)
  have "w_ok (core_of s)" using goodD(2) [OF assms(1)] by (simp add: cinv_def)
  from w_okD(2) [OF this, of r "ent_of t"] st(1) assms(2) show "r \<in> set (te_waitq (ts_entries s (ent_of t)))" by simp
qed

lemma counts:
  assumes "good s"
  shows "te_run_count (ts_entries s e) = length (filter (\<lambda>q. ent_opt (ts_tasks s q) = e) (ts_tbb s))"
    "tg_run_count (ts_groups s g) = length (filter (\<lambda>q. eid (ent_opt (ts_tasks s q)) = g) (ts_tbb s))"
  using goodD(2) [OF assms] by (auto simp: cinv_def r_ok_def)

lemma count_pos: "0 < length (filter P xs) \<longleftrightarrow> (\<exists>x \<in> set xs. P x)"
  by (simp add: filter_empty_conv)

lemma blocker_runs:
  assumes g: "good s" and c: "te_run_count (ts_entries s f) \<noteq> 0"
  shows "\<exists>q u. q \<in> set (ts_tbb s) \<and> ts_tasks s q = Some u \<and> ent_of u = f"
proof -
  have "0 < length (filter (\<lambda>q. ent_opt (ts_tasks s q) = f) (ts_tbb s))" using c counts(1) [OF g, of f] by simp
  then obtain q where q: "q \<in> set (ts_tbb s)" "ent_opt (ts_tasks s q) = f" unfolding count_pos by blast
  obtain u where "ts_tasks s q = Some u" by (rule running_task [OF g q(1)])
  with q show ?thesis by auto
qed

lemma blocker_runs_group:
  assumes g: "good s" and c: "tg_run_count (ts_groups s h) \<noteq> 0"
  shows "\<exists>q u. q \<in> set (ts_tbb s) \<and> ts_tasks s q = Some u \<and> tk_id u = h"
proof -
  have "0 < length (filter (\<lambda>q. eid (ent_opt (ts_tasks s q)) = h) (ts_tbb s))" using c counts(2) [OF g, of h] by simp
  then obtain q where q: "q \<in> set (ts_tbb s)" "eid (ent_opt (ts_tasks s q)) = h" unfolding count_pos by blast
  obtain u where "ts_tasks s q = Some u" by (rule running_task [OF g q(1)])
  with q show ?thesis by auto
qed

lemma running_counts:
  assumes "good s" "q \<in> set (ts_tbb s)" "ts_tasks s q = Some u"
  shows "te_run_count (ts_entries s (ent_of u)) \<noteq> 0" "tg_run_count (ts_groups s (tk_id u)) \<noteq> 0"
proof -
  have "0 < length (filter (\<lambda>q. ent_opt (ts_tasks s q) = ent_of u) (ts_tbb s))"
    "0 < length (filter (\<lambda>q. eid (ent_opt (ts_tasks s q)) = tk_id u) (ts_tbb s))"
    unfolding count_pos using assms(2,3) by (intro bexI [of _ q]; simp)+
  then show "te_run_count (ts_entries s (ent_of u)) \<noteq> 0" "tg_run_count (ts_groups s (tk_id u)) \<noteq> 0"
    using counts [OF assms(1)] by simp_all
qed

text \<open>
  C1. In every state that the scheduler can reach no call aborts and every loop over the queues
  ends: a created task can be enqueued, a task handed to TBB can start, end and exit, and any task
  can be cancelled; the scheduler can be started; a policy can be set while nothing runs.
\<close>

theorem sched_never_aborts:
  assumes "reach s"
  shows "(\<forall>r t. ts_tasks s r = Some t \<longrightarrow> tk_state t = INIT \<longrightarrow> ts_seqno s + 1 < 2 ^ 64 \<longrightarrow> (\<exists>s'. Enqueue r s = Some s')) \<and>
    (\<forall>r \<in> set (ts_tbb s). (\<exists>t0 s'. execute_begin r s = Some (t0, s')) \<and> (\<forall>t0 b. \<exists>s'. execute_end r t0 b s = Some s') \<and>
      (ts_seqno s + 1 < 2 ^ 64 \<longrightarrow> (\<exists>s'. OnTaskExit r s = Some s'))) \<and>
    (\<forall>r t. ts_tasks s r = Some t \<longrightarrow> (\<exists>code s'. Cancel r s = Some (code, s'))) \<and>
    (\<exists>s'. Start s = Some s') \<and>
    (\<forall>g ps. ts_tbb s = [] \<longrightarrow> 0 \<le> g \<longrightarrow> \<not> tg_policy_set (ts_groups s g) \<longrightarrow>
      (\<forall>p \<in> set ps. 0 \<le> match_id p \<and> (match_instance p = -1 \<or> 0 \<le> match_instance p)) \<longrightarrow>
      (\<exists>s'. SetPolicy g ps s = Some s'))"
proof (intro conjI allI impI ballI)
  note g = reach_good(1) [OF assms] and tok = reach_good(2) [OF assms]
  show "\<exists>s'. Enqueue r s = Some s'" if "ts_tasks s r = Some t" "tk_state t = INIT" "ts_seqno s + 1 < 2 ^ 64" for r t
  proof -
    have "wf_t s t" by (rule swfD(7) [OF goodD(1) [OF g] that(1)])
    then have "tk_seqno t = 0" using tok that by (auto simp: tasks_ok_def wf_t_def dest: spec [of _ r])
    then show ?thesis using Enqueue_good [OF g that(1,2) _ that(3)] by (auto simp: Enqueue_def)
  qed
  fix r
  show "\<exists>t0 s'. execute_begin r s = Some (t0, s')" if "r \<in> set (ts_tbb s)" using execute_begin_good [OF g that] by blast
  show "\<exists>s'. execute_end r t0 b s = Some s'" if r: "r \<in> set (ts_tbb s)" for t0 b
    by (rule running_task [OF g r]) (use execute_end_good [OF g r] in blast)
  show "\<exists>s'. OnTaskExit r s = Some s'" if r: "r \<in> set (ts_tbb s)" "ts_seqno s + 1 < 2 ^ 64"
    by (rule running_task [OF g r(1)]) (use OnTaskExit_good [OF g r] in blast)
  show "\<exists>code s'. Cancel r s = Some (code, s')" if "ts_tasks s r = Some t" for t using Cancel_good [OF g that] by blast
qed (use Start_good SetPolicy_good reach_good(1) [OF assms] in blast)+

lemma ent_of_id: "ent_of t = ent_of u \<Longrightarrow> tk_id t = tk_id u"
  by (simp add: ent_of_def split: if_splits)

lemma excluded:
  assumes "good s" "r \<in> set (ts_tbb s)" "q \<in> set (ts_tbb s)" "r \<noteq> q" "ts_tasks s r = Some t" "ts_tasks s q = Some u"
  shows "tk_id u \<in> set (tg_policy (ts_groups s (tk_id t))) \<Longrightarrow> ent_of t = ent_of u"
    "ent_of u \<notin> set (te_policyq (ts_entries s (ent_of t)))"
    "ent_of t = ent_of u \<Longrightarrow> tk_instance t = -1 \<and> tk_instance u = -1"
proof -
  note g = assms(1)
  have x: "x_ok (core_of s)" and ro: "r_ok (core_of s)" and po: "p_ok (core_of s)" using goodD(2) [OF g] by (auto simp: cinv_def)
  note rc = running_counts [OF g assms(2,5)] and qc = running_counts [OF g assms(3,6)]
  show "ent_of t = ent_of u" if p: "tk_id u \<in> set (tg_policy (ts_groups s (tk_id t)))"
  proof (rule ccontr)
    assume n: "ent_of t \<noteq> ent_of u"
    show False
    proof (cases "tk_id t = tk_id u")
      case True
      have "eid (ent_of t) \<in> c_polg (core_of s) (eid (ent_of t))" "eid (ent_of u) = eid (ent_of t)" using p True by simp_all
      then show False using x n rc(1) qc(1) unfolding x_ok_def by (metis core_of_simps(5))
    next
      case False
      then show False using x p rc(2) qc(2) unfolding x_ok_def by (metis core_of_simps(6,9))
    qed
  qed
  show i: "tk_instance t = -1 \<and> tk_instance u = -1" if e: "ent_of t = ent_of u"
  proof (rule ccontr)
    assume "\<not> (tk_instance t = -1 \<and> tk_instance u = -1)"
    then have i: "is_inst (ent_of t)" using is_inst_ent_of [of t] is_inst_ent_of [of u] e by auto
    have "te_run_task (ts_entries s (ent_of t)) = Some r" using running_task [OF g assms(2)] assms(5) i by (metis option.inject)
    moreover have "te_run_task (ts_entries s (ent_of t)) = Some q" using running_task [OF g assms(3)] assms(6) i e by (metis option.inject)
    ultimately show False using assms(4) by simp
  qed
  show "ent_of u \<notin> set (te_policyq (ts_entries s (ent_of t)))"
  proof
    assume p: "ent_of u \<in> set (te_policyq (ts_entries s (ent_of t)))"
    show False
    proof (cases "ent_of t = ent_of u")
      case True
      have "\<not> is_inst (ent_of t)" using i [OF True] by (simp add: is_inst_ent_of)
      then have "ent_of t \<notin> c_pole (core_of s) (ent_of t)" using po unfolding p_ok_def by blast
      then show False using p True by simp
    next
      case False
      then show False using x p rc(1) qc(1) unfolding x_ok_def by (metis core_of_simps(5,8))
    qed
  qed
qed

text \<open>
  C2. Two tasks that run at the same time are never excluded by a rule between their entries, and never do
  two tasks of one instance run. Nor are they excluded by a rule between their groups, with one exception:
  when a group has a rule against itself, tasks of that group without an instance may run together, and
  no others.
\<close>

theorem sched_exclusion:
  assumes "reach s" "r \<in> set (ts_tbb s)" "q \<in> set (ts_tbb s)" "r \<noteq> q" "ts_tasks s r = Some t" "ts_tasks s q = Some u"
  shows "(tk_id u \<in> set (tg_policy (ts_groups s (tk_id t))) \<longrightarrow> tk_id t = tk_id u \<and> tk_instance t = -1 \<and> tk_instance u = -1) \<and>
    ent_of u \<notin> set (te_policyq (ts_entries s (ent_of t))) \<and>
    (tk_id t = tk_id u \<and> tk_instance t = tk_instance u \<longrightarrow> tk_instance t = -1)"
proof -
  note ex = excluded [OF reach_good(1) [OF assms(1)] assms(2-)]
  have "tk_id t = tk_id u" if "ent_of t = ent_of u" by (rule ent_of_id [OF that])
  moreover have "ent_of t = ent_of u" if "tk_id t = tk_id u \<and> tk_instance t = tk_instance u" using that by (simp add: ent_of_def)
  ultimately show ?thesis using ex by blast
qed

lemma wait_reason:
  assumes "good s" "ts_tasks s r = Some t" "tk_state t = WAIT"
  shows "\<not> ts_running s \<or> (\<exists>q u. q \<in> set (ts_tbb s) \<and> ts_tasks s q = Some u \<and>
    (tk_id u \<in> set (tg_policy (ts_groups s (tk_id t))) \<or> ent_of u \<in> set (te_policyq (ts_entries s (ent_of t)))))"
proof -
  note g = assms(1)
  have "te_waitq (ts_entries s (ent_of t)) \<noteq> []" using waiting_in_queue(1) [OF g assms(2,3)] by auto
  then obtain d where d: "c_own (core_of s) (ent_of t) = Some d"
    using goodD(2) [OF g] unfolding cinv_def q_ok_def by (metis core_of_simps(1) empty_iff not_None_eq)
  then have "active (core_of s) d (ent_of t)" using goodD(2) [OF g] unfolding cinv_def b_ok_def by blast
  then consider "\<not> ts_running s" | f where "te_run_count (ts_entries s f) \<noteq> 0" "f \<in> set (te_policyq (ts_entries s (ent_of t)))"
    | h where "tg_run_count (ts_groups s h) \<noteq> 0" "h \<in> set (tg_policy (ts_groups s (tk_id t)))"
    by (cases d) (auto split: if_splits)
  then show ?thesis by cases (use blocker_runs [OF g] blocker_runs_group [OF g] in blast)+
qed

text \<open>
  C3. No wake-up is lost: when a task waits, the scheduler is stopped or a task runs that a policy
  excludes with it.
\<close>

theorem sched_no_lost_wakeup:
  assumes "reach s" "ts_tasks s r = Some t" "tk_state t = WAIT"
  shows "\<not> ts_running s \<or> (\<exists>q u. q \<in> set (ts_tbb s) \<and> ts_tasks s q = Some u \<and>
    (tk_id u \<in> set (tg_policy (ts_groups s (tk_id t))) \<or> ent_of u \<in> set (te_policyq (ts_entries s (ent_of t)))))"
  by (rule wait_reason [OF reach_good(1) [OF assms(1)] assms(2,3)])

lemma db_pos: "db_at db i = Some True \<longleftrightarrow> 0 \<le> i \<and> nat i < length db \<and> db ! nat i"
  by (auto simp: db_at_def)

lemma IsWaitQEmpty_iff:
  assumes "good s"
  shows "IsWaitQEmpty g s \<longleftrightarrow> te_waitq (ts_entries s (GroupEntry g)) = [] \<and> (\<forall>i. te_waitq (ts_entries s (InstEntry g i)) = [])"
proof -
  have nd: "\<not> te_disable (ts_entries s e)" for e using swfD(1) [OF goodD(1) [OF assms], of e] by (simp add: wf_e_def)
  have "inst_live s g i" if "te_waitq (ts_entries s (InstEntry g i)) \<noteq> []" for i
    using busy_alloc(2) [OF goodD(1) [OF assms] that] by simp
  then have live: "0 \<le> i \<and> nat i < length (tg_entry_db (ts_groups s g)) \<and> tg_entry_db (ts_groups s g) ! nat i"
    if "te_waitq (ts_entries s (InstEntry g i)) \<noteq> []" for i
    using that by (simp add: inst_live_def db_pos)
  have "(\<forall>i < length (tg_entry_db (ts_groups s g)). \<not> tg_entry_db (ts_groups s g) ! i \<or> te_waitq (ts_entries s (InstEntry g (int i))) = [])
      \<longleftrightarrow> (\<forall>i. te_waitq (ts_entries s (InstEntry g i)) = [])" (is "?L \<longleftrightarrow> ?R")
  proof
    assume l: ?L
    show ?R
    proof (intro allI, rule ccontr)
      fix i assume i: "te_waitq (ts_entries s (InstEntry g i)) \<noteq> []"
      then show False using live [OF i] l [rule_format, of "nat i"] by simp
    qed
  qed simp
  then show ?thesis using nd unfolding IsWaitQEmpty_def by (simp add: list_all_iff Ball_def)
qed

lemma IsEmpty_iff:
  assumes g: "good s"
  shows "IsEmpty b s \<longleftrightarrow> ts_tbb s = [] \<and> (b \<or> (\<forall>e. te_waitq (ts_entries s e) = []))"
proof -
  have nd: "\<not> tg_disable (ts_groups s h)" for h using swfD(2) [OF goodD(1) [OF g], of h] by (simp add: wf_g_def)
  have w: "w_ok (core_of s)" using goodD(2) [OF g] by (simp add: cinv_def)
  have pl: "plain e" "group_live s (eid e)" if "te_waitq (ts_entries s e) \<noteq> []" for e
  proof -
    show "plain e" using plain_waiting [OF w] that by simp
    then show "group_live s (eid e)" using busy_alloc(2) [OF goodD(1) [OF g] that] busy_alloc(4) [OF goodD(1) [OF g]] by (cases e) auto
  qed
  have pos: "0 \<le> h \<and> nat h < length (ts_group_db s) \<and> ts_group_db s ! nat h" if "group_live s h" for h
    using that by (simp add: group_live_def db_pos)
  have run: "ts_tbb s = []" if "\<And>h. group_live s h \<Longrightarrow> tg_run_count (ts_groups s h) = 0"
  proof (rule ccontr)
    assume "ts_tbb s \<noteq> []"
    then obtain q where q: "q \<in> set (ts_tbb s)" by (cases "ts_tbb s") auto
    obtain u where u: "ts_tasks s q = Some u" "live s (ent_of u)" by (rule running_task [OF g q])
    then show False using running_counts(2) [OF g q u(1)] that [of "tk_id u"] live_group [OF u(2)] by simp
  qed
  have "IsEmpty b s \<longleftrightarrow> (\<forall>h. group_live s h \<longrightarrow> tg_run_count (ts_groups s h) = 0 \<and> (b \<or> IsWaitQEmpty h s))"
  proof -
    let ?P = "\<lambda>h. tg_run_count (ts_groups s h) = 0 \<and> (b \<or> IsWaitQEmpty h s)"
    have "(\<forall>i < length (ts_group_db s). \<not> ts_group_db s ! i \<or> ?P (int i)) \<longleftrightarrow> (\<forall>h. group_live s h \<longrightarrow> ?P h)" (is "?L \<longleftrightarrow> ?R")
    proof
      assume l: ?L
      show ?R
      proof (intro allI impI)
        fix h assume "group_live s h"
        then show "?P h" using pos [of h] l [rule_format, of "nat h"] by simp
      qed
    next
      assume r: ?R
      show ?L
      proof (intro allI impI)
        fix i assume "i < length (ts_group_db s)"
        then have "ts_group_db s ! i \<Longrightarrow> group_live s (int i)" by (simp add: group_live_def db_pos)
        then show "\<not> ts_group_db s ! i \<or> ?P (int i)" using r by blast
      qed
    qed
    then show ?thesis unfolding IsEmpty_def list_all_iff using nd by (simp add: Ball_def)
  qed
  also have "\<dots> \<longleftrightarrow> ts_tbb s = [] \<and> (b \<or> (\<forall>e. te_waitq (ts_entries s e) = []))"
  proof (intro iffI conjI allI impI)
    assume l: "\<forall>h. group_live s h \<longrightarrow> tg_run_count (ts_groups s h) = 0 \<and> (b \<or> IsWaitQEmpty h s)"
    then show "ts_tbb s = []" using run by blast
    show "b \<or> (\<forall>e. te_waitq (ts_entries s e) = [])"
    proof (rule ccontr)
      assume "\<not> (b \<or> (\<forall>e. te_waitq (ts_entries s e) = []))"
      then obtain e where e: "\<not> b" "te_waitq (ts_entries s e) \<noteq> []" by blast
      then have "IsWaitQEmpty (eid e) s" using l pl by blast
      with e pl(1) [OF e(2)] show False by (cases e) (auto simp: IsWaitQEmpty_iff [OF g])
    qed
  next
    fix h assume r: "ts_tbb s = [] \<and> (b \<or> (\<forall>e. te_waitq (ts_entries s e) = []))" "group_live s h"
    then show "tg_run_count (ts_groups s h) = 0" using counts(2) [OF g, of h] by simp
    show "b \<or> IsWaitQEmpty h s" using r IsWaitQEmpty_iff [OF g] by auto
  qed
  finally show ?thesis .
qed

text \<open>
  \<open>IsEmpty\<close> is right: with \<open>running_only\<close> it says whether a task runs, without it whether a task
  runs or waits.
\<close>

theorem sched_is_empty:
  assumes "reach s"
  shows "(IsEmpty True s \<longleftrightarrow> ts_tbb s = []) \<and>
    (IsEmpty False s \<longleftrightarrow> ts_tbb s = [] \<and> (\<forall>r t. ts_tasks s r = Some t \<longrightarrow> tk_state t \<noteq> WAIT))"
proof -
  note g = reach_good(1) [OF assms]
  have w: "w_ok (core_of s)" using goodD(2) [OF g] by (simp add: cinv_def)
  have "(\<forall>e. te_waitq (ts_entries s e) = []) \<longleftrightarrow> (\<forall>r t. ts_tasks s r = Some t \<longrightarrow> tk_state t \<noteq> WAIT)"
  proof
    assume "\<forall>r t. ts_tasks s r = Some t \<longrightarrow> tk_state t \<noteq> WAIT"
    then have "c_state (core_of s) r \<noteq> Some WAIT" for r by (cases "ts_tasks s r") auto
    then have "r \<notin> set (te_waitq (ts_entries s e))" for r e using w_okD(2) [OF w, of r e] by simp
    then show "\<forall>e. te_waitq (ts_entries s e) = []" by (metis list.set_intros(1) neq_Nil_conv)
  qed (use waiting_in_queue(1) [OF g] in fastforce)
  then show ?thesis using IsEmpty_iff [OF g] by simp
qed

section \<open>Liveness\<close>



lemma core_eqD:
  assumes "core_of a = core_of b"
  shows "ts_tbb a = ts_tbb b" "ts_seqno a = ts_seqno b" "ts_running a = ts_running b"
  using assms by (metis core_of_simps(13), metis core_of_simps(15), metis core_of_simps(14))












section \<open>Order\<close>

lemma suffix_past:
  assumes "suffix zs (as @ q # bs)" "q \<notin> set zs"
  shows "suffix zs bs"
proof -
  obtain ps where ps: "as @ q # bs = ps @ zs" using assms(1) by (auto simp: suffix_def)
  then consider us where "as = ps @ us" "us @ q # bs = zs" | us where "ps = as @ us" "q # bs = us @ zs"
    by (auto simp: append_eq_append_conv2)
  then show ?thesis
  proof cases
    case 1
    then show ?thesis using assms(2) by auto
  next
    case 2
    then show ?thesis using assms(2) by (cases us) (auto simp: suffix_def)
  qed
qed

lemma overtaken:
  assumes w: "w_ok c" "w_ok c'" and q: "c_waitq c e = xs @ r # ys @ q # zs"
    and suf: "suffix ws (c_waitq c e)" "set ws \<subseteq> set (c_waitq c' e)" "set (c_waitq c' e) \<subseteq> set ws \<union> P" "r \<notin> P"
    and st: "c_state c' q = Some RUN" "c_ent c' r = c_ent c r"
  shows "c_state c' r \<noteq> Some WAIT"
proof
  assume r: "c_state c' r = Some WAIT"
  have "q \<notin> set (c_waitq c' e)" using w_okD(2) [OF w(2), of q e] st by simp
  then have "q \<notin> set ws" using suf(2) by blast
  then have "suffix ws zs" using suffix_past [of ws "xs @ r # ys" q zs] suf(1) q by simp
  moreover have "distinct (c_waitq c e)" using w_okD(1) [OF w(1)] sorted_distinct by blast
  ultimately have n: "r \<notin> set ws" using q set_mono_suffix by fastforce
  have "c_ent c r = e" using w_okD(2) [OF w(1), of r e] q by simp
  then have "r \<in> set (c_waitq c' e)" using w_okD(2) [OF w(2), of r e] r st(2) by simp
  then show False using n suf(3,4) by blast
qed

lemma enq_ent:
  assumes "enq e r c c'"
  shows "c_ent c' = c_ent c"
  using assms by cases (simp_all add: m_wait_def m_run_def m_defer_def)

lemma moved_start_order:
  assumes g: "good s" "good s'" and mv: "moved c1 c2" "c_waitq c1 = c_waitq (core_of s)" "c_ent c1 = c_ent (core_of s)"
      "\<And>x. x \<notin> P \<Longrightarrow> c_state c1 x = c_state (core_of s) x"
    and s': "\<And>x. x \<notin> P \<Longrightarrow> c_state (core_of s') x = c_state c2 x" "\<And>x. x \<notin> P \<Longrightarrow> c_ent (core_of s') x = c_ent c2 x"
      "\<And>x. set (c_waitq c2 x) \<subseteq> set (c_waitq (core_of s') x)" "\<And>x. set (c_waitq (core_of s') x) \<subseteq> set (c_waitq c2 x) \<union> P"
    and q: "te_waitq (ts_entries s e) = xs @ r # ys @ q # zs" "q \<in> set (ts_tbb s')" and p: "\<And>x. x \<in> P \<Longrightarrow> c_state (core_of s) x \<noteq> Some WAIT"
  shows "r \<in> set (ts_tbb s')"
proof -
  have w: "w_ok (core_of s)" "w_ok (core_of s')" using goodD(2) [OF g(1)] goodD(2) [OF g(2)] by (simp_all add: cinv_def)
  have q': "c_waitq (core_of s) e = xs @ r # ys @ q # zs" using q by simp
  then have rq: "c_state (core_of s) r = Some WAIT" "c_state (core_of s) q = Some WAIT"
    using w_okD(2) [OF w(1), of r e] w_okD(2) [OF w(1), of q e] by simp_all
  then have ne: "r \<notin> P" "q \<notin> P" using p by auto
  have stq: "c_state (core_of s') q = Some RUN" using tbb_state [OF g(2)] q(2) by blast
  have ent: "c_ent (core_of s') r = c_ent (core_of s) r" using s'(2) [OF ne(1)] moved_fields(2) [OF mv(1)] mv(3) by simp
  have suf: "suffix (c_waitq c2 e) (c_waitq (core_of s) e)" using movedD(5) [OF mv(1), of e] mv(2) by simp
  have "c_state (core_of s') r \<noteq> Some WAIT"
    by (rule overtaken [OF w q' suf s'(3,4) ne(1) stq ent])
  moreover have "c_state c1 r = Some WAIT" using rq(1) mv(4) [OF ne(1)] by simp
  then have "c_state (core_of s') r = Some WAIT \<or> c_state (core_of s') r = Some RUN"
    using movedD(4) [OF mv(1), of r] s'(1) [OF ne(1)] by simp
  ultimately show ?thesis using tbb_state [OF g(2)] by blast
qed

lemma tbb_not_waiting:
  assumes "good s" "te_waitq (ts_entries s e) = xs @ r # ys @ q # zs"
  shows "q \<notin> set (ts_tbb s)" "c_state (core_of s) q = Some WAIT" "c_state (core_of s) r = Some WAIT"
proof -
  have w: "w_ok (core_of s)" using goodD(2) [OF assms(1)] by (simp add: cinv_def)
  show "c_state (core_of s) q = Some WAIT" "c_state (core_of s) r = Some WAIT"
    using w_okD(2) [OF w, of q e] w_okD(2) [OF w, of r e] assms(2) by simp_all
  then show "q \<notin> set (ts_tbb s)" using tbb_state [OF assms(1)] by simp
qed

lemma step_order:
  assumes step: "sched_step s s'" and g: "good s" and q: "te_waitq (ts_entries s e) = xs @ r # ys @ q # zs" "q \<in> set (ts_tbb s')"
  shows "r \<in> set (ts_tbb s')"
proof -
  have g': "good s'" by (rule step_good [OF step g])
  note nq = tbb_not_waiting [OF g q(1)]
  have same: False if "ts_tbb s' = ts_tbb s" using that q(2) nq(1) by simp
  show ?thesis
    using step
  proof cases
    case (enqueue p t)
    have st: "c_state (core_of s) p = Some INIT" using enqueue swfD(7) [OF goodD(1) [OF g] enqueue(1)] by (simp add: wf_t_def)
    obtain s2 where "EnqueueUnLocked p s = Some s2"
      "enq (ent_of t) p (m_task p (Some INIT) (ts_seqno s + 1) (ent_of t) (ts_seqno s + 1) (core_of s)) (core_of s2)"
      using Enqueue_good [OF g enqueue(1-4)] by blast
    then have "set (ts_tbb s') \<subseteq> insert p (set (ts_tbb s))"
      using enq_effect(1) enqueue(5) by (fastforce simp: Enqueue_def m_task_def)
    then show ?thesis using q(2) nq(1,2) st by auto
  next
    case (exit p)
    obtain t where t: "ts_tasks s p = Some t" "c_state (core_of s) p = Some RUN" by (rule running_task [OF g exit(1)])
    obtain s2 c where c: "OnTaskExit p s = Some s2" "moved (m_exit (ent_of t) p (core_of s)) c"
      "if tk_recycle t = False \<or> tk_cancel t = True then core_of s2 = m_task p None 0 StopEntry (ts_seqno s) c
       else enq (ent_of t) p (m_task p (Some INIT) (ts_seqno s + 1) (ent_of t) (ts_seqno s + 1) c) (core_of s2)"
      using OnTaskExit_good [OF g exit(1,2) t(1)] by blast
    have s2: "s2 = s'" using c(1) exit(3) by simp
    have f: "x \<notin> {p} \<Longrightarrow> c_state (core_of s') x = c_state c x" "x \<notin> {p} \<Longrightarrow> c_ent (core_of s') x = c_ent c x"
      "set (c_waitq c y) \<subseteq> set (c_waitq (core_of s') y)" "set (c_waitq (core_of s') y) \<subseteq> set (c_waitq c y) \<union> {p}" for x y
      using c(3) enq_effect(1) [of "ent_of t" p _ "core_of s'"] enq_effect(6) [of "ent_of t" p _ "core_of s'" y] enq_ent [of "ent_of t" p _ "core_of s'"]
      unfolding s2 by (fastforce simp: m_task_def split: if_splits simp del: core_of_simps)+
    show ?thesis
      by (rule moved_start_order [OF g g' c(2) _ _ _ f q]) (use t(2) in \<open>simp_all add: m_exit_def del: core_of_simps\<close>)
  next
    case (cancel p code)
    then obtain t where t: "ts_tasks s p = Some t" by auto
    have "ts_tbb s' = ts_tbb s" using Cancel_good [OF g t] cancel(2) by (auto simp: steady_def)
    then show ?thesis using same by blast
  next
    case start
    obtain s2 where "Start s = Some s2" "moved ((core_of s)\<lparr>c_running := True\<rparr>) (core_of s2)" using Start_good [OF g] by blast
    then have mv: "moved ((core_of s)\<lparr>c_running := True\<rparr>) (core_of s')" using start by simp
    show ?thesis by (rule moved_start_order [OF g g' mv _ _ _ _ _ _ _ q, of "{}"]) simp_all
  next
    case (execute p t0)
    then show ?thesis using execute_begin_good [OF g execute(1)] core_eqD(1) [of s' s] same by auto
  next
    case (executed p t0 b)
    obtain t where "ts_tasks s p = Some t" by (rule running_task [OF g executed(1)])
    then show ?thesis using execute_end_good [OF g executed(1), of t t0 b] executed(2) core_eqD(1) [of s' s] same by auto
  next
    case (policy tid ps)
    then have "c_tbb (core_of s') = c_tbb (core_of s)" using SetPolicy_good [OF g policy(1-4)] by (auto simp: m_policy_def simp del: core_of_simps)
    then show ?thesis using same by simp
  next
    case (name n i)
    then show ?thesis using GetTaskId_frame [OF name g] core_eqD(1) [of s' s] same by auto
  qed (use same in \<open>auto simp: Stop_def EnableLatencyThresholds_def\<close>)
qed

text \<open>
  C9. First come, first served: when a step starts a task that waited, every task that waited before it in
  the same entry runs too.
\<close>

theorem sched_fifo:
  assumes "reach s" "sched_step s s'" "te_waitq (ts_entries s e) = xs @ r # ys @ q # zs" "q \<in> set (ts_tbb s')"
  shows "r \<in> set (ts_tbb s')"
  using step_order [OF assms(2) reach_good(1) [OF assms(1)] assms(3,4)] .

section \<open>Policies stay\<close>





text \<open>
  C11. \<open>Cancel\<close>: a task that waits is deleted and leaves every queue while what runs and what else waits
  stays; a task that runs stays and is marked; a task that has not been enqueued is refused and nothing
  changes.
\<close>

theorem sched_cancel:
  assumes "reach s" "ts_tasks s r = Some t"
  shows "case tk_state t of
      WAIT \<Rightarrow> (\<exists>s'. Cancel r s = Some (CANCELLED, s') \<and> ts_tasks s' = (ts_tasks s)(r := None) \<and> ts_tbb s' = ts_tbb s \<and>
        (\<forall>e. set (te_waitq (ts_entries s' e)) = set (te_waitq (ts_entries s e)) - {r}))
    | RUN \<Rightarrow> Cancel r s = Some (QUEUED, upd_task r (\<lambda>t. t\<lparr>tk_cancel := True\<rparr>) s)
    | INIT \<Rightarrow> Cancel r s = Some (FAILED, s)"
proof (cases "tk_state t")
  case WAIT
  note g = reach_good(1) [OF assms(1)]
  obtain s' where s': "Cancel r s = Some (CANCELLED, s')" "good s'" "ts_tasks s' = (ts_tasks s)(r := None)" "steady (core_of s) (core_of s')"
    using Cancel_good [OF g assms(2)] WAIT by auto
  have w: "w_ok (core_of s)" "w_ok (core_of s')" using goodD(2) [OF g] goodD(2) [OF s'(2)] by (simp_all add: cinv_def)
  have "x \<in> set (te_waitq (ts_entries s' e)) \<longleftrightarrow> x \<in> set (te_waitq (ts_entries s e)) - {r}" for x e
    using w_okD(2) [OF w(1), of x e] w_okD(2) [OF w(2), of x e] s'(3) by (cases "x = r") auto
  then show ?thesis using WAIT s' by (auto simp: steady_def)
qed (use assms in \<open>simp_all add: Cancel_def\<close>)

section \<open>Task ids\<close>

definition ids_ok :: "sched \<Rightarrow> bool" where
  "ids_ok s = (distinct (map fst (ts_id_map s)) \<and> distinct (map snd (ts_id_map s)) \<and>
     (\<forall>i \<in> snd ` set (ts_id_map s). 0 < i \<and> i \<le> ts_id_max s) \<and> 0 \<le> ts_id_max s)"

lemma find_name:
  assumes "distinct (map snd m)" "map_of m n = Some i"
  shows "find (\<lambda>(n, j). i = j) m = Some (n, i)"
  using assms by (induction m) (auto simp: rev_image_eqI dest: map_of_SomeD split: if_splits)

lemma find_no_name: "i \<notin> snd ` set m \<Longrightarrow> find (\<lambda>(n, j). i = j) m = None"
  by (induction m) auto

lemma map_of_insort:
  assumes "map_of m n = None"
  shows "map_of (insort_key fst (n, i) m) = (map_of m)(n \<mapsto> i)"
  using assms by (induction m) (auto simp: fun_eq_iff split: if_splits)

lemma distinct_map_insort: "distinct (map f (insort_key k x xs)) \<longleftrightarrow> f x \<notin> f ` set xs \<and> distinct (map f xs)"
  by (induction xs) (auto simp: set_insort_key)

lemma ids_insert:
  assumes "ids_ok s" "map_of (ts_id_map s) n = None"
  shows "ids_ok (s\<lparr>ts_id_max := ts_id_max s + 1, ts_id_map := insort_key fst (n, ts_id_max s + 1) (ts_id_map s)\<rparr>)"
proof -
  let ?m = "ts_id_map s" and ?i = "ts_id_max s + 1"
  have "?i \<notin> snd ` set ?m" using assms(1) unfolding ids_ok_def by force
  moreover have "n \<notin> fst ` set ?m" using assms(2) by (simp add: map_of_eq_None_iff)
  ultimately show ?thesis using assms(1) by (auto simp: ids_ok_def set_insort_key distinct_map_insort)
qed

text \<open>
  Names and ids of tasks: \<open>GetTaskId\<close> gives the same id for a name ever after, ids of different names
  differ, ids given before stay, and \<open>GetTaskName\<close> inverts it.
\<close>

theorem task_ids:
  assumes "ids_ok s" "GetTaskId n s = (i, s')"
  shows "ids_ok s' \<and> GetTaskId n s' = (i, s') \<and> GetTaskName i s' = n \<and> 0 < i \<and>
    (\<forall>m j. GetTaskId_read m s = Some j \<longrightarrow> GetTaskId_read m s' = Some j) \<and>
    (\<forall>m j. m \<noteq> n \<longrightarrow> GetTaskId_read m s' = Some j \<longrightarrow> j \<noteq> i)"
proof -
  have ok: "ids_ok s'" and read: "map_of (ts_id_map s') n = Some i" and
    old: "\<And>m j. map_of (ts_id_map s) m = Some j \<Longrightarrow> map_of (ts_id_map s') m = Some j"
    using assms ids_insert [OF assms(1), of n] map_of_insort [of "ts_id_map s" n]
    by (auto simp: GetTaskId_def GetTaskId_read_def GetTaskId_write_def Let_def split: option.splits)
  have d: "distinct (map snd (ts_id_map s'))" and p: "\<forall>i \<in> snd ` set (ts_id_map s'). 0 < i" using ok by (simp_all add: ids_ok_def)
  have "j \<noteq> i" if "m \<noteq> n" "map_of (ts_id_map s') m = Some j" for m j
    using find_name [OF d that(2)] find_name [OF d read] that(1) by auto
  moreover have "0 < i" using p map_of_SomeD [OF read] by force
  moreover have "GetTaskName i s' = n" using find_name [OF d read] by (simp add: GetTaskName_def)
  moreover have "GetTaskId n s' = (i, s')" using read by (simp add: GetTaskId_def GetTaskId_read_def)
  ultimately show ?thesis using ok old by (auto simp: GetTaskId_read_def)
qed

text \<open>
  C39. Between the two locks of \<open>GetTaskId\<close> another thread can allocate an id for the same name. Then the
  second caller gets an id that no lookup returns and that has no name.
\<close>

theorem task_id_race:
  assumes "ids_ok s" "GetTaskId_read n s = None" "GetTaskId_write n s = (i, s1)" "GetTaskId_write n s1 = (j, s2)"
  shows "j \<noteq> i \<and> GetTaskId n s2 = (i, s2) \<and> GetTaskName j s2 = ''ERROR''"
proof -
  have n: "map_of (ts_id_map s) n = None" using assms(2) by (simp add: GetTaskId_read_def)
  have i: "i = ts_id_max s + 1" "s1 = s\<lparr>ts_id_max := i, ts_id_map := insort_key fst (n, i) (ts_id_map s)\<rparr>"
    using assms(3) n by (auto simp: GetTaskId_write_def Let_def)
  have r: "map_of (ts_id_map s1) n = Some i" using map_of_insort [OF n] i by simp
  have j: "j = i + 1" "s2 = s1\<lparr>ts_id_max := j\<rparr>" using assms(4) r i by (auto simp: GetTaskId_write_def Let_def)
  have "ids_ok s1" using ids_insert [OF assms(1) n] i by simp
  then have "j \<notin> snd ` set (ts_id_map s1)" using j i unfolding ids_ok_def by force
  then show ?thesis using j r find_no_name [of j "ts_id_map s1"] by (simp add: GetTaskName_def GetTaskId_def GetTaskId_read_def)
qed

lemma GetTaskEntry_live:
  assumes "live s (ent_of t)" "tg_task_id (ts_groups s (tk_id t)) = tk_id t"
  shows "GetTaskEntry (tk_id t) (tk_instance t) s = Some (ent_of t, s)"
proof -
  have g: "group_live s (tk_id t)" using live_group [OF assms(1)] by simp
  show ?thesis
  proof (cases "tk_instance t = -1")
    case True
    then show ?thesis using GetTaskGroup_live [OF g] by (simp add: GetTaskEntry_def group_GetTaskEntry_def ent_of_def)
  next
    case False
    then have i: "db_at (tg_entry_db (ts_groups s (tk_id t))) (tk_instance t) = Some True" using assms(1) by (simp add: ent_of_def inst_live_def)
    then have "upd_group (tk_id t) (\<lambda>x. x\<lparr>tg_entry_db := db_grow (tg_entry_db x) (tk_instance t)\<rparr>) s = s"
      using db_grow_id [OF i] by (simp add: upd_group_def)
    then show ?thesis using GetTaskGroup_live [OF g] False i assms(2)
      by (simp add: GetTaskEntry_def group_GetTaskEntry_def ent_of_def Let_def)
  qed
qed

text \<open>
  A second task for an entry of a disabled group aborts: the entry is already in the queue of
  the group's \<open>disable_entry_\<close> and \<open>AddToDisableQ\<close> adds it again.
\<close>

theorem disabled_group_second_enqueue:
  assumes "ts_tasks s r = Some t" "tk_seqno t = 0" "plain (ent_of t)" "live s (ent_of t)" "tg_disable (ts_groups s (tk_id t))"
    "te_task_id (ts_entries s (ent_of t)) = tk_id t" "tg_task_id (ts_groups s (tk_id t)) = tk_id t"
    "te_linked (ts_entries s (ent_of t))" "te_dq_entry (ts_entries s (ent_of t)) \<noteq> None"
  shows "Enqueue r s = None"
proof -
  have add: "entry_AddToDeferQ d e x = None" if "te_linked (ts_entries x e)" "te_dq_entry (ts_entries x e) \<noteq> None" for d e x
    using that by (auto simp: entry_AddToDeferQ_def deferq_insert_def Let_def upd_defs cpp_assert_def split: option.splits)
  let ?e = "ent_of t" and ?g = "tk_id t"
  let ?s = "if ts_measure_delay s then upd_task r (\<lambda>t. t\<lparr>tk_enqueue_time := ts_clock s\<rparr>) s else s"
  define s1 where "s1 = upd_task r (\<lambda>t. t\<lparr>tk_seqno := ts_seqno (?s\<lparr>ts_enqueue_count := ts_enqueue_count ?s + 1, ts_seqno := u64 (ts_seqno ?s + 1)\<rparr>)\<rparr>)
      (?s\<lparr>ts_enqueue_count := ts_enqueue_count ?s + 1, ts_seqno := u64 (ts_seqno ?s + 1)\<rparr>)"
  have f1: "ts_group_db s1 = ts_group_db s" "ts_groups s1 = ts_groups s" "ts_entries s1 = ts_entries s" "ts_tasks s1 r \<noteq> None"
    using assms(1) by (simp_all add: s1_def upd_task_def)
  obtain t0 where t0: "ts_tasks ?s r = Some t0" "tk_seqno t0 = 0" "tk_id t0 = ?g" "tk_instance t0 = tk_instance t"
    using assms(1,2) by (cases "ts_measure_delay s") (simp_all add: upd_defs)
  define s2 where "s2 = upd_gstats ?g (\<lambda>x. x\<lparr>st_enqueue_count := st_enqueue_count x + 1\<rparr>)
      (upd_task r (\<lambda>t. t\<lparr>tk_schedule_delay := tg_schedule_delay (ts_groups s1 ?g), tk_execute_delay := tg_execute_delay (ts_groups s1 ?g)\<rparr>) s1)"
  define s3 where "s3 = upd_estats ?e (\<lambda>x. x\<lparr>st_enqueue_count := st_enqueue_count x + 1\<rparr>) s2"
  have gl: "group_live s1 ?g" using live_group [OF assms(4)] by (simp add: group_live_def f1)
  have gl2: "live s2 ?e" using assms(4) by (cases ?e) (auto simp: s2_def group_live_def inst_live_def f1 upd_defs)
  have g2: "GetTaskEntry ?g (tk_instance t) s2 = Some (?e, s2)"
    using GetTaskEntry_live [OF gl2] assms(7) by (simp add: s2_def upd_defs f1)
  have dis: "tg_disable (ts_groups s3 ?g)" using assms(5) by (simp add: s3_def s2_def upd_defs f1)
  have gl3: "group_live s3 ?g" using live_group [OF gl2] by (simp add: s3_def)
  have "te_task_id (ts_entries s3 ?e) = ?g" using assms(6) by (simp add: s3_def s2_def upd_defs f1)
  moreover have "ts_tasks s3 r \<noteq> None" using f1(4) by (simp add: s3_def s2_def upd_defs)
  ultimately obtain s4 where s4: "AddToWaitQ ?e r s3 = Some s4" "tg_disable (ts_groups s4 ?g)" "te_linked (ts_entries s4 ?e)" "te_dq_entry (ts_entries s4 ?e) \<noteq> None"
    using gl3 dis assms(8,9) f1(3)
    by (auto simp: AddToWaitQ_def Let_def upd_defs group_live_def s3_def s2_def GetTaskGroup_live)
  show ?thesis
    by (simp only: Enqueue_def EnqueueUnLocked_def Let_def s1_def [symmetric] t0 GetTaskGroup_live [OF gl] s2_def [symmetric] g2
        s3_def [symmetric] Option.bind.bind_lunit cpp_assert_True prod.case dis s4(1,2) AddToDisableQ_def add [OF s4(3,4)] if_True HOL.simp_thms)
qed

section \<open>A run of the scheduler\<close>

text \<open>A client creates a task and enqueues it.\<close>

lemma create_enqueue_steps:
  assumes r: "reach s" and n: "c_state (core_of s) r = None" "0 \<le> tid" "i = -1 \<or> 0 \<le> i" "c_seqno (core_of s) + 1 < 2 ^ 64"
    and e: "e = ent_of (mk_Task tid i)" and k: "c_seqno (core_of s) + 1 = k"
  shows "\<exists>s'. sched_step\<^sup>*\<^sup>* s s' \<and> enq e r (m_task r (Some INIT) k e k (core_of s)) (core_of s')"
proof -
  let ?s = "s\<lparr>ts_tasks := (ts_tasks s)(r \<mapsto> mk_Task tid i)\<rparr>"
  have n': "ts_tasks s r = None" using n(1) by (cases "ts_tasks s r") auto
  have g: "good ?s" and c: "core_of ?s = m_task r (Some INIT) 0 e (ts_seqno s) (core_of s)"
    using create_good [OF reach_good(1) [OF r] n' n(2,3)] e by simp_all
  have t: "ts_tasks ?s r = Some (mk_Task tid i)" "tk_state (mk_Task tid i) = INIT" "tk_seqno (mk_Task tid i) = 0" "ts_seqno ?s + 1 < 2 ^ 64"
    using n(4) by (simp_all add: mk_Task_def)
  obtain s' where s': "EnqueueUnLocked r ?s = Some s'"
    "enq e r (m_task r (Some INIT) (ts_seqno ?s + 1) e (ts_seqno ?s + 1) (core_of ?s)) (core_of s')"
    using Enqueue_good [OF g t] e by auto
  have "sched_step s ?s" by (rule sched_step.create [OF n' n(2,3)])
  moreover have "sched_step ?s s'" by (rule sched_step.enqueue [OF t]) (use s'(1) in \<open>simp add: Enqueue_def\<close>)
  ultimately have "sched_step\<^sup>*\<^sup>* s s'" by (meson converse_rtranclp_into_rtranclp rtranclp.rtrancl_refl)
  moreover have "m_task r (Some INIT) (ts_seqno ?s + 1) e (ts_seqno ?s + 1) (core_of ?s) =
      m_task r (Some INIT) k e k (core_of s)"
    unfolding c using k by (simp add: m_task_def)
  ultimately show ?thesis using s'(2) by auto
qed

lemma create_enqueue:
  assumes r: "reach s" and n: "c_state (core_of s) r = None" "0 \<le> tid" "i = -1 \<or> 0 \<le> i" "c_seqno (core_of s) + 1 < 2 ^ 64"
    and e: "e = ent_of (mk_Task tid i)" and k: "c_seqno (core_of s) + 1 = k"
  shows "\<exists>s'. reach s' \<and> enq e r (m_task r (Some INIT) k e k (core_of s)) (core_of s')"
  using create_enqueue_steps [OF assms] reachable_steps [OF _ r] by blast

lemma free_not_blocked: "free c e \<Longrightarrow> \<not> blocked_by c e d"
  by (cases d) (auto simp: blocked_by_def free_def)

lemma enq_runs: "enq e r c c' \<Longrightarrow> c_waitq c e = [] \<Longrightarrow> c_running c \<Longrightarrow> free c e \<Longrightarrow> c' = m_run e r c"
  by (auto simp: enq.simps free_not_blocked)

lemma enq_blocked: "enq e r c c' \<Longrightarrow> c_waitq c e = [] \<Longrightarrow> c_running c \<Longrightarrow> \<not> free c e \<Longrightarrow> \<exists>d. c' = m_defer d e (m_wait e r c)"
  by (auto simp: enq.simps)

lemma enq_behind: "enq e r c c' \<Longrightarrow> c_waitq c e \<noteq> [] \<Longrightarrow> c' = m_wait e r c"
  by (auto simp: enq.simps)

lemma enq_stopped: "enq e r c c' \<Longrightarrow> c_waitq c e = [] \<Longrightarrow> \<not> c_running c \<Longrightarrow> c' = m_defer (EntryQ StopEntry) e (m_wait e r c)"
  by (auto simp: enq.simps)

lemma init_core:
  "c_waitq (core_of mk_TaskScheduler) = (\<lambda>_. [])" "c_rce (core_of mk_TaskScheduler) = (\<lambda>_. 0)" "c_rcg (core_of mk_TaskScheduler) = (\<lambda>_. 0)"
  "c_polg (core_of mk_TaskScheduler) = (\<lambda>_. {})" "c_state (core_of mk_TaskScheduler) = (\<lambda>_. None)"
  "c_running (core_of mk_TaskScheduler) = True" "c_seqno (core_of mk_TaskScheduler) = 0" "c_tbb (core_of mk_TaskScheduler) = []"
  "c_pole (core_of mk_TaskScheduler) (InstEntry t i) = (if i = -1 then {} else {InstEntry t i})"
  "c_pole (core_of mk_TaskScheduler) (GroupEntry t) = {}"
proof -
  have "te_waitq (fresh_entry e) = []" "te_run_count (fresh_entry e) = 0" for e by (cases e; simp add: mk_TaskEntry_def)+
  then show "c_waitq (core_of mk_TaskScheduler) = (\<lambda>_. [])" "c_rce (core_of mk_TaskScheduler) = (\<lambda>_. 0)"
    by (simp_all add: fun_eq_iff mk_TaskScheduler_def del: fresh_entry.simps)
qed (simp_all add: fun_eq_iff mk_TaskScheduler_def mk_TaskGroup_def mk_TaskEntry_def)

text \<open>Two tasks run and two wait for the first one, which has their instance.\<close>

definition demo_state :: "sched \<Rightarrow> task \<Rightarrow> task \<Rightarrow> task \<Rightarrow> bool" where
  "demo_state s t u v = (reach s \<and> ts_running s \<and> ts_tbb s = [0, 1] \<and> te_waitq (ts_entries s (InstEntry 1 0)) = [2, 3] \<and> ts_seqno s = 4 \<and>
    ts_tasks s 0 = Some t \<and> ent_of t = InstEntry 1 0 \<and> ts_tasks s 1 = Some u \<and> ent_of u = InstEntry 2 0 \<and>
    ts_tasks s 2 = Some v \<and> tk_state v = WAIT \<and> ent_of v = InstEntry 1 0 \<and> dom (ts_tasks s) = {0, 1, 2, 3})"

lemma demo_run: "\<exists>s t u v. demo_state s t u v"
proof -
  let ?a = "InstEntry 1 0" and ?b = "InstEntry 2 0"
  have ents: "?a = ent_of (mk_Task 1 0)" "?b = ent_of (mk_Task 2 0)" by (simp_all add: ent_of_def mk_Task_def)
  have r0: "reach mk_TaskScheduler" by (rule initial) simp
  have "\<exists>s'. reach s' \<and> enq ?a 0 (m_task 0 (Some INIT) 1 ?a 1 (core_of mk_TaskScheduler)) (core_of s')"
    by (rule create_enqueue [OF r0 _ _ _ _ ents(1)]) (simp_all add: init_core del: core_of_simps)
  then obtain s1 where s1: "reach s1" "enq ?a 0 (m_task 0 (Some INIT) 1 ?a 1 (core_of mk_TaskScheduler)) (core_of s1)" by blast
  have c1: "core_of s1 = m_run ?a 0 (m_task 0 (Some INIT) 1 ?a 1 (core_of mk_TaskScheduler))"
    using enq_runs [OF s1(2)] by (simp add: m_task_def free_def init_core del: core_of_simps)
  have "\<exists>s'. reach s' \<and> enq ?b 1 (m_task 1 (Some INIT) 2 ?b 2 (core_of s1)) (core_of s')"
    by (rule create_enqueue [OF s1(1) _ _ _ _ ents(2)]) (simp_all add: c1 m_run_def m_task_def init_core del: core_of_simps)
  then obtain s2 where s2: "reach s2" "enq ?b 1 (m_task 1 (Some INIT) 2 ?b 2 (core_of s1)) (core_of s2)" by blast
  have c2: "core_of s2 = m_run ?b 1 (m_task 1 (Some INIT) 2 ?b 2 (core_of s1))"
    using enq_runs [OF s2(2)] by (simp add: c1 m_run_def m_task_def free_def init_core del: core_of_simps)
  have "\<exists>s'. reach s' \<and> enq ?a 2 (m_task 2 (Some INIT) 3 ?a 3 (core_of s2)) (core_of s')"
    by (rule create_enqueue [OF s2(1) _ _ _ _ ents(1)]) (simp_all add: c2 c1 m_run_def m_task_def init_core del: core_of_simps)
  then obtain s3 where s3: "reach s3" "enq ?a 2 (m_task 2 (Some INIT) 3 ?a 3 (core_of s2)) (core_of s3)" by blast
  obtain d where c3: "core_of s3 = m_defer d ?a (m_wait ?a 2 (m_task 2 (Some INIT) 3 ?a 3 (core_of s2)))"
    using enq_blocked [OF s3(2)] by (auto simp: c2 c1 m_run_def m_task_def free_def init_core simp del: core_of_simps)
  have "\<exists>s'. reach s' \<and> enq ?a 3 (m_task 3 (Some INIT) 4 ?a 4 (core_of s3)) (core_of s')"
    by (rule create_enqueue [OF s3(1) _ _ _ _ ents(1)]) (simp_all add: c3 c2 c1 m_run_def m_task_def m_wait_def m_defer_def init_core del: core_of_simps)
  then obtain s4 where s4: "reach s4" "enq ?a 3 (m_task 3 (Some INIT) 4 ?a 4 (core_of s3)) (core_of s4)" by blast
  have c4: "core_of s4 = m_wait ?a 3 (m_task 3 (Some INIT) 4 ?a 4 (core_of s3))"
    using enq_behind [OF s4(2)] by (simp add: c3 c2 c1 m_run_def m_task_def m_wait_def m_defer_def init_core del: core_of_simps)
  have f: "c_tbb (core_of s4) = [0, 1]" "c_waitq (core_of s4) ?a = [2, 3]" "c_running (core_of s4)" "c_seqno (core_of s4) = 4"
    "c_state (core_of s4) = [0 \<mapsto> RUN, 1 \<mapsto> RUN, 2 \<mapsto> WAIT, 3 \<mapsto> WAIT]" "c_ent (core_of s4) 0 = ?a" "c_ent (core_of s4) 1 = ?b" "c_ent (core_of s4) 2 = ?a"
    by (auto simp: c4 c3 c2 c1 m_run_def m_task_def m_wait_def m_defer_def init_core simp del: core_of_simps)
  note g = reach_good(1) [OF s4(1)]
  have tb: "ts_tbb s4 = [0, 1]" using f(1) by simp
  obtain t where t: "ts_tasks s4 0 = Some t" using running_task [OF g, of 0] tb by auto
  obtain u where u: "ts_tasks s4 1 = Some u" using running_task [OF g, of 1] tb by auto
  obtain v where v: "ts_tasks s4 2 = Some v" "tk_state v = WAIT" using waiting_task [OF goodD(1) [OF g], of 2] f(5) by auto
  have "dom (ts_tasks s4) = dom (c_state (core_of s4))" by (auto simp: state_of_def)
  then have "dom (ts_tasks s4) = {0, 1, 2, 3}" unfolding f(5) by auto
  then have "demo_state s4 t u v" using s4(1) tb f(2-4,6-8) t u v by (simp add: demo_state_def)
  then show ?thesis by blast
qed


text \<open>Two tasks without an instance wait while the scheduler is stopped; the start runs both.\<close>

lemma demo_start:
  obtains s s' where "reach s" "sched_step s s'" "te_waitq (ts_entries s (GroupEntry 3)) = [0, 1]" "1 \<in> set (ts_tbb s')"
proof -
  let ?e = "GroupEntry 3"
  have ent: "?e = ent_of (mk_Task 3 (-1))" by (simp add: ent_of_def mk_Task_def)
  have "reach mk_TaskScheduler" by (rule initial) simp
  then have r0: "reach (Stop mk_TaskScheduler)" by (rule later) (rule sched_step.stop)
  have c0: "core_of (Stop mk_TaskScheduler) = (core_of mk_TaskScheduler)\<lparr>c_running := False\<rparr>"
    by (rule core_eqI) (simp_all add: Stop_def)
  have "\<exists>s'. reach s' \<and> enq ?e 0 (m_task 0 (Some INIT) 1 ?e 1 (core_of (Stop mk_TaskScheduler))) (core_of s')"
    by (rule create_enqueue [OF r0 _ _ _ _ ent]) (simp_all add: c0 init_core del: core_of_simps)
  then obtain s1 where s1: "reach s1" "enq ?e 0 (m_task 0 (Some INIT) 1 ?e 1 (core_of (Stop mk_TaskScheduler))) (core_of s1)" by blast
  have c1: "core_of s1 = m_defer (EntryQ StopEntry) ?e (m_wait ?e 0 (m_task 0 (Some INIT) 1 ?e 1 (core_of (Stop mk_TaskScheduler))))"
    using enq_stopped [OF s1(2)] by (simp add: c0 m_task_def init_core del: core_of_simps)
  have "\<exists>s'. reach s' \<and> enq ?e 1 (m_task 1 (Some INIT) 2 ?e 2 (core_of s1)) (core_of s')"
    by (rule create_enqueue [OF s1(1) _ _ _ _ ent]) (simp_all add: c1 c0 m_task_def m_wait_def m_defer_def init_core del: core_of_simps)
  then obtain s2 where s2: "reach s2" "enq ?e 1 (m_task 1 (Some INIT) 2 ?e 2 (core_of s1)) (core_of s2)" by blast
  have c2: "core_of s2 = m_wait ?e 1 (m_task 1 (Some INIT) 2 ?e 2 (core_of s1))"
    using enq_behind [OF s2(2)] by (simp add: c1 c0 m_task_def m_wait_def m_defer_def init_core del: core_of_simps)
  have f: "c_waitq (core_of s2) ?e = [0, 1]" "c_pole (core_of s2) ?e = {}" "c_polg (core_of s2) 3 = {}" "c_ent (core_of s2) 1 = ?e"
    "c_state (core_of s2) 1 = Some WAIT"
    by (simp_all add: c2 c1 c0 m_task_def m_wait_def m_defer_def init_core del: core_of_simps)
  obtain s' where s': "Start s2 = Some s'" "good s'" "moved ((core_of s2)\<lparr>c_running := True\<rparr>) (core_of s')"
    using Start_good [OF reach_good(1) [OF s2(1)]] by blast
  have p: "c_pole (core_of s') ?e = {}" "c_polg (core_of s') 3 = {}" "c_ent (core_of s') 1 = ?e" "c_running (core_of s')"
    using moved_fields [OF s'(3)] f(2-4) by (simp_all del: core_of_simps)
  have "c_state (core_of s') 1 \<noteq> Some WAIT"
  proof
    assume "c_state (core_of s') 1 = Some WAIT"
    then obtain t where t: "ts_tasks s' 1 = Some t" "tk_state t = WAIT" "c_ent (core_of s') 1 = ent_of t"
      using waiting_task [OF goodD(1) [OF s'(2)]] by metis
    then have "ent_of t = ?e" using p(3) by simp
    moreover from this have "tk_id t = 3" by (simp add: ent_of_def split: if_splits)
    ultimately show False using wait_reason [OF s'(2) t(1,2)] p by simp
  qed
  then have "1 \<in> set (ts_tbb s')" using movedD(4) [OF s'(3), of 1] f(5) tbb_state [OF s'(2)] by (simp del: core_of_simps(10))
  then show ?thesis using that [OF s2(1) sched_step.start [OF s'(1)]] f(1) by simp
qed

theorem sched_never_aborts_witness:
  "\<exists>s s1 code s2. reach s \<and> ts_tbb s = [0, 1] \<and> OnTaskExit 0 s = Some s1 \<and> Cancel 2 s = Some (code, s2)"
proof -
  obtain s t u v where "demo_state s t u v" using demo_run by blast
  then have s: "reach s" "ts_tbb s = [0, 1]" "ts_seqno s = 4" "ts_tasks s 2 = Some v" by (simp_all add: demo_state_def)
  note no = sched_never_aborts [OF s(1)]
  have "\<exists>s1. OnTaskExit 0 s = Some s1" using no s(2,3) by (elim conjE) (drule bspec [of _ _ 0], simp_all)
  moreover have "\<exists>code s2. Cancel 2 s = Some (code, s2)" using no s(4) by blast
  ultimately show ?thesis using s by blast
qed

theorem sched_exclusion_witness:
  "\<exists>s t u. reach s \<and> ts_tbb s = [0, 1] \<and> ts_tasks s 0 = Some t \<and> ts_tasks s 1 = Some u \<and>
    ent_of t = InstEntry 1 0 \<and> ent_of u = InstEntry 2 0 \<and> tk_id u \<notin> set (tg_policy (ts_groups s (tk_id t))) \<and>
    ent_of u \<notin> set (te_policyq (ts_entries s (ent_of t)))"
proof -
  obtain s t u v where "demo_state s t u v" using demo_run by blast
  then have s: "reach s" "ts_tbb s = [0, 1]" "ts_tasks s 0 = Some t" "ent_of t = InstEntry 1 0"
    "ts_tasks s 1 = Some u" "ent_of u = InstEntry 2 0" by (simp_all add: demo_state_def)
  have i: "tk_id t \<noteq> tk_id u" "ent_of t \<noteq> ent_of u" using s(4,6) by (simp_all add: ent_of_def split: if_splits)
  have "0 \<in> set (ts_tbb s)" "1 \<in> set (ts_tbb s)" "(0 :: task_ref) \<noteq> 1" using s(2) by simp_all
  from sched_exclusion [OF s(1) this s(3,5)] i
  have "tk_id u \<notin> set (tg_policy (ts_groups s (tk_id t)))" "ent_of u \<notin> set (te_policyq (ts_entries s (ent_of t)))" by blast+
  with s show ?thesis by blast
qed

theorem sched_no_lost_wakeup_witness:
  "\<exists>s v. reach s \<and> ts_running s \<and> ts_tasks s 2 = Some v \<and> tk_state v = WAIT \<and>
    (\<exists>q u. q \<in> set (ts_tbb s) \<and> ts_tasks s q = Some u \<and>
      (tk_id u \<in> set (tg_policy (ts_groups s (tk_id v))) \<or> ent_of u \<in> set (te_policyq (ts_entries s (ent_of v)))))"
proof -
  obtain s t u v where "demo_state s t u v" using demo_run by blast
  then have s: "reach s" "ts_running s" "ts_tasks s 2 = Some v" "tk_state v = WAIT" by (simp_all add: demo_state_def)
  from sched_no_lost_wakeup [OF s(1,3,4)] s show ?thesis by blast
qed

theorem sched_is_empty_witness:
  "\<exists>s. reach s \<and> ts_tbb s = [0, 1] \<and> \<not> IsEmpty True s \<and> \<not> IsEmpty False s"
proof -
  obtain s t u v where "demo_state s t u v" using demo_run by blast
  then have s: "reach s" "ts_tbb s = [0, 1]" by (simp_all add: demo_state_def)
  from sched_is_empty [OF s(1)] s(2) have "\<not> IsEmpty True s" "\<not> IsEmpty False s" by simp_all
  with s show ?thesis by blast
qed


theorem sched_fifo_witness: "\<exists>s s'. sched_step s s' \<and> te_waitq (ts_entries s (GroupEntry 3)) = [0, 1] \<and> 0 \<in> set (ts_tbb s') \<and> 1 \<in> set (ts_tbb s')"
proof -
  obtain s s' where s: "reach s" "sched_step s s'" "te_waitq (ts_entries s (GroupEntry 3)) = [0, 1]" "1 \<in> set (ts_tbb s')"
    by (rule demo_start)
  have "te_waitq (ts_entries s (GroupEntry 3)) = [] @ 0 # [] @ 1 # []" using s(3) by simp
  from sched_fifo [OF s(1,2) this s(4)] s show ?thesis by blast
qed


theorem sched_cancel_witness:
  "\<exists>s s'. reach s \<and> 2 \<in> set (te_waitq (ts_entries s (InstEntry 1 0))) \<and> Cancel 2 s = Some (CANCELLED, s') \<and>
    set (te_waitq (ts_entries s' (InstEntry 1 0))) = {3}"
proof -
  obtain s t u v where "demo_state s t u v" using demo_run by blast
  then have s: "reach s" "te_waitq (ts_entries s (InstEntry 1 0)) = [2, 3]" "ts_tasks s 2 = Some v" "tk_state v = WAIT" by (simp_all add: demo_state_def)
  from sched_cancel [OF s(1,3)] s(4) obtain s' where "Cancel 2 s = Some (CANCELLED, s')"
    "\<forall>e. set (te_waitq (ts_entries s' e)) = set (te_waitq (ts_entries s e)) - {2}" by auto
  moreover from this have "set (te_waitq (ts_entries s' (InstEntry 1 0))) = {3}" using s(2) by simp
  moreover have "2 \<in> set (te_waitq (ts_entries s (InstEntry 1 0)))" using s(2) by simp
  ultimately show ?thesis using s(1) by blast
qed

theorem task_ids_witness:
  "\<exists>i s'. GetTaskId ''bgp::Config'' mk_TaskScheduler = (i, s') \<and> GetTaskName i s' = ''bgp::Config'' \<and>
    GetTaskId ''bgp::Config'' s' = (i, s')"
proof -
  have "ids_ok mk_TaskScheduler" by (simp add: ids_ok_def mk_TaskScheduler_def)
  moreover obtain i s' where "GetTaskId ''bgp::Config'' mk_TaskScheduler = (i, s')" by fastforce
  ultimately show ?thesis using task_ids by blast
qed

theorem task_id_race_witness:
  "\<exists>i j s1 s2. GetTaskId_write ''db::DBTable'' mk_TaskScheduler = (i, s1) \<and> GetTaskId_write ''db::DBTable'' s1 = (j, s2) \<and>
    j \<noteq> i \<and> GetTaskName j s2 = ''ERROR''"
proof -
  have "ids_ok mk_TaskScheduler" "GetTaskId_read ''db::DBTable'' mk_TaskScheduler = None"
    by (simp_all add: ids_ok_def mk_TaskScheduler_def GetTaskId_read_def)
  moreover obtain i s1 where "GetTaskId_write ''db::DBTable'' mk_TaskScheduler = (i, s1)" by fastforce
  moreover obtain j s2 where "GetTaskId_write ''db::DBTable'' s1 = (j, s2)" by fastforce
  ultimately show ?thesis using task_id_race by blast
qed

theorem disabled_group_second_enqueue_witness:
  "Enqueue 0 (mk_TaskScheduler\<lparr>ts_group_db := [False, True], ts_groups := mk_TaskGroup(1 := (mk_TaskGroup 1)\<lparr>tg_disable := True\<rparr>),
     ts_entries := fresh_entry(GroupEntry 1 := (fresh_entry (GroupEntry 1))\<lparr>te_linked := True, te_dq_entry := Some (DisableEntry 1)\<rparr>),
     ts_tasks := [0 \<mapsto> mk_Task 1 (-1)]\<rparr>) = None"
  by (rule disabled_group_second_enqueue [where t = "mk_Task 1 (-1)"])
    (simp_all add: mk_Task_def ent_of_def group_live_def db_at_def mk_TaskScheduler_def mk_TaskEntry_def mk_TaskGroup_def)

end
