(* ===== verification/Task_Service.thy ===== *)
theory Task_Service
  imports Task_Steps
begin

text \<open>
  The scheduler as its clients see it. \<open>WorkQueue\<close>, \<open>TaskTrigger\<close> and \<open>Timer\<close> call
  \<open>TaskScheduler::GetInstance()\<close> to enqueue and cancel the tasks they create. The locale
  \<open>task_service\<close> states what they rely on: the record \<open>task_ops\<close> of the calls, the phase of each task,
  and the laws of the calls. Its interpretation \<open>svc\<close> proves the laws for the scheduler of
  src/base/task.cc as modelled in \<open>Task_Sched\<close>.
\<close>

section \<open>The flags\<close>

definition task_flags :: "task \<Rightarrow> bool \<times> bool" where
  "task_flags t = (tk_cancel t, tk_tbb_state t = TBB_DONE \<and> tk_impl t)"

definition flags :: "sched \<Rightarrow> task_ref \<Rightarrow> (bool \<times> bool) option" where
  "flags s r = map_option task_flags (ts_tasks s r)"

text \<open>
  A call that leaves the flags of every task as they are: whether it is cancelled, and whether
  it has come back from TBB. \<open>p\<close> is the state in the result of the call.
\<close>

definition keeps :: "('x \<Rightarrow> sched) \<Rightarrow> 'x option \<Rightarrow> sched \<Rightarrow> bool" where
  "keeps p m s = (\<forall>x. m = Some x \<longrightarrow> flags (p x) = flags s)"

named_theorems kept \<open>calls that leave the flags\<close>

lemma keeps_None [kept]: "keeps p None s"
  by (simp add: keeps_def)

lemma keeps_Some [kept]: "flags (p x) = flags s \<Longrightarrow> keeps p (Some x) s"
  by (simp add: keeps_def)

lemma keeps_bind:
  assumes "keeps p m s" "\<And>x. flags (p x) = flags s \<Longrightarrow> keeps q (f x) s"
  shows "keeps q (m \<bind> f) s"
proof (cases m)
  case None
  then show ?thesis by (simp add: keeps_def)
next
  case (Some x)
  then have "flags (p x) = flags s" using assms(1) by (simp add: keeps_def)
  from assms(2) [OF this] show ?thesis using Some by simp
qed

lemma keeps_skip: "(\<And>x. keeps p (f x) s) \<Longrightarrow> keeps p (m \<bind> f) s"
  by (cases m) (auto simp: keeps_def)

lemma keeps_trans: "keeps p m s \<Longrightarrow> flags s = flags s0 \<Longrightarrow> keeps p m s0"
  by (simp add: keeps_def)

lemma keeps_if: "(b \<Longrightarrow> keeps p m s) \<Longrightarrow> (\<not> b \<Longrightarrow> keeps p n s) \<Longrightarrow> keeps p (if b then m else n) s"
  by simp

lemma flags_upd [simp]:
  "flags (upd_entry e f s) = flags s" "flags (upd_group g h s) = flags s"
  "flags (upd_estats e k s) = flags s" "flags (upd_gstats g k s) = flags s"
  by (simp_all add: flags_def upd_defs fun_eq_iff)

lemma flags_upd_task:
  assumes "\<And>t. ts_tasks s r = Some t \<Longrightarrow> task_flags (u t) = task_flags t"
  shows "flags (upd_task r u s) = flags s"
proof
  fix q
  show "flags (upd_task r u s) q = flags s q"
    by (cases "ts_tasks s q") (auto simp: flags_def upd_task_def assms)
qed

lemma flags_frame: "ts_tasks s' = ts_tasks s \<Longrightarrow> flags s' = flags s"
  by (simp add: flags_def fun_eq_iff)

lemma flags_more [simp]:
  "flags (s\<lparr>ts_tbb := a\<rparr>) = flags s" "flags (s\<lparr>ts_done_count := n\<rparr>) = flags s"
  "flags (s\<lparr>ts_log := b\<rparr>) = flags s" "flags (s\<lparr>ts_enqueue_count := n\<rparr>) = flags s"
  "flags (s\<lparr>ts_seqno := n\<rparr>) = flags s" "flags (s\<lparr>ts_running := v\<rparr>) = flags s"
  by (rule flags_frame, simp)+

lemma GetTaskGroup_keeps [kept]: "keeps (\<lambda>x. x) (GetTaskGroup g s) s"
  unfolding GetTaskGroup_def Let_def
  by (intro keeps_skip keeps_Some flags_frame) simp

lemma GetTaskEntry_keeps [kept]: "keeps snd (GetTaskEntry g i s) s"
  unfolding GetTaskEntry_def
proof (rule keeps_bind [OF GetTaskGroup_keeps])
  fix x assume x: "flags x = flags s"
  have "flags (snd y) = flags x" if "group_GetTaskEntry g i x = Some y" for y
    using that by (intro flags_frame) (auto simp: group_GetTaskEntry_def Let_def upd_defs split: if_splits bind_splits)
  then show "keeps snd (group_GetTaskEntry g i x) s" using x by (simp add: keeps_def)
qed

lemma AddToWaitQ_keeps [kept]: "keeps (\<lambda>x. x) (AddToWaitQ e r s) s"
  unfolding AddToWaitQ_def Let_def
  by (rule keeps_skip, rule keeps_bind, rule keeps_trans [OF GetTaskGroup_keeps]) (simp_all add: flags_upd_task task_flags_def keeps_Some)

lemma deferq_insert_keeps: "keeps snd (deferq_insert e q s) s"
  unfolding deferq_insert_def by (auto intro!: keeps_skip keeps_Some split: option.splits)

lemma AddToDeferQ_keeps [kept]:
  "keeps (\<lambda>x. x) (group_AddToDeferQ g e s) s" "keeps (\<lambda>x. x) (entry_AddToDeferQ d e s) s"
  unfolding group_AddToDeferQ_def entry_AddToDeferQ_def Let_def
  by (rule keeps_bind, rule keeps_trans [OF deferq_insert_keeps], simp, simp only: split_beta,
      intro keeps_skip keeps_Some, simp)+

lemma DeleteFromDeferQ_keeps [kept]:
  "keeps (\<lambda>x. x) (group_DeleteFromDeferQ g e s) s" "keeps (\<lambda>x. x) (entry_DeleteFromDeferQ d e s) s"
  "keeps (\<lambda>x. x) (DeleteFromDeferQ o' e s) s"
  unfolding group_DeleteFromDeferQ_def entry_DeleteFromDeferQ_def Let_def
  by (intro keeps_skip keeps_Some, simp)+
     (cases o'; simp add: group_DeleteFromDeferQ_def entry_DeleteFromDeferQ_def Let_def; intro keeps_skip keeps_Some; simp)

lemma DeleteFromWaitQ_keeps [kept]: "keeps (\<lambda>x. x) (DeleteFromWaitQ e r s) s"
  unfolding DeleteFromWaitQ_def by (intro keeps_skip keeps_Some) simp

lemma StartTask_keeps [kept]: "keeps (\<lambda>x. x) (StartTask r s) s"
proof -
  have "flags s' = flags s" if st: "StartTask r s = Some s'" for s'
  proof
    fix q
    obtain t where "ts_tasks s r = Some t" "\<not> tk_impl t" using st by (cases "ts_tasks s r") (auto simp: StartTask_def Let_def cpp_assert_def split: if_splits)
    with st show "flags s' q = flags s q"
      by (auto simp: StartTask_def Let_def task_trace_def upd_task_def flags_def task_flags_def split: if_splits)
  qed
  then show ?thesis by (simp add: keeps_def)
qed

lemma RunTask_keeps [kept]: "keeps (\<lambda>x. x) (RunTask e r s) s"
  unfolding RunTask_def Let_def TaskStarted_def
  apply (rule keeps_skip)
  apply (rule keeps_bind [where p = "\<lambda>x. x"])
   apply (intro keeps_if keeps_skip keeps_Some; simp)
  apply (intro keeps_skip keeps_trans [OF StartTask_keeps]; simp)
  done

lemma DeferOnPolicyFail_keeps [kept]:
  "keeps snd (group_DeferOnPolicyFail g e r s) s" "keeps snd (entry_DeferOnPolicyFail e r s) s"
  unfolding group_DeferOnPolicyFail_def entry_DeferOnPolicyFail_def
  by (auto split: option.splits intro!: keeps_Some keeps_bind [OF AddToWaitQ_keeps] keeps_bind [OF keeps_trans [OF AddToDeferQ_keeps(1)]]
      keeps_bind [OF keeps_trans [OF AddToDeferQ_keeps(2)]])

lemma RunWaitQ_all_keeps: "RunWaitQ_all e s = Some s' \<Longrightarrow> flags s' = flags s"
proof (induction rule: RunWaitQ_all.raw_induct [rotated, consumes 1])
  case (1 f e s s')
  show ?case
  proof (cases "te_waitq (ts_entries s e)")
    case (Cons r rs)
    obtain s1 s2 where s: "DeleteFromWaitQ e r s = Some s1" "RunTask e r s1 = Some s2" "f e s2 = Some s'"
      using 1(2) Cons by (auto split: bind_splits)
    then show ?thesis using 1(1) [OF s(3)] DeleteFromWaitQ_keeps [of e r s] RunTask_keeps [of e r s1] by (simp add: keeps_def)
  qed (use 1(2) in simp)
qed

lemma RunWaitQ_keeps [kept]: "keeps (\<lambda>x. x) (RunWaitQ e s) s"
proof (cases "te_waitq (ts_entries s e)")
  case (Cons r rs)
  show ?thesis
  proof (cases "te_task_instance (ts_entries s e) \<noteq> -1")
    case True
    then show ?thesis unfolding RunWaitQ_def Cons
      by (simp, intro keeps_bind [OF DeleteFromWaitQ_keeps] keeps_bind [OF keeps_trans [OF RunTask_keeps]] keeps_if
          keeps_trans [OF AddToDeferQ_keeps(2)] keeps_Some)
  next
    case False
    then show ?thesis using RunWaitQ_all_keeps by (simp add: RunWaitQ_def Cons keeps_def)
  qed
qed (simp add: RunWaitQ_def keeps_Some)

lemma RunDeferEntry_keeps [kept]: "keeps (\<lambda>x. x) (RunDeferEntry e s) s"
  unfolding RunDeferEntry_def Let_def
  apply (rule keeps_bind [OF GetTaskGroup_keeps], rule keeps_skip)
  apply (rule keeps_bind, rule keeps_trans [OF DeferOnPolicyFail_keeps(1)], assumption)
  apply (simp only: split_beta, rule keeps_if, rule keeps_Some, assumption)
  apply (rule keeps_bind, rule keeps_trans [OF DeferOnPolicyFail_keeps(2)], assumption)
  apply (simp only: split_beta, rule keeps_if, rule keeps_Some, assumption)
  apply (rule keeps_trans [OF RunWaitQ_keeps], assumption)
  done

lemma RunDeferQ_loop_keeps: "RunDeferQ_loop d it s = Some s' \<Longrightarrow> flags s' = flags s"
proof (induction rule: RunDeferQ_loop.raw_induct [rotated, consumes 1])
  case (1 f d it s s')
  show ?case
  proof (cases it)
    case (Some e)
    obtain s1 s2 where s: "DeleteFromDeferQ d e s = Some s1" "RunDeferEntry e s1 = Some s2" "f d (it_next (deferq_of s d) e) s2 = Some s'"
      using 1(2) Some by (auto simp: Let_def split: bind_splits)
    then show ?thesis using 1(1) [OF s(3)] DeleteFromDeferQ_keeps(3) [of d e s] RunDeferEntry_keeps [of e s1] by (simp add: keeps_def)
  qed (use 1(2) in simp)
qed

lemma RunDeferQ_keeps [kept]: "keeps (\<lambda>x. x) (group_RunDeferQ g s) s" "keeps (\<lambda>x. x) (entry_RunDeferQ e s) s"
  using RunDeferQ_loop_keeps by (auto simp: keeps_def group_RunDeferQ_def entry_RunDeferQ_def)

lemma RunCombined_loop_keeps: "RunCombined_loop g d gi ei s = Some x \<Longrightarrow> flags (snd (snd x)) = flags s"
proof (induction rule: RunCombined_loop.raw_induct [rotated, consumes 1])
  case (1 f g d gi ei s x)
  show ?case
  proof (cases "gi = None \<or> ei = None")
    case True
    then show ?thesis using 1(2) by (auto split: option.splits)
  next
    case False
    then obtain ge te where i: "gi = Some ge" "ei = Some te" by auto
    note k = DeleteFromDeferQ_keeps(1) [of g ge s] DeleteFromDeferQ_keeps(2) [of d te s]
    show ?thesis
    proof (cases "TaskDeferEntryCmp s ge te")
      case True
      then obtain s1 s2 a where s: "group_DeleteFromDeferQ g ge s = Some s1" "RunDeferEntry ge s1 = Some s2" "f g d a ei s2 = Some x"
        using 1(2) i by (auto simp: Let_def split: bind_splits)
      then show ?thesis using 1(1) [OF s(3)] k RunDeferEntry_keeps [of ge s1] by (simp add: keeps_def)
    next
      case False
      then obtain s1 s2 a where s: "entry_DeleteFromDeferQ d te s = Some s1" "RunDeferEntry te s1 = Some s2" "f g d gi a s2 = Some x"
        using 1(2) i by (auto simp: Let_def split: bind_splits)
      then show ?thesis using 1(1) [OF s(3)] k RunDeferEntry_keeps [of te s1] by (simp add: keeps_def)
    qed
  qed
qed

lemma RunCombinedDeferQ_keeps [kept]: "keeps (\<lambda>x. x) (RunCombinedDeferQ d s) s"
  unfolding RunCombinedDeferQ_def Let_def
  apply (rule keeps_skip, rule keeps_skip)
  apply (rule keeps_bind [where p = "\<lambda>x. snd (snd x)"])
   apply (simp add: keeps_def RunCombined_loop_keeps)
  apply (simp only: split_beta)
  apply (intro keeps_if keeps_trans [OF RunDeferQ_keeps(1)] keeps_trans [OF RunDeferQ_keeps(2)] keeps_Some; assumption)
  done

lemma entry_TaskExited_keeps [kept]: "keeps (\<lambda>x. x) (entry_TaskExited e r g s) s"
  unfolding entry_TaskExited_def Let_def group_TaskExited_def
  apply (rule keeps_bind [where p = "\<lambda>x. x"])
   apply (intro keeps_if keeps_skip keeps_Some; simp)
  apply (intro keeps_if keeps_trans [OF RunCombinedDeferQ_keeps] keeps_trans [OF RunDeferQ_keeps(1)] keeps_trans [OF RunDeferQ_keeps(2)] keeps_Some; simp)
  done

lemma EnqueueUnLocked_keeps [kept]: "keeps (\<lambda>x. x) (EnqueueUnLocked r s) s"
  unfolding EnqueueUnLocked_def Let_def AddToDisableQ_def
  apply (rule keeps_skip, rule keeps_skip)
  apply (rule keeps_bind, rule keeps_trans [OF GetTaskGroup_keeps], simp add: flags_upd_task task_flags_def)
  apply (rule keeps_bind, rule keeps_trans [OF GetTaskEntry_keeps], simp add: flags_upd_task task_flags_def)
  apply (simp only: split_beta)
  apply (intro keeps_if)
     apply (rule keeps_bind [OF keeps_trans [OF AddToWaitQ_keeps]], simp)
     apply (intro keeps_if keeps_trans [OF AddToDeferQ_keeps(2)] keeps_Some; simp)
    apply (rule keeps_trans [OF AddToWaitQ_keeps], simp)
   apply (rule keeps_bind [OF keeps_trans [OF AddToWaitQ_keeps]], simp)
   apply (rule keeps_trans [OF AddToDeferQ_keeps(2)], simp)
  apply (rule keeps_bind [OF keeps_trans [OF DeferOnPolicyFail_keeps(1)]], simp)
  apply (simp only: split_beta, intro keeps_if keeps_Some, assumption)
  apply (rule keeps_bind [OF keeps_trans [OF DeferOnPolicyFail_keeps(2)]], simp)
  apply (simp only: split_beta, intro keeps_if keeps_Some keeps_trans [OF RunTask_keeps]; assumption)
  done

lemma Start_keeps: "keeps (\<lambda>x. x) (Start s) s"
  unfolding Start_def by (rule keeps_trans [OF RunDeferQ_keeps(2)]) simp

lemma OnTaskExit_flags:
  assumes "OnTaskExit r s = Some s'" and ts: "ts_tasks s r = Some t" and im: "tk_impl t"
  shows "q \<noteq> r \<Longrightarrow> flags s' q = flags s q"
    "tk_recycle t = False \<or> tk_cancel t = True \<Longrightarrow> flags s' r = None"
    "tk_recycle t \<Longrightarrow> \<not> tk_cancel t \<Longrightarrow> flags s' r = Some (False, False)"
proof -
  define s0 where "s0 = upd_task r (\<lambda>t. t\<lparr>tk_tbb_state := TBB_DONE\<rparr>)
      (s\<lparr>ts_done_count := ts_done_count s + 1, ts_tbb := remove1 r (ts_tbb s)\<rparr>)"
  obtain e sa sb where a: "GetTaskGroup (tk_id t) s0 = Some sa"
    and b: "entry_TaskExited e r (tk_id t) sa = Some sb"
    and c: "(if tk_recycle t = False \<or> tk_cancel t = True then Some (sb\<lparr>ts_tasks := (ts_tasks sb)(r := None)\<rparr>)
     else EnqueueUnLocked r (upd_task r (\<lambda>t. t\<lparr>tk_impl := False, tk_seqno := 0, tk_state := INIT,
                                 tk_tbb_state := TBB_INIT\<rparr>) sb)) = Some s'"
    using assms(1) ts unfolding OnTaskExit_def Let_def s0_def by (auto split: bind_splits)
  have "flags sa = flags s0" using GetTaskGroup_keeps [of "tk_id t" s0] a by (simp add: keeps_def)
  then have k: "flags sb = flags s0" using entry_TaskExited_keeps [of e r "tk_id t" sa] b by (simp add: keeps_def)
  have s0: "flags s0 q = flags s q" if "q \<noteq> r" for q using that by (simp add: s0_def upd_task_def flags_def)
  have s0r: "flags s0 r = Some (tk_cancel t, True)" using ts im by (simp add: s0_def upd_task_def flags_def task_flags_def)
  define s2 where "s2 = upd_task r (\<lambda>t. t\<lparr>tk_impl := False, tk_seqno := 0, tk_state := INIT, tk_tbb_state := TBB_INIT\<rparr>) sb"
  have s2: "flags s2 q = flags sb q" if "q \<noteq> r" for q using that by (simp add: s2_def upd_task_def flags_def)
  have "flags sb r = Some (tk_cancel t, True)" using k s0r by simp
  then have s2r: "flags s2 r = Some (tk_cancel t, False)" by (auto simp: s2_def upd_task_def flags_def task_flags_def)
  have again: "flags s' = flags s2" if "tk_recycle t" "\<not> tk_cancel t"
  proof -
    have "EnqueueUnLocked r s2 = Some s'" using c that by (simp add: s2_def)
    then show ?thesis using EnqueueUnLocked_keeps [of r s2] by (simp add: keeps_def)
  qed
  have gone: "s' = sb\<lparr>ts_tasks := (ts_tasks sb)(r := None)\<rparr>" if "tk_recycle t = False \<or> tk_cancel t = True"
    using c that by simp
  show "flags s' q = flags s q" if "q \<noteq> r"
  proof (cases "tk_recycle t = False \<or> tk_cancel t = True")
    case True
    then show ?thesis using gone k s0 [OF that] that by (auto simp: flags_def fun_eq_iff)
  next
    case False
    then show ?thesis using again k s0 [OF that] s2 [OF that] by simp
  qed
  show "flags s' r = None" if "tk_recycle t = False \<or> tk_cancel t = True" using gone [OF that] by (simp add: flags_def)
  show "flags s' r = Some (False, False)" if "tk_recycle t" "\<not> tk_cancel t" using again s2r that by simp
qed

section \<open>The interface\<close>

text \<open>
  What a client sees of a task: it does not exist, it has been created, it waits, or it is handed
  to TBB; then the flag is \<open>task_cancel_\<close>.
\<close>

datatype tphase = Gone | Fresh | Waiting | Running bool

text \<open>
  The calls: \<open>new\<close> at an address, \<open>Enqueue\<close>, \<open>Cancel\<close>, and the return of the task's \<open>Run\<close> to
  \<open>TaskImpl::execute\<close> with the time it has kept and the result.
\<close>

record 's task_ops =
  op_new :: "task_ref \<Rightarrow> int \<Rightarrow> int \<Rightarrow> 's \<Rightarrow> 's"
  op_enqueue :: "task_ref \<Rightarrow> 's \<Rightarrow> 's option"
  op_cancel :: "task_ref \<Rightarrow> 's \<Rightarrow> (cancel_code \<times> 's) option"
  op_return :: "task_ref \<Rightarrow> nat \<Rightarrow> bool \<Rightarrow> 's \<Rightarrow> 's option"

text \<open>What may happen to the tasks \<open>Q\<close> while others act: those that wait may start.\<close>

definition spares :: "task_ref set \<Rightarrow> (task_ref \<Rightarrow> tphase) \<Rightarrow> (task_ref \<Rightarrow> tphase) \<Rightarrow> bool" where
  "spares Q p p' = (\<forall>q \<in> Q. p' q = p q \<or> p q = Waiting \<and> p' q = Running False)"

lemma sparesD: "spares Q p p' \<Longrightarrow> q \<in> Q \<Longrightarrow> p' q = p q \<or> p q = Waiting \<and> p' q = Running False"
  by (simp add: spares_def)

locale task_service =
  fixes ops :: "'s task_ops" and phase :: "'s \<Rightarrow> task_ref \<Rightarrow> tphase" and ok :: "'s \<Rightarrow> bool"
    and room :: "'s \<Rightarrow> bool" and rest :: "'s \<Rightarrow> 's \<Rightarrow> bool"
  assumes new_ok: "ok s \<Longrightarrow> phase s r = Gone \<Longrightarrow> 0 \<le> i \<Longrightarrow> n = -1 \<or> 0 \<le> n \<Longrightarrow>
      ok (op_new ops r i n s) \<and> phase (op_new ops r i n s) = (phase s)(r := Fresh) \<and> room (op_new ops r i n s) = room s"
    and enqueue_ok: "ok s \<Longrightarrow> room s \<Longrightarrow> phase s r = Fresh \<Longrightarrow>
      \<exists>s'. op_enqueue ops r s = Some s' \<and> ok s' \<and>
        (phase s' = (phase s)(r := Waiting) \<or> phase s' = (phase s)(r := Running False))"
    and cancel_waiting: "ok s \<Longrightarrow> phase s r = Waiting \<Longrightarrow>
      \<exists>s'. op_cancel ops r s = Some (CANCELLED, s') \<and> ok s' \<and> phase s' = (phase s)(r := Gone)"
    and cancel_running: "ok s \<Longrightarrow> phase s r = Running c \<Longrightarrow>
      \<exists>s'. op_cancel ops r s = Some (QUEUED, s') \<and> ok s' \<and> phase s' = (phase s)(r := Running True) \<and> room s' = room s"
    and return_ok: "ok s \<Longrightarrow> room s \<Longrightarrow> phase s r = Running c \<Longrightarrow>
      \<exists>s'. op_return ops r t d s = Some s' \<and> ok s' \<and> spares (- {r}) (phase s) (phase s') \<and>
        (if d \<or> c then phase s' r = Gone else phase s' r = Waiting \<or> phase s' r = Running False)"
    and rest_ok: "ok s \<Longrightarrow> rest s s' \<Longrightarrow> ok s'"
begin

text \<open>Creating a task and enqueueing it.\<close>

lemma start_ok:
  assumes "ok s" "room s" "phase s r = Gone" "0 \<le> i" "n = -1 \<or> 0 \<le> n"
  shows "\<exists>s'. op_enqueue ops r (op_new ops r i n s) = Some s' \<and> ok s' \<and>
    (phase s' = (phase s)(r := Waiting) \<or> phase s' = (phase s)(r := Running False))"
  using enqueue_ok [of "op_new ops r i n s" r] new_ok [OF assms(1,3-5)] assms(2) by auto

end

section \<open>The scheduler as the provider\<close>

definition new_Task :: "task_ref \<Rightarrow> int \<Rightarrow> int \<Rightarrow> sched \<Rightarrow> sched" where
  "new_Task r task_id task_instance s = s\<lparr>ts_tasks := (ts_tasks s)(r \<mapsto> mk_Task task_id task_instance)\<rparr>"

definition run_returns :: "task_ref \<Rightarrow> nat \<Rightarrow> bool \<Rightarrow> sched \<Rightarrow> sched option" where
  "run_returns r t0 is_complete s = do {
     s \<leftarrow> execute_end r t0 is_complete s;
     OnTaskExit r s
   }"

definition TaskScheduler :: "sched task_ops" where
  "TaskScheduler = \<lparr>op_new = new_Task, op_enqueue = Enqueue, op_cancel = Cancel, op_return = run_returns\<rparr>"

definition phase_of :: "sched \<Rightarrow> task_ref \<Rightarrow> tphase" where
  "phase_of s r = (case ts_tasks s r of None \<Rightarrow> Gone | Some t \<Rightarrow>
     (case tk_state t of INIT \<Rightarrow> Fresh | WAIT \<Rightarrow> Waiting | RUN \<Rightarrow> Running (tk_cancel t)))"

definition seq_room :: "sched \<Rightarrow> bool" where
  "seq_room s = (ts_seqno s + 1 < 2 ^ 64)"

definition svc_ok :: "sched \<Rightarrow> bool" where
  "svc_ok s = (good s \<and> tasks_ok (core_of s) \<and>
     (\<forall>r b d. flags s r = Some (b, d) \<longrightarrow> \<not> d \<and> (b \<longrightarrow> c_state (core_of s) r = Some RUN)))"

fun phase_as :: "tstate option \<Rightarrow> (bool \<times> bool) option \<Rightarrow> tphase" where
  "phase_as None b = Gone"
| "phase_as (Some INIT) b = Fresh"
| "phase_as (Some WAIT) b = Waiting"
| "phase_as (Some RUN) b = Running (b = Some (True, False))"

declare core_of_simps [simp del]

lemma svc_okD:
  assumes "svc_ok s"
  shows "good s" "tasks_ok (core_of s)" "flags s r = Some (b, d) \<Longrightarrow> \<not> d"
    "flags s r = Some (True, d) \<Longrightarrow> c_state (core_of s) r = Some RUN"
  using assms by (auto simp: svc_ok_def)

lemma svc_ok_state:
  assumes "svc_ok s" "ts_tasks s r = Some t"
  shows "c_state (core_of s) r = Some (tk_state t)" "flags s r = Some (tk_cancel t, False)" "wf_t s t"
proof -
  show w: "wf_t s t" by (rule swfD(7) [OF goodD(1) [OF svc_okD(1) [OF assms(1)]] assms(2)])
  show f: "flags s r = Some (tk_cancel t, False)" using svc_okD(3) [OF assms(1), of r] assms(2) by (simp add: flags_def task_flags_def)
  then have "tk_tbb_state t = TBB_DONE \<longrightarrow> \<not> tk_impl t" using assms(2) by (auto simp: flags_def task_flags_def)
  then show "c_state (core_of s) r = Some (tk_state t)" using w assms(2) by (auto simp: wf_t_def core_of_simps)
qed

lemma phase_as_of:
  assumes "svc_ok s"
  shows "phase_of s r = phase_as (c_state (core_of s) r) (flags s r)"
proof (cases "ts_tasks s r")
  case (Some t)
  then show ?thesis using svc_ok_state [OF assms Some] by (auto simp: phase_of_def split: tstate.splits)
qed (simp add: phase_of_def core_of_simps)

lemma phase_cases:
  assumes "svc_ok s"
  shows "phase_of s r = Gone \<longleftrightarrow> ts_tasks s r = None"
    "phase_of s r = Fresh \<longleftrightarrow> (\<exists>t. ts_tasks s r = Some t \<and> tk_state t = INIT)"
    "phase_of s r = Waiting \<longleftrightarrow> (\<exists>t. ts_tasks s r = Some t \<and> tk_state t = WAIT)"
    "phase_of s r = Running c \<longleftrightarrow> (\<exists>t. ts_tasks s r = Some t \<and> tk_state t = RUN \<and> tk_cancel t = c)"
  by (auto simp: phase_of_def split: option.splits tstate.splits)

text \<open>A new state is a state of the service when no task has gained a flag.\<close>

lemma svc_okI:
  assumes "svc_ok s" "good s'" "tasks_ok (core_of s')"
    and "\<And>q. flags s' q = flags s q \<or> flags s' q \<in> {None, Some (False, False)} \<or> flags s' q = Some (True, False) \<and> c_state (core_of s') q = Some RUN"
    and "\<And>q. c_state (core_of s) q = Some RUN \<Longrightarrow> flags s' q = flags s q \<Longrightarrow> c_state (core_of s') q = Some RUN \<or> flags s' q \<noteq> Some (True, False)"
  shows "svc_ok s'"
  unfolding svc_ok_def
proof (intro conjI allI impI)
  fix q b d assume f: "flags s' q = Some (b, d)"
  show d: "\<not> d" using assms(4) [of q] f svc_okD(3) [OF assms(1), of q b d] by auto
  assume "b"
  with f d have f': "flags s' q = Some (True, False)" by simp
  then consider "flags s q = Some (True, False)" "flags s' q = flags s q" | "c_state (core_of s') q = Some RUN"
    using assms(4) [of q] by auto
  then show "c_state (core_of s') q = Some RUN"
    using assms(5) [of q] f' svc_okD(4) [OF assms(1)] by cases blast+
qed (use assms in auto)

lemma svc_new:
  assumes ok: "svc_ok s" and r: "phase_of s r = Gone" and i: "0 \<le> i" "n = -1 \<or> 0 \<le> n"
  shows "svc_ok (new_Task r i n s)" "phase_of (new_Task r i n s) = (phase_of s)(r := Fresh)" "seq_room (new_Task r i n s) = seq_room s"
proof -
  have n: "ts_tasks s r = None" using r phase_cases(1) [OF ok] by simp
  note g = create_good [OF svc_okD(1) [OF ok] n i, folded new_Task_def]
  show "svc_ok (new_Task r i n s)"
  proof (rule svc_okI [OF ok g(1)])
    show "tasks_ok (core_of (new_Task r i n s))" unfolding g(2)
      using svc_okD(2) [OF ok] by (auto simp: tasks_ok_def m_task_def)
  qed (auto simp: new_Task_def flags_def task_flags_def mk_Task_def state_of_def n core_of_simps)
  show "phase_of (new_Task r i n s) = (phase_of s)(r := Fresh)"
    by (auto simp: phase_of_def new_Task_def mk_Task_def)
  show "seq_room (new_Task r i n s) = seq_room s" by (simp add: seq_room_def new_Task_def)
qed

lemma svc_enqueue:
  assumes ok: "svc_ok s" and m: "seq_room s" and r: "phase_of s r = Fresh"
  shows "\<exists>s'. Enqueue r s = Some s' \<and> svc_ok s' \<and>
    (phase_of s' = (phase_of s)(r := Waiting) \<or> phase_of s' = (phase_of s)(r := Running False))"
proof -
  obtain t where t: "ts_tasks s r = Some t" "tk_state t = INIT" using r phase_cases(2) [OF ok] by auto
  note st = svc_ok_state [OF ok t(1)]
  have q0: "tk_seqno t = 0" using svc_okD(2) [OF ok] st(1) t by (auto simp: tasks_ok_def core_of_simps dest: spec [of _ r])
  obtain s' where s': "EnqueueUnLocked r s = Some s'" "good s'"
    and e: "enq (ent_of t) r (m_task r (Some INIT) (ts_seqno s + 1) (ent_of t) (ts_seqno s + 1) (core_of s)) (core_of s')"
    using Enqueue_good [OF svc_okD(1) [OF ok] t q0] m by (auto simp: seq_room_def)
  have f: "flags s' = flags s" using EnqueueUnLocked_keeps [of r s] s'(1) by (simp add: keeps_def)
  have c: "c_state (core_of s') = (c_state (core_of s))(r \<mapsto> WAIT) \<or> c_state (core_of s') = (c_state (core_of s))(r \<mapsto> RUN)"
    using enq_effect(1) [OF e] by (auto simp: m_task_def)
  have tok: "tasks_ok (core_of s')"
    using tasks_ok_enq [OF _ _ e] svc_okD(2) [OF ok] by (auto simp: tasks_ok_def)
  have nc: "\<not> tk_cancel t" using svc_okD(4) [OF ok, of r] st t(2) by auto
  have ok': "svc_ok s'"
  proof (rule svc_okI [OF ok s'(2) tok])
    fix q assume "c_state (core_of s) q = Some RUN"
    moreover have "q \<noteq> r" using calculation st(1) t(2) by auto
    ultimately show "c_state (core_of s') q = Some RUN \<or> flags s' q \<noteq> Some (True, False)" using c by auto
  qed (simp add: f)
  have fr: "flags s r = Some (False, False)" using st(2) nc by simp
  have "phase_of s' = (phase_of s)(r := Waiting) \<or> phase_of s' = (phase_of s)(r := Running False)"
    using c fr unfolding fun_eq_iff phase_as_of [OF ok'] phase_as_of [OF ok] f by (auto simp: fun_upd_def)
  then show ?thesis using s' ok' by (auto simp: Enqueue_def)
qed

lemma svc_cancel_waiting:
  assumes ok: "svc_ok s" and r: "phase_of s r = Waiting"
  shows "\<exists>s'. Cancel r s = Some (CANCELLED, s') \<and> svc_ok s' \<and> phase_of s' = (phase_of s)(r := Gone)"
proof -
  obtain t where t: "ts_tasks s r = Some t" "tk_state t = WAIT" using r phase_cases(3) [OF ok] by auto
  obtain s' where s': "Cancel r s = Some (CANCELLED, s')" "good s'" "ts_tasks s' = (ts_tasks s)(r := None)"
    using Cancel_good [OF svc_okD(1) [OF ok] t(1)] t(2) by auto
  have c: "c_state (core_of s') = (c_state (core_of s))(r := None)" and f: "flags s' = (flags s)(r := None)"
    using s'(3) by (auto simp: fun_eq_iff core_of_simps flags_def state_of_def)
  have "tasks_ok (core_of s')"
    using svc_okD(2) [OF ok] s'(3) by (auto simp: tasks_ok_def c core_of_simps state_of_def split: if_splits)
  then have "svc_ok s'" by (rule svc_okI [OF ok s'(2)]) (auto simp: c f)
  moreover have "phase_of s' = (phase_of s)(r := Gone)" using s'(3) by (auto simp: phase_of_def fun_eq_iff)
  ultimately show ?thesis using s'(1) by blast
qed

lemma svc_cancel_running:
  assumes ok: "svc_ok s" and r: "phase_of s r = Running c"
  shows "\<exists>s'. Cancel r s = Some (QUEUED, s') \<and> svc_ok s' \<and> phase_of s' = (phase_of s)(r := Running True) \<and> seq_room s' = seq_room s"
proof -
  obtain t where t: "ts_tasks s r = Some t" "tk_state t = RUN" using r phase_cases(4) [OF ok] by auto
  define s' where "s' = upd_task r (\<lambda>t. t\<lparr>tk_cancel := True\<rparr>) s"
  have e: "Cancel r s = Some (QUEUED, s')" using t by (simp add: Cancel_def s'_def)
  have g: "good s'" "core_of s' = core_of s" using Cancel_good [OF svc_okD(1) [OF ok] t(1)] t(2) e by auto
  have f: "flags s' = (flags s)(r \<mapsto> (True, False))"
    using t(1) svc_ok_state(2) [OF ok t(1)] by (auto simp: fun_eq_iff s'_def flags_def upd_task_def task_flags_def)
  have cr: "c_state (core_of s) r = Some RUN" using svc_ok_state(1) [OF ok t(1)] t(2) by simp
  have "svc_ok s'" by (rule svc_okI [OF ok g(1)]) (use svc_okD(2) [OF ok] cr in \<open>auto simp: g(2) f\<close>)
  moreover have "phase_of s' = (phase_of s)(r := Running True)" using t by (auto simp: phase_of_def fun_eq_iff s'_def upd_task_def)
  moreover have "seq_room s' = seq_room s" by (simp add: seq_room_def s'_def upd_task_def)
  ultimately show ?thesis using e by blast
qed

lemma execute_end_keeps: "keeps (\<lambda>x. x) (execute_end r t0 b s) s"
  unfolding execute_end_def Let_def
  apply (rule keeps_skip, rule keeps_bind [where p = "\<lambda>x. x"])
   apply (intro keeps_if keeps_skip keeps_Some; simp add: task_trace_def IncrementTotalRunTime_def)
  apply (rule keeps_Some)
  apply (simp add: flags_upd_task task_flags_def)
  done

lemma execute_begin_flags:
  assumes "execute_begin r s = Some (t0, s')" "svc_ok s"
  shows "flags s' = flags s"
proof
  fix q
  obtain t where t: "ts_tasks s r = Some t" using assms(1) by (auto simp: execute_begin_def split: bind_splits)
  have "tk_tbb_state t = TBB_DONE \<longrightarrow> \<not> tk_impl t" using svc_ok_state(2) [OF assms(2) t] t by (auto simp: flags_def task_flags_def)
  then show "flags s' q = flags s q" using assms(1) t
    by (auto simp: execute_begin_def Let_def upd_task_def task_trace_def flags_def task_flags_def split: if_splits)
qed

lemma moved_phase:
  assumes "moved c c'"
  shows "c_state c' q = c_state c q \<or> c_state c q = Some WAIT \<and> c_state c' q = Some RUN"
  using movedD(1) [OF assms(1), of q] movedD(4) [OF assms(1), of q] by (cases "c_state c q = Some WAIT") auto

lemma svc_return:
  assumes ok: "svc_ok s" and m: "seq_room s" and r: "phase_of s r = Running c"
  shows "\<exists>s'. run_returns r t0 d s = Some s' \<and> svc_ok s' \<and> spares (- {r}) (phase_of s) (phase_of s') \<and>
    (if d \<or> c then phase_of s' r = Gone else phase_of s' r = Waiting \<or> phase_of s' r = Running False)"
proof -
  obtain t where t: "ts_tasks s r = Some t" "tk_state t = RUN" "tk_cancel t = c" using r phase_cases(4) [OF ok] by auto
  note g = svc_okD(1) [OF ok] and st = svc_ok_state [OF ok t(1)]
  have im: "tk_impl t" using st(3) t(2) by (simp add: wf_t_def)
  have tbb: "r \<in> set (ts_tbb s)" using tbb_state [OF g] st(1) t(2) by simp
  let ?t = "t\<lparr>tk_recycle := \<not> d\<rparr>"
  obtain s1 where s1: "execute_end r t0 d s = Some s1" "good s1" "core_of s1 = core_of s" "ts_tasks s1 r = Some ?t"
    using execute_end_good [OF g tbb t(1)] by blast
  have f1: "flags s1 = flags s" using execute_end_keeps [of r t0 d s] s1(1) by (simp add: keeps_def)
  have c1: "ts_tbb s1 = ts_tbb s" "ts_seqno s1 = ts_seqno s" using s1(3) core_of_simps(13,15) by metis+
  have ent: "ent_of ?t = ent_of t" by (simp add: ent_of_def)
  obtain s' k where s': "OnTaskExit r s1 = Some s'" "good s'" and mv: "moved (m_exit (ent_of t) r (core_of s)) k"
    and k: "if d \<or> c then core_of s' = m_task r None 0 StopEntry (ts_seqno s) k
      else enq (ent_of t) r (m_task r (Some INIT) (ts_seqno s + 1) (ent_of t) (ts_seqno s + 1) k) (core_of s')"
    using OnTaskExit_good [OF s1(2) _ _ s1(4)] tbb m t(3) unfolding s1(3) c1 ent by (auto simp: seq_room_def)
  note fl = OnTaskExit_flags [OF s'(1) s1(4)]
  have flq: "flags s' q = flags s q" if "q \<noteq> r" for q using fl(1) [of q] that im by (simp add: f1)
  have flr: "flags s' r = (if d \<or> c then None else Some (False, False))" using fl(2,3) im t(3) by auto
  have kr: "c_state k q = c_state (core_of s) q \<or> c_state (core_of s) q = Some WAIT \<and> c_state k q = Some RUN" if "q \<noteq> r" for q
    using moved_phase [OF mv, of q] that by (simp add: m_exit_def)
  have cs: "if d \<or> c then c_state (core_of s') = (c_state k)(r := None)
      else c_state (core_of s') = (c_state k)(r \<mapsto> WAIT) \<or> c_state (core_of s') = (c_state k)(r \<mapsto> RUN)"
  proof (cases "d \<or> c")
    case False
    then have "enq (ent_of t) r (m_task r (Some INIT) (ts_seqno s + 1) (ent_of t) (ts_seqno s + 1) k) (core_of s')" using k by simp
    from enq_effect(1) [OF this] show ?thesis using False by (simp add: m_task_def) blast
  qed (use k in \<open>simp add: m_task_def\<close>)
  have cq: "c_state (core_of s') q = c_state (core_of s) q \<or> c_state (core_of s) q = Some WAIT \<and> c_state (core_of s') q = Some RUN" if "q \<noteq> r" for q
    using cs kr [OF that] that by (auto split: if_splits)
  have cr: "if d \<or> c then c_state (core_of s') r = None else c_state (core_of s') r = Some WAIT \<or> c_state (core_of s') r = Some RUN"
    using cs by (auto split: if_splits)
  have "tasks_ok (core_of s')"
    by (rule tasks_ok_exit [OF svc_okD(2) [OF ok] mv, of "d \<or> c" _ "ts_seqno s" "ts_seqno s + 1"]) (use k in auto)
  then have ok': "svc_ok s'"
    by (rule svc_okI [OF ok s'(2)]) (metis flq flr insertCI, metis cq cr flr option.distinct(1) prod.inject option.inject tstate.distinct(5))
  have "spares (- {r}) (phase_of s) (phase_of s')"
    unfolding spares_def phase_as_of [OF ok] phase_as_of [OF ok']
  proof
    fix q assume "q \<in> - {r}"
    then have q: "q \<noteq> r" by simp
    have "flags s q \<noteq> Some (True, False)" if "c_state (core_of s) q = Some WAIT" using svc_okD(4) [OF ok, of q] that by auto
    then show "phase_as (c_state (core_of s') q) (flags s' q) = phase_as (c_state (core_of s) q) (flags s q) \<or>
        phase_as (c_state (core_of s) q) (flags s q) = Waiting \<and> phase_as (c_state (core_of s') q) (flags s' q) = Running False"
      using cq [OF q] flq [OF q] by auto
  qed
  moreover have "if d \<or> c then phase_of s' r = Gone else phase_of s' r = Waiting \<or> phase_of s' r = Running False"
    unfolding phase_as_of [OF ok'] using cr flr by auto
  moreover have "run_returns r t0 d s = Some s'" using s1(1) s'(1) by (simp add: run_returns_def)
  ultimately show ?thesis using ok' by blast
qed

lemma svc_frame:
  assumes ok: "svc_ok s" and g: "good s'" "tasks_ok (core_of s')" and f: "flags s' = flags s"
    and c: "\<And>q. c_state (core_of s) q = Some RUN \<Longrightarrow> c_state (core_of s') q = Some RUN"
  shows "svc_ok s'"
  by (rule svc_okI [OF ok g]) (use c in \<open>simp_all add: f\<close>)

lemma SetPolicy_keeps: "keeps (\<lambda>x. x) (SetPolicy g ps s) s"
proof -
  have r: "keeps (\<lambda>x. x) (SetPolicy_rules g ps s) s" for s
  proof (induction ps arbitrary: s)
    case Nil
    show ?case by (simp add: keeps_Some)
  next
    case (Cons p ps)
    show ?case unfolding SetPolicy_rules.simps
    proof (rule keeps_bind [where p = "\<lambda>x. x"])
      show "keeps (\<lambda>x. x) (if match_instance p = -1
          then do {
            s \<leftarrow> GetTaskGroup (match_id p) s;
            Some (group_AddPolicy (match_id p) g (group_AddPolicy g (match_id p) s))
          }
          else do {
            (entry, s) \<leftarrow> GetTaskEntry g (match_instance p) s;
            (policy_entry, s) \<leftarrow> GetTaskEntry (match_id p) (match_instance p) s;
            let s = entry_AddPolicy policy_entry entry (entry_AddPolicy entry policy_entry s);
            Some (entry_AddPolicy policy_entry (GroupEntry g)
                   (entry_AddPolicy (GroupEntry g) policy_entry s))
          }) s"
        unfolding Let_def group_AddPolicy_def entry_AddPolicy_def
        apply (rule keeps_if, rule keeps_bind [OF GetTaskGroup_keeps], rule keeps_Some, simp)
        apply (rule keeps_bind [OF GetTaskEntry_keeps], simp only: split_beta)
        apply (rule keeps_bind, rule keeps_trans [OF GetTaskEntry_keeps], assumption, simp only: split_beta, rule keeps_Some, simp)
        done
    next
      fix x assume "flags x = flags s"
      then show "keeps (\<lambda>x. x) (SetPolicy_rules g ps x) s" using Cons keeps_trans by blast
    qed
  qed
  show ?thesis unfolding SetPolicy_def PolicySet_def
    apply (rule keeps_bind [OF GetTaskGroup_keeps])
    apply (rule keeps_bind [where p = "\<lambda>x. x"], intro keeps_skip keeps_Some, simp)
    apply (rule keeps_trans [OF r], assumption)
    done
qed

lemma exit_is_return:
  assumes "ts_tasks s r = Some t"
  shows "OnTaskExit r s = run_returns r 0 (\<not> tk_recycle t) s"
proof -
  have "upd_task r (\<lambda>x. x\<lparr>tk_recycle := tk_recycle t\<rparr>) s = s" using assms by (simp add: upd_task_def fun_upd_idem)
  then show ?thesis using assms by (simp add: run_returns_def execute_end_def)
qed

lemma svc_rest:
  assumes "sched_step s s'" "svc_ok s"
  shows "svc_ok s'"
proof -
  note g = step_good [OF assms(1) svc_okD(1) [OF assms(2)]] step_tasks_ok [OF assms(1) svc_okD(1,2) [OF assms(2)]]
  note ok = assms(2)
  note fr = svc_frame [OF ok g]
  have same: "svc_ok s'" if "ts_tasks s' = ts_tasks s"
    by (rule fr) (use that in \<open>auto simp: flags_def core_of_simps fun_eq_iff\<close>)
  from assms(1) show ?thesis
  proof cases
    case (create r tid i)
    then show ?thesis using svc_new(1) [OF ok, of r tid i] phase_cases(1) [OF ok] by (simp add: new_Task_def)
  next
    case (enqueue r t)
    then show ?thesis using svc_enqueue [OF ok, of r] phase_cases(2) [OF ok] by (auto simp: seq_room_def)
  next
    case (execute r t0)
    obtain t0' s1 where "execute_begin r s = Some (t0', s1)" "core_of s1 = core_of s" using execute_begin_good [OF svc_okD(1) [OF ok] execute(1)] by blast
    then have "core_of s' = core_of s" using execute by simp
    then show ?thesis using fr execute_begin_flags [OF execute(2) ok] by simp
  next
    case (executed r t0 b)
    obtain t where t: "ts_tasks s r = Some t" by (rule running_task [OF svc_okD(1) [OF ok] executed(1)])
    have "core_of s' = core_of s" using execute_end_good [OF svc_okD(1) [OF ok] executed(1) t, of t0 b] executed(2) by auto
    then show ?thesis using fr execute_end_keeps [of r t0 b s] executed(2) by (simp add: keeps_def)
  next
    case (exit r)
    obtain t where t: "ts_tasks s r = Some t" "tk_state t = RUN" by (rule running_task [OF svc_okD(1) [OF ok] exit(1)])
    then have "phase_of s r = Running (tk_cancel t)" using phase_cases(4) [OF ok] by simp
    then show ?thesis using svc_return [OF ok, of r "tk_cancel t" 0 "\<not> tk_recycle t"] exit exit_is_return [OF t(1)] by (auto simp: seq_room_def)
  next
    case (cancel r code)
    then obtain t where t: "ts_tasks s r = Some t" by auto
    show ?thesis
    proof (cases "tk_state t")
      case INIT
      then show ?thesis using cancel t ok by (simp add: Cancel_def)
    next
      case WAIT
      then show ?thesis using svc_cancel_waiting [OF ok, of r] phase_cases(3) [OF ok] t cancel by auto
    next
      case RUN
      then show ?thesis using svc_cancel_running [OF ok, of r] phase_cases(4) [OF ok] t cancel by auto
    qed
  next
    case stop
    then show ?thesis by (intro same) (simp add: Stop_def)
  next
    case start
    obtain s1 where "Start s = Some s1" "moved ((core_of s)\<lparr>c_running := True\<rparr>) (core_of s1)"
      using Start_good [OF svc_okD(1) [OF ok]] by auto
    then have "moved ((core_of s)\<lparr>c_running := True\<rparr>) (core_of s')" using start by simp
    then have "c_state (core_of s') q = Some RUN" if "c_state (core_of s) q = Some RUN" for q
      using moved_phase [of _ "core_of s'" q] that by fastforce
    then show ?thesis using fr Start_keeps [of s] start by (simp add: keeps_def)
  next
    case (policy tid ps)
    have "c_state (core_of s') = c_state (core_of s)" using SetPolicy_good [OF svc_okD(1) [OF ok] policy(1-4)] policy(5) by (auto simp: m_policy_def)
    then show ?thesis using fr SetPolicy_keeps [of tid ps s] policy(5) by (simp add: keeps_def)
  next
    case (tick c u)
    then show ?thesis by (intro same) simp
  next
    case (latency x d)
    then show ?thesis by (intro same) (simp add: EnableLatencyThresholds_def)
  next
    case (name n i)
    then show ?thesis by (intro same) (auto simp: GetTaskId_def GetTaskId_read_def GetTaskId_write_def Let_def split: option.splits)
  qed
qed

lemma svc_init: "svc_ok mk_TaskScheduler"
  using init_good init_tasks_ok by (simp add: svc_ok_def flags_def mk_TaskScheduler_def)

interpretation svc: task_service TaskScheduler phase_of svc_ok seq_room sched_step
  by (unfold_locales, unfold TaskScheduler_def task_ops.simps)
    (simp add: svc_new, erule (2) svc_enqueue, erule (1) svc_cancel_waiting, erule (1) svc_cancel_running,
     erule (2) svc_return, erule (1) svc_rest [rotated])

interpretation service: invariant "(=) mk_TaskScheduler" sched_step svc_ok
  by unfold_locales (use svc_init svc_rest in auto)

text \<open>The first task that is enqueued runs at once.\<close>

lemma first_runs:
  assumes "0 \<le> i" "n = -1 \<or> 0 \<le> n"
  shows "\<exists>s. Enqueue r (new_Task r i n mk_TaskScheduler) = Some s \<and> svc_ok s \<and> phase_of s = (\<lambda>_. Gone)(r := Running False) \<and> seq_room s"
proof -
  let ?e = "ent_of (mk_Task i n)"
  have gone: "phase_of mk_TaskScheduler = (\<lambda>_. Gone)" by (simp add: fun_eq_iff phase_of_def mk_TaskScheduler_def)
  have room: "seq_room mk_TaskScheduler" by (simp add: seq_room_def mk_TaskScheduler_def)
  note n = svc_new [OF svc_init _ assms, of r, unfolded gone, simplified]
  define s0 where "s0 = new_Task r i n mk_TaskScheduler"
  have s0: "svc_ok s0" "seq_room s0" "phase_of s0 r = Fresh" using n room by (simp_all add: s0_def)
  obtain s where s: "Enqueue r s0 = Some s" "svc_ok s"
    "phase_of s = (phase_of s0)(r := Waiting) \<or> phase_of s = (phase_of s0)(r := Running False)"
    using svc_enqueue [OF s0] by blast
  have t: "ts_tasks s0 r = Some (mk_Task i n)" "tk_state (mk_Task i n) = INIT" "tk_seqno (mk_Task i n) = 0" "ts_seqno s0 + 1 < 2 ^ 64"
    using s0(2) by (simp_all add: s0_def new_Task_def mk_Task_def seq_room_def)
  have c0: "core_of s0 = m_task r (Some INIT) 0 ?e 0 (core_of mk_TaskScheduler)"
    using create_good(2) [OF svc_okD(1) [OF svc_init], of r i n] assms unfolding s0_def new_Task_def by (simp add: mk_TaskScheduler_def)
  have q0: "ts_seqno s0 = 0" by (simp add: s0_def new_Task_def mk_TaskScheduler_def)
  have "enq ?e r (m_task r (Some INIT) 1 ?e 1 (core_of s0)) (core_of s)"
    using Enqueue_good [OF svc_okD(1) [OF s0(1)] t] s(1) q0 by (auto simp: Enqueue_def)
  moreover have "free (m_task r (Some INIT) 1 ?e 1 (core_of s0)) ?e"
    by (auto simp: c0 m_task_def free_def init_core)
  ultimately have c: "core_of s = m_run ?e r (m_task r (Some INIT) 1 ?e 1 (core_of s0))"
    using enq_runs by (simp add: c0 m_task_def init_core)
  then have "c_state (core_of s) r = Some RUN" by (simp add: m_run_def)
  then have "phase_of s r \<noteq> Waiting" unfolding phase_as_of [OF s(2)] by simp
  then have "phase_of s = (\<lambda>_. Gone)(r := Running False)" using s(3) n by (auto simp: s0_def)
  moreover have "c_seqno (core_of s) = 1" unfolding c by (simp add: m_run_def m_task_def)
  then have "seq_room s" by (simp add: seq_room_def core_of_simps)
  ultimately show ?thesis using s(1,2) by (auto simp: s0_def)
qed

end
