(* ===== verification/Water_Marks.thy ===== *)
theory Water_Marks
  imports Prelude
begin

text \<open>
  High and low water marks (src/base/watermark.h, src/base/watermark.cc). The marks are
  lists in the order of the sets; a callback is a number.
\<close>

record wm_info =
  wm_count :: nat
  wm_cb :: nat

text \<open>\<open>std::set\<close> ordered by \<open>count_\<close>: a mark whose count is there already is not inserted.\<close>

fun wm_insert :: "wm_info \<Rightarrow> wm_info list \<Rightarrow> wm_info list" where
  "wm_insert w [] = [w]"
| "wm_insert w (x # xs) =
     (if wm_count w < wm_count x then w # x # xs
      else if wm_count x < wm_count w then x # wm_insert w xs
      else x # xs)"

text \<open>Positions of the iterators that \<open>upper_bound\<close> and \<open>lower_bound\<close> return.\<close>

definition upper_bound :: "wm_info list \<Rightarrow> nat \<Rightarrow> nat" where
  "upper_bound ws n = length (takeWhile (\<lambda>w. wm_count w \<le> n) ws)"

definition lower_bound :: "wm_info list \<Rightarrow> nat \<Rightarrow> nat" where
  "lower_bound ws n = length (takeWhile (\<lambda>w. wm_count w < n) ws)"

text \<open>\<open>wm_calls\<close> lists the calls of the callbacks: the callback and the count it was given.\<close>

record wm_tuple =
  high_water :: "wm_info list"
  low_water :: "wm_info list"
  last_count :: nat
  wm_calls :: "(nat \<times> nat) list"

definition mk_WaterMarkTuple :: wm_tuple where
  "mk_WaterMarkTuple = \<lparr>high_water = [], low_water = [], last_count = 0, wm_calls = []\<rparr>"

definition wm_SetHighWaterMarks :: "wm_info list \<Rightarrow> wm_tuple \<Rightarrow> wm_tuple" where
  "wm_SetHighWaterMarks ws t = t\<lparr>high_water := ws\<rparr>"

definition wm_SetHighWaterMark :: "wm_info \<Rightarrow> wm_tuple \<Rightarrow> wm_tuple" where
  "wm_SetHighWaterMark w t = t\<lparr>high_water := wm_insert w (high_water t)\<rparr>"

definition wm_ResetHighWaterMark :: "wm_tuple \<Rightarrow> wm_tuple" where
  "wm_ResetHighWaterMark t = t\<lparr>high_water := []\<rparr>"

definition wm_SetLowWaterMarks :: "wm_info list \<Rightarrow> wm_tuple \<Rightarrow> wm_tuple" where
  "wm_SetLowWaterMarks ws t = t\<lparr>low_water := ws\<rparr>"

definition wm_SetLowWaterMark :: "wm_info \<Rightarrow> wm_tuple \<Rightarrow> wm_tuple" where
  "wm_SetLowWaterMark w t = t\<lparr>low_water := wm_insert w (low_water t)\<rparr>"

definition wm_ResetLowWaterMark :: "wm_tuple \<Rightarrow> wm_tuple" where
  "wm_ResetLowWaterMark t = t\<lparr>low_water := []\<rparr>"

definition wm_AreWaterMarksSet :: "wm_tuple \<Rightarrow> bool" where
  "wm_AreWaterMarksSet t = (length (high_water t) \<noteq> 0 \<or> length (low_water t) \<noteq> 0)"

definition ProcessHighWaterMarks :: "nat \<Rightarrow> wm_tuple \<Rightarrow> wm_tuple option" where
  "ProcessHighWaterMarks count t = do {
     t \<leftarrow> (if length (high_water t) \<noteq> 0 then
            (let ubound = upper_bound (high_water t) count in
             if ubound \<noteq> 0 then
               (let w = high_water t ! (ubound - 1) in do {
                  _ \<leftarrow> cpp_assert (count \<ge> wm_count w);
                  Some (if last_count t < wm_count w then t\<lparr>wm_calls := wm_calls t @ [(wm_cb w, count)]\<rparr> else t)
                })
             else Some t)
          else Some t);
     Some (t\<lparr>last_count := count\<rparr>)
   }"

definition ProcessLowWaterMarks :: "nat \<Rightarrow> wm_tuple \<Rightarrow> wm_tuple" where
  "ProcessLowWaterMarks count t =
     (let t = (if length (low_water t) \<noteq> 0 then
                 (let lbound = lower_bound (low_water t) count in
                  if lbound \<noteq> length (low_water t) then
                    (let w = low_water t ! lbound in
                     if last_count t > wm_count w then t\<lparr>wm_calls := wm_calls t @ [(wm_cb w, count)]\<rparr> else t)
                  else t)
               else t)
      in t\<lparr>last_count := count\<rparr>)"

definition ProcessWaterMarks :: "nat \<Rightarrow> nat \<Rightarrow> wm_tuple \<Rightarrow> wm_tuple option" where
  "ProcessWaterMarks in_count curr_count t =
     (if in_count < curr_count then Some (ProcessLowWaterMarks in_count t)
      else ProcessHighWaterMarks in_count t)"

section \<open>Ordered marks\<close>

definition wm_ok :: "wm_tuple \<Rightarrow> bool" where
  "wm_ok t = (sorted_wrt (\<lambda>v w. wm_count v < wm_count w) (high_water t) \<and>
     sorted_wrt (\<lambda>v w. wm_count v < wm_count w) (low_water t))"

lemma set_wm_insert: "set (wm_insert w ws) \<subseteq> insert w (set ws)"
  by (induction ws) auto

lemma sorted_wm_insert:
  "sorted_wrt (\<lambda>v w. wm_count v < wm_count w) ws \<Longrightarrow> sorted_wrt (\<lambda>v w. wm_count v < wm_count w) (wm_insert w ws)"
proof (induction ws)
  case (Cons x xs)
  then show ?case using set_wm_insert [of w xs] by fastforce
qed simp

lemma wm_ok_set [simp]:
  "wm_ok mk_WaterMarkTuple"
  "wm_ok t \<Longrightarrow> wm_ok (wm_SetHighWaterMark w t)" "wm_ok t \<Longrightarrow> wm_ok (wm_SetLowWaterMark w t)"
  "wm_ok t \<Longrightarrow> wm_ok (wm_ResetHighWaterMark t)" "wm_ok t \<Longrightarrow> wm_ok (wm_ResetLowWaterMark t)"
  by (simp_all add: wm_ok_def sorted_wm_insert mk_WaterMarkTuple_def wm_SetHighWaterMark_def wm_SetLowWaterMark_def
      wm_ResetHighWaterMark_def wm_ResetLowWaterMark_def)

text \<open>In an ordered list the marks up to a count are a prefix.\<close>

lemma takeWhile_sorted:
  assumes "sorted_wrt (\<lambda>v w. k v < (k w :: nat)) ws" "\<And>a b. a \<le> b \<Longrightarrow> P b \<Longrightarrow> P a"
  shows "takeWhile (\<lambda>w. P (k w)) ws = filter (\<lambda>w. P (k w)) ws"
  using assms(1)
proof (induction ws)
  case (Cons x xs)
  show ?case
  proof (cases "P (k x)")
    case False
    then have "\<forall>y \<in> set xs. \<not> P (k y)" using Cons.prems assms(2) by (meson less_imp_le_nat sorted_wrt.simps(2))
    then show ?thesis using False by (simp add: filter_empty_conv)
  qed (use Cons in simp)
qed simp

lemma upper_bound_mark:
  assumes s: "sorted_wrt (\<lambda>v w. wm_count v < wm_count w) ws" and n: "upper_bound ws n \<noteq> 0"
  defines "m \<equiv> ws ! (upper_bound ws n - 1)"
  shows "m \<in> set ws" "wm_count m \<le> n" "v \<in> set ws \<Longrightarrow> wm_count v \<le> n \<Longrightarrow> wm_count v \<le> wm_count m"
proof -
  let ?t = "takeWhile (\<lambda>w. wm_count w \<le> n) ws"
  have i: "upper_bound ws n - 1 < length ?t" using n by (simp add: upper_bound_def)
  have m: "m = ?t ! (length ?t - 1)" unfolding m_def using i by (metis upper_bound_def takeWhile_nth)
  have mem: "m \<in> set ?t" using i unfolding m by (metis upper_bound_def nth_mem)
  then show "m \<in> set ws" "wm_count m \<le> n" by (auto dest: set_takeWhileD)
  assume v: "v \<in> set ws" "wm_count v \<le> n"
  then have "v \<in> set ?t" using takeWhile_sorted [OF s, of "\<lambda>x. x \<le> n"] by simp
  then obtain j where j: "j < length ?t" "v = ?t ! j" by (metis in_set_conv_nth)
  have st: "sorted_wrt (\<lambda>v w. wm_count v < wm_count w) ?t" using s takeWhile_sorted [OF s, of "\<lambda>x. x \<le> n"] by (simp add: sorted_wrt_filter)
  consider "j = length ?t - 1" | "j < length ?t - 1" "length ?t - 1 < length ?t" using j(1) by linarith
  then show "wm_count v \<le> wm_count m" using j(2) m sorted_wrt_nth_less [OF st] by cases (simp, metis less_imp_le_nat)
qed

lemma lower_bound_mark:
  assumes s: "sorted_wrt (\<lambda>v w. wm_count v < wm_count w) ws" and n: "lower_bound ws n \<noteq> length ws"
  defines "m \<equiv> ws ! (lower_bound ws n)"
  shows "m \<in> set ws" "n \<le> wm_count m" "v \<in> set ws \<Longrightarrow> n \<le> wm_count v \<Longrightarrow> wm_count m \<le> wm_count v"
proof -
  have i: "lower_bound ws n < length ws" using n length_takeWhile_le [of "\<lambda>w. wm_count w < n" ws] by (simp add: lower_bound_def)
  then show "m \<in> set ws" by (simp add: m_def)
  show "n \<le> wm_count m" using nth_length_takeWhile [of "\<lambda>w. wm_count w < n" ws] i by (simp add: m_def lower_bound_def)
  assume v: "v \<in> set ws" "n \<le> wm_count v"
  obtain j where j: "j < length ws" "v = ws ! j" using v by (metis in_set_conv_nth)
  have "\<not> j < lower_bound ws n" using j v unfolding lower_bound_def by (metis nth_mem set_takeWhileD takeWhile_nth not_le)
  then show "wm_count m \<le> wm_count v"
    using sorted_wrt_nth_less [OF s, of "lower_bound ws n" j] j by (cases "j = lower_bound ws n") (auto simp: m_def)
qed

lemma upper_bound_none: "sorted_wrt (\<lambda>v w. wm_count v < wm_count w) ws \<Longrightarrow> upper_bound ws n = 0 \<longleftrightarrow> (\<forall>v \<in> set ws. n < wm_count v)"
  using takeWhile_sorted [of wm_count ws "\<lambda>x. x \<le> n"] by (auto simp: upper_bound_def filter_empty_conv)

lemma lower_bound_none: "lower_bound ws n = length ws \<longleftrightarrow> (\<forall>v \<in> set ws. wm_count v < n)"
proof
  assume "lower_bound ws n = length ws"
  then have "takeWhile (\<lambda>w. wm_count w < n) ws = ws" using takeWhile_eq_take [of _ ws] unfolding lower_bound_def by (metis take_all order_refl)
  then show "\<forall>v \<in> set ws. wm_count v < n" by (metis set_takeWhileD)
qed (simp add: lower_bound_def takeWhile_eq_all_conv [THEN iffD2])

lemma ProcessHighWaterMarks_ok:
  assumes "wm_ok t"
  shows "succeeds (ProcessHighWaterMarks n t) (\<lambda>t'. wm_ok t' \<and> last_count t' = n \<and> high_water t' = high_water t \<and> low_water t' = low_water t)"
proof -
  have s: "sorted_wrt (\<lambda>v w. wm_count v < wm_count w) (high_water t)" using assms by (simp add: wm_ok_def)
  show ?thesis using upper_bound_mark(2) [OF s] assms
    by (auto simp: ProcessHighWaterMarks_def Let_def vcg wm_ok_def)
qed

lemma ProcessLowWaterMarks_ok [simp]:
  "wm_ok (ProcessLowWaterMarks n t) = wm_ok t" "last_count (ProcessLowWaterMarks n t) = n"
  "high_water (ProcessLowWaterMarks n t) = high_water t" "low_water (ProcessLowWaterMarks n t) = low_water t"
  by (auto simp: ProcessLowWaterMarks_def Let_def wm_ok_def)

text \<open>What the callbacks are for: the count has gone up over a high mark, or down to a low mark.\<close>

definition went_over :: "nat \<Rightarrow> nat \<Rightarrow> wm_info \<Rightarrow> bool" where
  "went_over from to' w = (from < wm_count w \<and> wm_count w \<le> to')"

definition went_under :: "nat \<Rightarrow> nat \<Rightarrow> wm_info \<Rightarrow> bool" where
  "went_under from to' w = (to' \<le> wm_count w \<and> wm_count w < from)"

lemma high_calls:
  assumes "wm_ok t"
  shows "\<exists>t'. ProcessHighWaterMarks n t = Some t' \<and> last_count t' = n \<and>
    (if \<exists>w \<in> set (high_water t). went_over (last_count t) n w
     then \<exists>w \<in> set (high_water t). went_over (last_count t) n w \<and> wm_calls t' = wm_calls t @ [(wm_cb w, n)] \<and>
       (\<forall>v \<in> set (high_water t). wm_count v \<le> n \<longrightarrow> wm_count v \<le> wm_count w)
     else wm_calls t' = wm_calls t)"
proof -
  have h: "sorted_wrt (\<lambda>v w. wm_count v < wm_count w) (high_water t)" using assms by (simp add: wm_ok_def)
  let ?u = "upper_bound (high_water t) n"
  show ?thesis
  proof (cases "?u = 0")
    case True
    then show ?thesis using upper_bound_none [OF h, of n] by (auto simp: ProcessHighWaterMarks_def Let_def went_over_def)
  next
    case False
    note m = upper_bound_mark [OF h False]
    let ?t = "if last_count t < wm_count (high_water t ! (?u - 1))
      then t\<lparr>wm_calls := wm_calls t @ [(wm_cb (high_water t ! (?u - 1)), n)], last_count := n\<rparr> else t\<lparr>last_count := n\<rparr>"
    have "ProcessHighWaterMarks n t = Some ?t" using False m(1,2) by (auto simp: ProcessHighWaterMarks_def Let_def)
    moreover have "\<not> went_over (last_count t) n w"
      if "\<not> last_count t < wm_count (high_water t ! (?u - 1))" "w \<in> set (high_water t)" for w
      using m(3) [OF that(2)] that(1) by (auto simp: went_over_def)
    ultimately show ?thesis using m by (auto simp: went_over_def)
  qed
qed

lemma low_calls:
  assumes "wm_ok t"
  shows "let t' = ProcessLowWaterMarks n t in last_count t' = n \<and>
    (if \<exists>w \<in> set (low_water t). went_under (last_count t) n w
     then \<exists>w \<in> set (low_water t). went_under (last_count t) n w \<and> wm_calls t' = wm_calls t @ [(wm_cb w, n)] \<and>
       (\<forall>v \<in> set (low_water t). n \<le> wm_count v \<longrightarrow> wm_count w \<le> wm_count v)
     else wm_calls t' = wm_calls t)"
proof -
  have l: "sorted_wrt (\<lambda>v w. wm_count v < wm_count w) (low_water t)" using assms by (simp add: wm_ok_def)
  let ?l = "lower_bound (low_water t) n"
  show ?thesis
  proof (cases "?l = length (low_water t)")
    case True
    then show ?thesis using lower_bound_none [of "low_water t" n] by (auto simp: ProcessLowWaterMarks_def Let_def went_under_def)
  next
    case False
    note m = lower_bound_mark [OF l False]
    have "\<not> went_under (last_count t) n w"
      if "\<not> wm_count (low_water t ! ?l) < last_count t" "w \<in> set (low_water t)" for w
      using m(3) [OF that(2)] that(1) by (auto simp: went_under_def)
    then show ?thesis using m False by (auto simp: ProcessLowWaterMarks_def Let_def went_under_def)
  qed
qed

text \<open>
  C40. Water marks are reported when they are crossed. When the count goes from \<open>last_count_\<close> to
  \<open>n\<close>, \<open>ProcessHighWaterMarks\<close> calls the callback of the highest high mark in (\<open>last_count_\<close>, \<open>n\<close>], if there
  is one, and no other; \<open>ProcessLowWaterMarks\<close> calls that of the lowest low mark in [\<open>n\<close>, \<open>last_count_\<close>).
  The assertion of \<open>ProcessHighWaterMarks\<close> holds.
\<close>

theorem watermark_crossing:
  assumes "wm_ok t"
  shows "(\<exists>t'. ProcessHighWaterMarks n t = Some t' \<and> last_count t' = n \<and>
      (if \<exists>w \<in> set (high_water t). went_over (last_count t) n w
       then \<exists>w \<in> set (high_water t). went_over (last_count t) n w \<and> wm_calls t' = wm_calls t @ [(wm_cb w, n)] \<and>
         (\<forall>v \<in> set (high_water t). wm_count v \<le> n \<longrightarrow> wm_count v \<le> wm_count w)
       else wm_calls t' = wm_calls t)) \<and>
    (let t' = ProcessLowWaterMarks n t in last_count t' = n \<and>
      (if \<exists>w \<in> set (low_water t). went_under (last_count t) n w
       then \<exists>w \<in> set (low_water t). went_under (last_count t) n w \<and> wm_calls t' = wm_calls t @ [(wm_cb w, n)] \<and>
         (\<forall>v \<in> set (low_water t). n \<le> wm_count v \<longrightarrow> wm_count w \<le> wm_count v)
       else wm_calls t' = wm_calls t))"
  using high_calls [OF assms] low_calls [OF assms] by blast

theorem watermark_crossing_witness:
  "\<exists>t t' :: wm_tuple. wm_ok t \<and> map wm_count (high_water t) = [2, 5, 9] \<and> last_count t = 1 \<and>
    ProcessHighWaterMarks 6 t = Some t' \<and> wm_calls t' = [(1, 6)]"
proof -
  define t where "t = mk_WaterMarkTuple\<lparr>high_water := [\<lparr>wm_count = 2, wm_cb = 0\<rparr>, \<lparr>wm_count = 5, wm_cb = 1\<rparr>, \<lparr>wm_count = 9, wm_cb = 2\<rparr>],
    last_count := 1\<rparr>"
  have ok: "wm_ok t" by (simp add: t_def wm_ok_def mk_WaterMarkTuple_def)
  from watermark_crossing [OF ok, of 6] obtain t' where "ProcessHighWaterMarks 6 t = Some t'" "wm_calls t' = [(1, 6)]"
    by (auto simp: t_def mk_WaterMarkTuple_def went_over_def)
  with ok show ?thesis by (intro exI [of _ t] exI [of _ t']) (simp add: t_def mk_WaterMarkTuple_def)
qed

end
