(* ===== verification/Work_Queue.thy ===== *)
theory Work_Queue
  imports Task_Service Water_Marks
begin

text \<open>
  The work queue (src/base/queue_task.h) on top of the scheduler's interface: the data and the
  operations of \<open>WorkQueue\<close> and \<open>QueueTaskRunner\<close>.
\<close>

section \<open>Data\<close>

text \<open>
  \<open>wq_has_entry_cb\<close>, \<open>wq_has_exit_cb\<close> and \<open>wq_has_start_runner\<close> tell whether the callbacks are set; what
  a callback returns is an argument of the operation that calls it. \<open>wq_pointers\<close>: the entries are
  pointers. \<open>wq_exits\<close> and \<open>wq_freed\<close> list the calls of \<open>on_exit_cb_\<close> and the entries deleted.
\<close>

record 'a wq =
  wq_queue :: "'a list"
  wq_count :: nat
  wq_running :: bool
  wq_taskId :: int
  wq_taskInstance :: int
  wq_name :: string
  wq_has_entry_cb :: bool
  wq_has_exit_cb :: bool
  wq_has_start_runner :: bool
  wq_current_runner :: "task_ref option"
  wq_on_entry_defer_count :: nat
  wq_disabled :: bool
  wq_deleted :: bool
  wq_enqueues :: nat
  wq_dequeues :: nat
  wq_drops :: nat
  wq_max_iterations :: nat
  wq_size :: nat
  wq_bounded :: bool
  wq_shutdown_scheduled :: bool
  wq_delete_entries :: bool
  wq_watermarks :: wm_tuple
  wq_task_starts :: nat
  wq_max_queue_len :: nat
  wq_busy_time :: nat
  wq_measure_busy_time :: bool
  wq_pointers :: bool
  wq_exits :: "bool list"
  wq_freed :: "'a list"

definition kMaxSize :: nat where
  "kMaxSize = 1024"

definition kMaxIterations :: nat where
  "kMaxIterations = 32"

definition mk_WorkQueue :: "int \<Rightarrow> int \<Rightarrow> nat \<Rightarrow> nat \<Rightarrow> bool \<Rightarrow> 'a wq" where
  "mk_WorkQueue taskId taskInstance size' max_iterations pointers =
     \<lparr>wq_queue = [], wq_count = 0, wq_running = False, wq_taskId = taskId, wq_taskInstance = taskInstance,
      wq_name = [], wq_has_entry_cb = False, wq_has_exit_cb = False, wq_has_start_runner = False,
      wq_current_runner = None, wq_on_entry_defer_count = 0, wq_disabled = False, wq_deleted = False,
      wq_enqueues = 0, wq_dequeues = 0, wq_drops = 0, wq_max_iterations = max_iterations, wq_size = size',
      wq_bounded = False, wq_shutdown_scheduled = False, wq_delete_entries = True,
      wq_watermarks = mk_WaterMarkTuple, wq_task_starts = 0, wq_max_queue_len = 0, wq_busy_time = 0,
      wq_measure_busy_time = False, wq_pointers = pointers, wq_exits = [], wq_freed = []\<rparr>"

definition upd_marks :: "(wm_tuple \<Rightarrow> wm_tuple) \<Rightarrow> 'a wq \<Rightarrow> 'a wq" where
  "upd_marks f w = w\<lparr>wq_watermarks := f (wq_watermarks w)\<rparr>"

section \<open>Settings\<close>

definition SetStartRunnerFunc :: "bool \<Rightarrow> 'a wq \<Rightarrow> 'a wq" where
  "SetStartRunnerFunc fn w = w\<lparr>wq_has_start_runner := fn\<rparr>"

definition SetSize :: "nat \<Rightarrow> 'a wq \<Rightarrow> 'a wq" where
  "SetSize n w = w\<lparr>wq_size := n\<rparr>"

definition SetBounded :: "bool \<Rightarrow> 'a wq \<Rightarrow> 'a wq" where
  "SetBounded b w = w\<lparr>wq_bounded := b\<rparr>"

definition SetEntryCallback :: "bool \<Rightarrow> 'a wq \<Rightarrow> 'a wq" where
  "SetEntryCallback fn w = w\<lparr>wq_has_entry_cb := fn\<rparr>"

definition SetExitCallback :: "bool \<Rightarrow> 'a wq \<Rightarrow> 'a wq" where
  "SetExitCallback fn w = w\<lparr>wq_has_exit_cb := fn\<rparr>"

definition wq_SetHighWaterMarks :: "wm_info list \<Rightarrow> 'a wq \<Rightarrow> 'a wq" where
  "wq_SetHighWaterMarks ws = upd_marks (wm_SetHighWaterMarks ws)"

definition wq_SetLowWaterMarks :: "wm_info list \<Rightarrow> 'a wq \<Rightarrow> 'a wq" where
  "wq_SetLowWaterMarks ws = upd_marks (wm_SetLowWaterMarks ws)"

definition set_name :: "string \<Rightarrow> 'a wq \<Rightarrow> 'a wq" where
  "set_name name w = w\<lparr>wq_name := name\<rparr>"

definition set_measure_busy_time :: "bool \<Rightarrow> 'a wq \<Rightarrow> 'a wq" where
  "set_measure_busy_time val w = w\<lparr>wq_measure_busy_time := val\<rparr>"

definition wq_SetHighWaterMark :: "wm_info \<Rightarrow> 'a wq \<Rightarrow> 'a wq" where
  "wq_SetHighWaterMark hwm = upd_marks (wm_SetHighWaterMark hwm)"

definition wq_SetLowWaterMark :: "wm_info \<Rightarrow> 'a wq \<Rightarrow> 'a wq" where
  "wq_SetLowWaterMark lwm = upd_marks (wm_SetLowWaterMark lwm)"

definition wq_ResetHighWaterMark :: "'a wq \<Rightarrow> 'a wq" where
  "wq_ResetHighWaterMark = upd_marks wm_ResetHighWaterMark"

definition wq_ResetLowWaterMark :: "'a wq \<Rightarrow> 'a wq" where
  "wq_ResetLowWaterMark = upd_marks wm_ResetLowWaterMark"

definition AreWaterMarksSet :: "'a wq \<Rightarrow> bool" where
  "AreWaterMarksSet w = wm_AreWaterMarksSet (wq_watermarks w)"

definition ClearStats :: "'a wq \<Rightarrow> 'a wq" where
  "ClearStats w = w\<lparr>wq_max_queue_len := 0, wq_enqueues := 0, wq_dequeues := 0, wq_busy_time := 0, wq_task_starts := 0\<rparr>"

definition add_busy_time :: "nat \<Rightarrow> 'a wq \<Rightarrow> 'a wq" where
  "add_busy_time t w = w\<lparr>wq_busy_time := u64 (wq_busy_time w + t)\<rparr>"

section \<open>The runner\<close>

definition RunnerAbortLocked :: "bool \<Rightarrow> 'a wq \<Rightarrow> bool" where
  "RunnerAbortLocked go w = (wq_disabled w \<or> wq_shutdown_scheduled w \<or> (wq_has_start_runner w \<and> \<not> go))"

definition RunnerAbort :: "bool \<Rightarrow> 'a wq \<Rightarrow> bool" where
  "RunnerAbort go w = RunnerAbortLocked go w"

text \<open>\<open>r\<close> is the address that \<open>new QueueTaskRunner\<close> returns, \<open>go\<close> what \<open>start_runner_\<close> returns.\<close>

definition MayBeStartRunner :: "'s task_ops \<Rightarrow> bool \<Rightarrow> task_ref \<Rightarrow> 'a wq \<Rightarrow> 's \<Rightarrow> ('a wq \<times> 's) option" where
  "MayBeStartRunner ops go r w s =
     (if wq_running w \<or> wq_queue w = [] \<or> wq_deleted w \<or> RunnerAbortLocked go w then Some (w, s)
      else do {
        let w = w\<lparr>wq_task_starts := u32 (wq_task_starts w + 1), wq_running := True\<rparr>;
        _ \<leftarrow> cpp_assert (wq_current_runner w = None);
        let w = w\<lparr>wq_current_runner := Some r\<rparr>;
        let s = op_new ops r (wq_taskId w) (wq_taskInstance w) s;
        s \<leftarrow> op_enqueue ops r s;
        Some (w, s)
      })"

definition OnEntry :: "bool \<Rightarrow> 'a wq \<Rightarrow> bool \<times> 'a wq" where
  "OnEntry cb w =
     (let run = (\<not> wq_has_entry_cb w \<or> cb) in
      (run, if \<not> run then w\<lparr>wq_on_entry_defer_count := u64 (wq_on_entry_defer_count w + 1)\<rparr> else w))"

definition OnExit :: "bool \<Rightarrow> 'a wq \<Rightarrow> 'a wq" where
  "OnExit done' w = (if wq_has_exit_cb w then w\<lparr>wq_exits := wq_exits w @ [done']\<rparr> else w)"

text \<open>\<open>WorkQueueDelete\<close> followed by \<open>queue_.clear()\<close>: pointers are deleted if asked for.\<close>

definition WorkQueueDelete :: "bool \<Rightarrow> 'a wq \<Rightarrow> 'a wq" where
  "WorkQueueDelete delete_entry w =
     (if wq_pointers w
      then w\<lparr>wq_queue := [], wq_freed := (if delete_entry then wq_freed w @ wq_queue w else wq_freed w)\<rparr>
      else w)"

definition ShutdownLocked :: "'s task_ops \<Rightarrow> bool \<Rightarrow> 'a wq \<Rightarrow> 's \<Rightarrow> ('a wq \<times> 's) option" where
  "ShutdownLocked ops delete_entries w s = do {
     _ \<leftarrow> cpp_assert (\<not> wq_deleted w);
     (w, s) \<leftarrow> (if wq_running w then do {
          let w = w\<lparr>wq_running := False\<rparr>;
          r \<leftarrow> wq_current_runner w;
          (cancel_code, s) \<leftarrow> op_cancel ops r s;
          _ \<leftarrow> cpp_assert (cancel_code = CANCELLED);
          Some (w\<lparr>wq_current_runner := None\<rparr>, s)
        } else Some (w, s));
     let w = wq_ResetLowWaterMark (wq_ResetHighWaterMark w);
     let w = WorkQueueDelete delete_entries w;
     Some (w\<lparr>wq_queue := [], wq_count := 0, wq_deleted := True\<rparr>, s)
   }"

definition Shutdown :: "'s task_ops \<Rightarrow> bool \<Rightarrow> 'a wq \<Rightarrow> 's \<Rightarrow> ('a wq \<times> 's) option" where
  "Shutdown = ShutdownLocked"

definition ScheduleShutdown :: "'s task_ops \<Rightarrow> bool \<Rightarrow> 'a wq \<Rightarrow> 's \<Rightarrow> ('a wq \<times> 's) option" where
  "ScheduleShutdown ops delete_entries w s =
     (if wq_shutdown_scheduled w then Some (w, s)
      else do {
        let w = w\<lparr>wq_shutdown_scheduled := True, wq_delete_entries := delete_entries\<rparr>;
        if wq_running w then do {
          r \<leftarrow> wq_current_runner w;
          (cancel_code, s) \<leftarrow> op_cancel ops r s;
          if cancel_code = CANCELLED
          then ShutdownLocked ops delete_entries (w\<lparr>wq_running := False, wq_current_runner := None\<rparr>) s
          else do {
            _ \<leftarrow> cpp_assert (cancel_code = QUEUED);
            Some (w, s)
          }
        }
        else ShutdownLocked ops delete_entries w s
      })"

definition RunnerDone :: "'s task_ops \<Rightarrow> bool \<Rightarrow> 'a wq \<Rightarrow> 's \<Rightarrow> (bool \<times> 'a wq \<times> 's) option" where
  "RunnerDone ops go w s =
     (if wq_queue w = [] \<or> RunnerAbortLocked go w then do {
        let w = OnExit True w;
        let w = w\<lparr>wq_current_runner := None, wq_running := False\<rparr>;
        (w, s) \<leftarrow> (if wq_shutdown_scheduled w then ShutdownLocked ops (wq_delete_entries w) w s else Some (w, s));
        Some (True, w, s)
      }
      else Some (False, (OnExit False w)\<lparr>wq_running := True\<rparr>, s))"

definition set_disable :: "'s task_ops \<Rightarrow> bool \<Rightarrow> task_ref \<Rightarrow> bool \<Rightarrow> 'a wq \<Rightarrow> 's \<Rightarrow> ('a wq \<times> 's) option" where
  "set_disable ops go r disabled w s =
     (if wq_disabled w \<noteq> disabled
      then (if \<not> disabled then MayBeStartRunner ops go r (w\<lparr>wq_disabled := disabled\<rparr>) s
            else Some (w\<lparr>wq_disabled := disabled\<rparr>, s))
      else Some (w, s))"

section \<open>Taking entries out\<close>

text \<open>\<open>DequeueInternal\<close> is \<open>try_pop\<close>, then the decrement of the atomic count and the low marks.\<close>

definition Dequeue_pop :: "'a wq \<Rightarrow> ('a \<times> 'a wq) option" where
  "Dequeue_pop w = (case wq_queue w of [] \<Rightarrow> None
     | e # q \<Rightarrow> Some (e, w\<lparr>wq_queue := q, wq_dequeues := u64 (wq_dequeues w + 1)\<rparr>))"

definition Dequeue_count :: "'a wq \<Rightarrow> 'a wq" where
  "Dequeue_count w =
     (let ncount = sub64 (wq_count w) 1 in
      upd_marks (ProcessLowWaterMarks ncount) (w\<lparr>wq_count := ncount\<rparr>))"

definition DequeueInternal :: "'a wq \<Rightarrow> ('a \<times> 'a wq) option" where
  "DequeueInternal w = map_option (apsnd Dequeue_count) (Dequeue_pop w)"

definition DequeueInternalLocked :: "'a wq \<Rightarrow> ('a \<times> 'a wq) option" where
  "DequeueInternalLocked w = DequeueInternal w"

definition Dequeue :: "'a wq \<Rightarrow> ('a \<times> 'a wq) option" where
  "Dequeue w = (if AreWaterMarksSet w then DequeueInternalLocked w else DequeueInternal w)"

lemma Dequeue_length: "Dequeue w = Some (e, w') \<Longrightarrow> length (wq_queue w') < length (wq_queue w)"
  by (auto simp: Dequeue_def DequeueInternalLocked_def DequeueInternal_def Dequeue_pop_def Dequeue_count_def
      upd_marks_def Let_def split: list.splits if_splits)

text \<open>
  The loop of \<open>RunQueue\<close> when nothing else touches the queue; \<open>cb\<close> is \<open>callback_\<close>. It returns the
  entries that were processed.
\<close>

function RunQueue_loop :: "('a \<Rightarrow> bool) \<Rightarrow> nat \<Rightarrow> 'a wq \<Rightarrow> 'a list \<times> 'a wq" where
  "RunQueue_loop cb count w =
     (case Dequeue w of
        None \<Rightarrow> ([], w)
      | Some (entry, w) \<Rightarrow>
          if \<not> cb entry then ([entry], w)
          else if Suc count = wq_max_iterations w then ([entry], w)
          else apfst ((#) entry) (RunQueue_loop cb (Suc count) w))"
  by pat_completeness auto

termination
  by (relation "measure (\<lambda>(_, _, w). length (wq_queue w))") (auto dest: Dequeue_length)

definition RunQueue :: "'s task_ops \<Rightarrow> bool \<Rightarrow> ('a \<Rightarrow> bool) \<Rightarrow> nat \<Rightarrow> nat \<Rightarrow> 'a wq \<Rightarrow> 's \<Rightarrow> (bool \<times> 'a list \<times> 'a wq \<times> 's) option" where
  "RunQueue ops go cb now later w s =
     (if RunnerAbort go w then map_option (\<lambda>(d, w, s). (d, [], w, s)) (RunnerDone ops go w s)
      else do {
        let start = (if wq_measure_busy_time w then now else 0);
        let (es, w) = RunQueue_loop cb 0 w;
        let w = (if start \<noteq> 0 then add_busy_time (sub64 later start) w else w);
        (d, w, s) \<leftarrow> RunnerDone ops go w s;
        Some (d, es, w, s)
      })"

definition QueueTaskRunner_Run :: "'s task_ops \<Rightarrow> bool \<Rightarrow> bool \<Rightarrow> ('a \<Rightarrow> bool) \<Rightarrow> nat \<Rightarrow> nat \<Rightarrow> 'a wq \<Rightarrow> 's \<Rightarrow> (bool \<times> 'a list \<times> 'a wq \<times> 's) option" where
  "QueueTaskRunner_Run ops entry_cb go cb now later w s =
     (let (run, w) = OnEntry entry_cb w in
      if \<not> run then Some (False, [], w, s) else RunQueue ops go cb now later w s)"

section \<open>Adding entries\<close>

text \<open>
  \<open>EnqueueInternal\<close> and \<open>EnqueueBounded\<close> up to the push: the atomic increment, the statistics and the
  high marks. The bounded one tells whether there is room.
\<close>

definition EnqueueInternal_count :: "'a wq \<Rightarrow> (nat \<times> 'a wq) option" where
  "EnqueueInternal_count w = do {
     let w = w\<lparr>wq_enqueues := u64 (wq_enqueues w + 1)\<rparr>;
     let ncount = u64 (wq_count w + 1);
     let w = w\<lparr>wq_count := ncount, wq_max_queue_len := (if ncount > wq_max_queue_len w then ncount else wq_max_queue_len w)\<rparr>;
     m \<leftarrow> ProcessHighWaterMarks ncount (wq_watermarks w);
     Some (ncount, w\<lparr>wq_watermarks := m\<rparr>)
   }"

definition EnqueueBounded_count :: "'a wq \<Rightarrow> (bool \<times> 'a wq) option" where
  "EnqueueBounded_count w = do {
     let ncount = u64 (wq_count w + 1);
     let w = w\<lparr>wq_count := ncount, wq_max_queue_len := (if ncount > wq_max_queue_len w then ncount else wq_max_queue_len w)\<rparr>;
     if ncount < wq_size w then do {
       let w = w\<lparr>wq_enqueues := u64 (wq_enqueues w + 1)\<rparr>;
       m \<leftarrow> ProcessHighWaterMarks ncount (wq_watermarks w);
       Some (True, w\<lparr>wq_watermarks := m\<rparr>)
     }
     else Some (False, w)
   }"

definition EnqueueBounded_drop :: "'a wq \<Rightarrow> 'a wq" where
  "EnqueueBounded_drop w =
     (let w = w\<lparr>wq_count := sub64 (wq_count w) 1, wq_drops := u64 (wq_drops w + 1)\<rparr>
      in w\<lparr>wq_max_queue_len := wq_count w\<rparr>)"

definition queue_push :: "'a \<Rightarrow> 'a wq \<Rightarrow> 'a wq" where
  "queue_push e w = w\<lparr>wq_queue := wq_queue w @ [e]\<rparr>"

definition EnqueueInternal :: "'s task_ops \<Rightarrow> bool \<Rightarrow> task_ref \<Rightarrow> 'a \<Rightarrow> 'a wq \<Rightarrow> 's \<Rightarrow> (bool \<times> 'a wq \<times> 's) option" where
  "EnqueueInternal ops go r entry w s = do {
     (ncount, w) \<leftarrow> EnqueueInternal_count w;
     (w, s) \<leftarrow> MayBeStartRunner ops go r (queue_push entry w) s;
     Some (ncount < wq_size w, w, s)
   }"

definition EnqueueInternalLocked :: "'s task_ops \<Rightarrow> bool \<Rightarrow> task_ref \<Rightarrow> 'a \<Rightarrow> 'a wq \<Rightarrow> 's \<Rightarrow> (bool \<times> 'a wq \<times> 's) option" where
  "EnqueueInternalLocked = EnqueueInternal"

definition EnqueueBounded :: "'s task_ops \<Rightarrow> bool \<Rightarrow> task_ref \<Rightarrow> 'a \<Rightarrow> 'a wq \<Rightarrow> 's \<Rightarrow> (bool \<times> 'a wq \<times> 's) option" where
  "EnqueueBounded ops go r entry w s = do {
     (room, w) \<leftarrow> EnqueueBounded_count w;
     if room then do {
       (w, s) \<leftarrow> MayBeStartRunner ops go r (queue_push entry w) s;
       Some (True, w, s)
     }
     else Some (False, EnqueueBounded_drop w, s)
   }"

definition EnqueueBoundedLocked :: "'s task_ops \<Rightarrow> bool \<Rightarrow> task_ref \<Rightarrow> 'a \<Rightarrow> 'a wq \<Rightarrow> 's \<Rightarrow> (bool \<times> 'a wq \<times> 's) option" where
  "EnqueueBoundedLocked = EnqueueBounded"

definition wq_Enqueue :: "'s task_ops \<Rightarrow> bool \<Rightarrow> task_ref \<Rightarrow> 'a \<Rightarrow> 'a wq \<Rightarrow> 's \<Rightarrow> (bool \<times> 'a wq \<times> 's) option" where
  "wq_Enqueue ops go r entry w s =
     (if wq_bounded w
      then (if AreWaterMarksSet w then EnqueueBoundedLocked ops go r entry w s
            else EnqueueBounded ops go r entry w s)
      else (if AreWaterMarksSet w then EnqueueInternalLocked ops go r entry w s
            else EnqueueInternal ops go r entry w s))"

end
