(* ===== verification/Work_Queue_Steps.thy ===== *)
theory Work_Queue_Steps
  imports Work_Queue
begin

text \<open>
  The work queue as a transition system: producers, the runner, the threads that configure
  it and the rest of the program interleave. The invariant is proved once from the laws of the
  interface \<open>task_service\<close>; the properties are its consequences for the scheduler.
\<close>

section \<open>Threads\<close>

text \<open>
  A queue together with the scheduler and the threads that use it. A producer is between
  its increment of \<open>count_\<close> and its push (\<open>y_pushing\<close>, or \<open>y_dropping\<close> when the queue was full) or between
  its push and its call of \<open>MayBeStartRunner\<close> (\<open>y_starting\<close>, which also counts the threads that have
  enabled the queue and those that call it themselves). \<open>y_mine\<close> are the runner tasks that exist and \<open>y_pc\<close> says where their \<open>Run\<close> is;
  \<open>y_go\<close> is what \<open>start_runner_\<close> returns, and \<open>y_stale\<close> says that it has begun to return true and that
  \<open>MayBeStartRunner\<close> has not been called since: the queue does not learn of it by itself. \<open>y_pushed\<close> and \<open>y_done\<close> are the entries pushed and those
  processed so far.
\<close>

datatype 'a rpc = R_start | R_loop nat | R_got 'a nat | R_fin | R_ret bool

record ('a, 's) wqs =
  y_q :: "'a wq"
  y_s :: 's
  y_go :: bool
  y_stale :: bool
  y_pushing :: "'a list"
  y_dropping :: nat
  y_starting :: nat
  y_mine :: "task_ref set"
  y_pc :: "task_ref \<Rightarrow> 'a rpc"
  y_pushed :: "'a list"
  y_done :: "'a list"

text \<open>
  The steps. \<open>new\<close> returns an address that is free; counters do not wrap; \<open>Shutdown\<close> is called once and
  by a task that excludes the runner, as its comment asks. \<open>rest\<close> are the steps of the rest of the
  program: they do not touch the runners, which may start meanwhile.
\<close>

inductive wq_step :: "'s task_ops \<Rightarrow> ('s \<Rightarrow> task_ref \<Rightarrow> tphase) \<Rightarrow> ('s \<Rightarrow> bool) \<Rightarrow> ('s \<Rightarrow> 's \<Rightarrow> bool) \<Rightarrow>
    ('a, 's) wqs \<Rightarrow> ('a, 's) wqs \<Rightarrow> bool" for ops phase room rest where
  count: "\<not> wq_bounded (y_q y) \<Longrightarrow> wq_count (y_q y) + 1 < 2 ^ 64 \<Longrightarrow> EnqueueInternal_count (y_q y) = Some (n, q) \<Longrightarrow>
    wq_step ops phase room rest y (y\<lparr>y_q := q, y_pushing := e # y_pushing y\<rparr>)"
| count_bounded: "wq_bounded (y_q y) \<Longrightarrow> wq_count (y_q y) + 1 < 2 ^ 64 \<Longrightarrow> EnqueueBounded_count (y_q y) = Some (True, q) \<Longrightarrow>
    wq_step ops phase room rest y (y\<lparr>y_q := q, y_pushing := e # y_pushing y\<rparr>)"
| count_full: "wq_bounded (y_q y) \<Longrightarrow> wq_count (y_q y) + 1 < 2 ^ 64 \<Longrightarrow> EnqueueBounded_count (y_q y) = Some (False, q) \<Longrightarrow>
    wq_step ops phase room rest y (y\<lparr>y_q := q, y_dropping := Suc (y_dropping y)\<rparr>)"
| dropped: "y_dropping y = Suc n \<Longrightarrow>
    wq_step ops phase room rest y (y\<lparr>y_q := EnqueueBounded_drop (y_q y), y_dropping := n\<rparr>)"
| push: "e \<in> set (y_pushing y) \<Longrightarrow>
    wq_step ops phase room rest y (y\<lparr>y_q := queue_push e (y_q y), y_pushing := remove1 e (y_pushing y),
      y_starting := Suc (y_starting y), y_pushed := y_pushed y @ [e]\<rparr>)"
| start: "y_starting y = Suc n \<Longrightarrow> room (y_s y) \<Longrightarrow> phase (y_s y) r = Gone \<Longrightarrow>
    MayBeStartRunner ops (y_go y) r (y_q y) (y_s y) = Some (q, s) \<Longrightarrow>
    wq_step ops phase room rest y (y\<lparr>y_q := q, y_s := s, y_starting := n, y_stale := False,
      y_mine := (if wq_running q \<and> \<not> wq_running (y_q y) then insert r (y_mine y) else y_mine y), y_pc := (y_pc y)(r := R_start)\<rparr>)"
| entry_defer: "r \<in> y_mine y \<Longrightarrow> phase (y_s y) r = Running c \<Longrightarrow> y_pc y r = R_start \<Longrightarrow> OnEntry cb (y_q y) = (False, q) \<Longrightarrow>
    wq_step ops phase room rest y (y\<lparr>y_q := q, y_pc := (y_pc y)(r := R_ret False)\<rparr>)"
| entry_run: "r \<in> y_mine y \<Longrightarrow> phase (y_s y) r = Running c \<Longrightarrow> y_pc y r = R_start \<Longrightarrow> OnEntry cb (y_q y) = (True, q) \<Longrightarrow>
    wq_step ops phase room rest y (y\<lparr>y_q := q, y_pc := (y_pc y)(r := if RunnerAbort (y_go y) q then R_fin else R_loop 0)\<rparr>)"
| pop: "r \<in> y_mine y \<Longrightarrow> y_pc y r = R_loop n \<Longrightarrow> Dequeue_pop (y_q y) = Some (e, q) \<Longrightarrow>
    wq_step ops phase room rest y (y\<lparr>y_q := q, y_pc := (y_pc y)(r := R_got e n)\<rparr>)"
| pop_empty: "r \<in> y_mine y \<Longrightarrow> y_pc y r = R_loop n \<Longrightarrow> Dequeue_pop (y_q y) = None \<Longrightarrow>
    wq_step ops phase room rest y (y\<lparr>y_pc := (y_pc y)(r := R_fin)\<rparr>)"
| process: "r \<in> y_mine y \<Longrightarrow> y_pc y r = R_got e n \<Longrightarrow>
    wq_step ops phase room rest y (y\<lparr>y_q := Dequeue_count (y_q y), y_done := y_done y @ [e],
      y_pc := (y_pc y)(r := if \<not> cb \<or> Suc n = wq_max_iterations (y_q y) then R_fin else R_loop (Suc n))\<rparr>)"
| finish: "r \<in> y_mine y \<Longrightarrow> y_pc y r = R_fin \<Longrightarrow> RunnerDone ops (y_go y) (y_q y) (y_s y) = Some (d, q, s) \<Longrightarrow>
    wq_step ops phase room rest y (y\<lparr>y_q := q, y_s := s, y_pc := (y_pc y)(r := R_ret d)\<rparr>)"
| return: "r \<in> y_mine y \<Longrightarrow> y_pc y r = R_ret d \<Longrightarrow> room (y_s y) \<Longrightarrow> op_return ops r t d (y_s y) = Some s \<Longrightarrow>
    wq_step ops phase room rest y (y\<lparr>y_s := s, y_mine := (if phase s r = Gone then y_mine y - {r} else y_mine y),
      y_pc := (y_pc y)(r := R_start)\<rparr>)"
| disable: "wq_step ops phase room rest y (y\<lparr>y_q := (y_q y)\<lparr>wq_disabled := b\<rparr>,
      y_starting := (if wq_disabled (y_q y) \<and> \<not> b then Suc (y_starting y) else y_starting y)\<rparr>)"
| set_go: "wq_step ops phase room rest y (y\<lparr>y_go := b, y_stale := b\<rparr>)"
| kick: "wq_step ops phase room rest y (y\<lparr>y_starting := Suc (y_starting y)\<rparr>)"
| marks: "f \<in> {wm_SetHighWaterMark w, wm_SetLowWaterMark w, wm_ResetHighWaterMark, wm_ResetLowWaterMark} \<Longrightarrow>
    wq_step ops phase room rest y (y\<lparr>y_q := upd_marks f (y_q y)\<rparr>)"
| schedule_shutdown: "\<not> wq_deleted (y_q y) \<or> wq_shutdown_scheduled (y_q y) \<Longrightarrow>
    ScheduleShutdown ops b (y_q y) (y_s y) = Some (q, s) \<Longrightarrow>
    wq_step ops phase room rest y (y\<lparr>y_q := q, y_s := s, y_mine := {r \<in> y_mine y. phase s r \<noteq> Gone}\<rparr>)"
| shutdown: "\<not> wq_deleted (y_q y) \<Longrightarrow> \<not> wq_shutdown_scheduled (y_q y) \<Longrightarrow> \<forall>r \<in> y_mine y. phase (y_s y) r = Waiting \<Longrightarrow>
    Shutdown ops b (y_q y) (y_s y) = Some (q, s) \<Longrightarrow>
    wq_step ops phase room rest y (y\<lparr>y_q := q, y_s := s, y_mine := {r \<in> y_mine y. phase s r \<noteq> Gone}\<rparr>)"
| rest: "rest (y_s y) s \<Longrightarrow> spares (y_mine y) (phase (y_s y)) (phase s) \<Longrightarrow> wq_step ops phase room rest y (y\<lparr>y_s := s\<rparr>)"

definition y_got :: "('a, 's) wqs \<Rightarrow> 'a list" where
  "y_got y = (case wq_current_runner (y_q y) of None \<Rightarrow> []
     | Some r \<Rightarrow> if r \<in> y_mine y then (case y_pc y r of R_got e n \<Rightarrow> [e] | _ \<Rightarrow> []) else [])"

section \<open>The invariant\<close>

definition settings_ok :: "'a wq \<Rightarrow> bool" where
  "settings_ok w = (0 \<le> wq_taskId w \<and> (wq_taskInstance w = -1 \<or> 0 \<le> wq_taskInstance w) \<and> wm_ok (wq_watermarks w))"

text \<open>The tasks: a runner that has not ended is the current one, and the flags agree.\<close>

definition runner_ok :: "('s \<Rightarrow> task_ref \<Rightarrow> tphase) \<Rightarrow> ('a, 's) wqs \<Rightarrow> bool" where
  "runner_ok phase y = (let q = y_q y in
     (\<forall>r \<in> y_mine y. (phase (y_s y) r = Waiting \<and> y_pc y r = R_start \<or> (\<exists>c. phase (y_s y) r = Running c \<and> (c \<longrightarrow> wq_shutdown_scheduled q))) \<and>
        (y_pc y r = R_ret True \<longleftrightarrow> wq_current_runner q \<noteq> Some r)) \<and>
     (wq_running q \<longleftrightarrow> wq_current_runner q \<noteq> None) \<and>
     (\<forall>r. wq_current_runner q = Some r \<longrightarrow> r \<in> y_mine y \<or> wq_shutdown_scheduled q) \<and>
     (wq_deleted q \<longrightarrow> \<not> wq_running q) \<and>
     (wq_shutdown_scheduled q \<and> \<not> wq_deleted q \<longrightarrow> wq_running q))"

definition woken_ok :: "('a, 's) wqs \<Rightarrow> bool" where
  "woken_ok y = (let q = y_q y in
     wq_queue q \<noteq> [] \<longrightarrow> wq_running q \<or> wq_deleted q \<or> RunnerAbortLocked (y_go y) q \<or> 0 < y_starting y \<or>
       wq_has_start_runner q \<and> y_stale y)"

definition count_ok :: "('a, 's) wqs \<Rightarrow> bool" where
  "count_ok y = (let q = y_q y in \<not> wq_deleted q \<longrightarrow>
     y_pushed y = y_done y @ y_got y @ wq_queue q \<and>
     wq_count q = length (wq_queue q) + length (y_got y) + length (y_pushing y) + y_dropping y \<and> wq_count q < 2 ^ 64 \<and>
     (wq_bounded q \<longrightarrow> length (wq_queue q) + length (y_got y) + length (y_pushing y) \<le> wq_size q - 1))"

definition wq_ok :: "('s \<Rightarrow> task_ref \<Rightarrow> tphase) \<Rightarrow> ('s \<Rightarrow> bool) \<Rightarrow> ('a, 's) wqs \<Rightarrow> bool" where
  "wq_ok phase ok y = (ok (y_s y) \<and> settings_ok (y_q y) \<and> runner_ok phase y \<and> woken_ok y \<and> count_ok y)"

text \<open>What the bookkeeping of the entries and the starts and ends of the runner leave as they are.\<close>

definition same_config :: "'a wq \<Rightarrow> 'a wq \<Rightarrow> bool" where
  "same_config q q' = (wq_deleted q' = wq_deleted q \<and>
     wq_disabled q' = wq_disabled q \<and> wq_shutdown_scheduled q' = wq_shutdown_scheduled q \<and>
     wq_has_start_runner q' = wq_has_start_runner q \<and> wq_bounded q' = wq_bounded q \<and> wq_size q' = wq_size q)"

definition same_control :: "'a wq \<Rightarrow> 'a wq \<Rightarrow> bool" where
  "same_control q q' = (same_config q q' \<and> wq_running q' = wq_running q \<and> wq_current_runner q' = wq_current_runner q)"

lemma same_configD:
  assumes "same_config q q'"
  shows "wq_deleted q' = wq_deleted q" "wq_shutdown_scheduled q' = wq_shutdown_scheduled q"
    "wq_bounded q' = wq_bounded q" "wq_size q' = wq_size q" "RunnerAbortLocked go q' = RunnerAbortLocked go q"
    "wq_has_start_runner q' = wq_has_start_runner q"
  using assms by (simp_all add: same_config_def RunnerAbortLocked_def)

lemma same_controlD:
  assumes "same_control q q'"
  shows "same_config q q'" "wq_running q' = wq_running q" "wq_current_runner q' = wq_current_runner q"
  using assms by (simp_all add: same_control_def)

lemma EnqueueInternal_count_effect:
  assumes e: "EnqueueInternal_count q = Some (n, q')" and s: "settings_ok q"
  shows "same_control q q'" "settings_ok q'" "wq_queue q' = wq_queue q" "wq_count q' = u64 (wq_count q + 1)"
proof -
  obtain m where m: "ProcessHighWaterMarks (u64 (wq_count q + 1)) (wq_watermarks q) = Some m" "wm_ok m"
    using ProcessHighWaterMarks_ok [of "wq_watermarks q"] s by (auto simp: settings_ok_def succeeds_iff)
  define q1 where "q1 = q\<lparr>wq_enqueues := u64 (wq_enqueues q + 1), wq_count := u64 (wq_count q + 1),
    wq_max_queue_len := (if u64 (wq_count q + 1) > wq_max_queue_len q then u64 (wq_count q + 1) else wq_max_queue_len q), wq_watermarks := m\<rparr>"
  have "q' = q1" using e m(1) by (auto simp: EnqueueInternal_count_def Let_def q1_def)
  then show "same_control q q'" "settings_ok q'" "wq_queue q' = wq_queue q" "wq_count q' = u64 (wq_count q + 1)"
    using s m(2) by (simp_all add: q1_def same_control_def same_config_def settings_ok_def)
qed

lemma EnqueueBounded_count_effect:
  assumes e: "EnqueueBounded_count q = Some (b, q')" and s: "settings_ok q"
  shows "same_control q q'" "settings_ok q'" "wq_queue q' = wq_queue q" "wq_count q' = u64 (wq_count q + 1)"
    "b \<longleftrightarrow> u64 (wq_count q + 1) < wq_size q"
proof -
  obtain m where m: "ProcessHighWaterMarks (u64 (wq_count q + 1)) (wq_watermarks q) = Some m" "wm_ok m"
    using ProcessHighWaterMarks_ok [of "wq_watermarks q"] s by (auto simp: settings_ok_def succeeds_iff)
  define q0 where "q0 = q\<lparr>wq_count := u64 (wq_count q + 1),
    wq_max_queue_len := (if u64 (wq_count q + 1) > wq_max_queue_len q then u64 (wq_count q + 1) else wq_max_queue_len q)\<rparr>"
  define q1 where "q1 = q0\<lparr>wq_enqueues := u64 (wq_enqueues q + 1), wq_watermarks := m\<rparr>"
  have "(b, q') = (if u64 (wq_count q + 1) < wq_size q then (True, q1) else (False, q0))"
    using e m(1) by (auto simp: EnqueueBounded_count_def Let_def q1_def q0_def split: if_splits)
  then show "same_control q q'" "settings_ok q'" "wq_queue q' = wq_queue q" "wq_count q' = u64 (wq_count q + 1)"
    "b \<longleftrightarrow> u64 (wq_count q + 1) < wq_size q"
    using s m(2) by (simp_all add: q1_def q0_def same_control_def same_config_def settings_ok_def split: if_splits)
qed

lemma drop_effect:
  "same_control q (EnqueueBounded_drop q)" "settings_ok (EnqueueBounded_drop q) = settings_ok q"
  "wq_queue (EnqueueBounded_drop q) = wq_queue q" "wq_count (EnqueueBounded_drop q) = sub64 (wq_count q) 1"
  by (simp_all add: EnqueueBounded_drop_def Let_def same_control_def same_config_def settings_ok_def)

lemma push_effect:
  "same_control q (queue_push e q)" "settings_ok (queue_push e q) = settings_ok q"
  "wq_queue (queue_push e q) = wq_queue q @ [e]" "wq_count (queue_push e q) = wq_count q"
  by (simp_all add: queue_push_def same_control_def same_config_def settings_ok_def)

lemma OnEntry_effect:
  assumes "OnEntry cb q = (b, q')"
  shows "same_control q q'" "settings_ok q' = settings_ok q" "wq_queue q' = wq_queue q" "wq_count q' = wq_count q"
  using assms by (auto simp: OnEntry_def Let_def same_control_def same_config_def settings_ok_def split: if_splits)

lemma pop_effect:
  assumes "Dequeue_pop q = Some (e, q')"
  shows "same_control q q'" "settings_ok q' = settings_ok q" "wq_queue q = e # wq_queue q'" "wq_count q' = wq_count q"
  using assms by (auto simp: Dequeue_pop_def same_control_def same_config_def settings_ok_def split: list.splits)

lemma pop_none: "Dequeue_pop q = None \<longleftrightarrow> wq_queue q = []"
  by (simp add: Dequeue_pop_def split: list.splits)

lemma Dequeue_count_effect:
  "same_control q (Dequeue_count q)" "settings_ok (Dequeue_count q) = settings_ok q"
  "wq_queue (Dequeue_count q) = wq_queue q" "wq_count (Dequeue_count q) = sub64 (wq_count q) 1"
  by (simp_all add: Dequeue_count_def upd_marks_def Let_def same_control_def same_config_def settings_ok_def)

lemma marks_effect:
  assumes "f \<in> {wm_SetHighWaterMark w, wm_SetLowWaterMark w, wm_ResetHighWaterMark, wm_ResetLowWaterMark}"
  shows "same_control q (upd_marks f q)" "settings_ok q \<Longrightarrow> settings_ok (upd_marks f q)"
    "wq_queue (upd_marks f q) = wq_queue q" "wq_count (upd_marks f q) = wq_count q"
  using assms by (auto simp: upd_marks_def same_control_def same_config_def settings_ok_def)

lemma OnExit_effect [simp]:
  "wq_queue (OnExit b q) = wq_queue q" "wq_count (OnExit b q) = wq_count q" "settings_ok (OnExit b q) = settings_ok q"
  "same_control q (OnExit b q)" "wq_delete_entries (OnExit b q) = wq_delete_entries q"
  "wq_shutdown_scheduled (OnExit b q) = wq_shutdown_scheduled q"
  by (simp_all add: OnExit_def same_control_def same_config_def settings_ok_def)

text \<open>A shut down queue.\<close>

definition closed :: "'a wq \<Rightarrow> bool" where
  "closed q = (wq_queue q = [] \<and> wq_count q = 0 \<and> wq_deleted q \<and> \<not> wq_running q \<and> wq_current_runner q = None)"

lemma ShutdownLocked_idle:
  assumes "\<not> wq_deleted q" "\<not> wq_running q" "wq_current_runner q = None" "settings_ok q"
  shows "\<exists>q'. ShutdownLocked ops b q s = Some (q', s) \<and> closed q' \<and> settings_ok q' \<and> wq_shutdown_scheduled q' = wq_shutdown_scheduled q"
  using assms
  by (simp add: ShutdownLocked_def Let_def closed_def settings_ok_def WorkQueueDelete_def wq_ResetLowWaterMark_def
      wq_ResetHighWaterMark_def upd_marks_def)

lemma RunnerDone_effect:
  assumes "wq_running q" "\<not> wq_deleted q" "settings_ok q"
  shows "\<exists>d q'. RunnerDone ops go q s = Some (d, q', s) \<and> settings_ok q' \<and>
    (d \<and> wq_shutdown_scheduled q \<and> closed q' \<and> wq_shutdown_scheduled q' \<or>
     d \<and> \<not> wq_shutdown_scheduled q \<and> same_config q q' \<and> \<not> wq_running q' \<and> wq_current_runner q' = None \<and>
       wq_queue q' = wq_queue q \<and> wq_count q' = wq_count q \<and> (wq_queue q = [] \<or> RunnerAbortLocked go q) \<or>
     \<not> d \<and> \<not> wq_shutdown_scheduled q \<and> same_control q q' \<and> wq_queue q' = wq_queue q \<and> wq_count q' = wq_count q)"
proof -
  define q1 where "q1 = (OnExit True q)\<lparr>wq_current_runner := None, wq_running := False\<rparr>"
  note e = OnExit_effect(4) [of q True] OnExit_effect(4) [of q False]
  have q1: "same_config q q1" "\<not> wq_running q1" "wq_current_runner q1 = None" "wq_queue q1 = wq_queue q" "wq_count q1 = wq_count q"
    "settings_ok q1" "wq_delete_entries q1 = wq_delete_entries q"
    using e(1) assms(3) by (simp_all add: q1_def same_control_def same_config_def settings_ok_def OnExit_def)
  have q2: "same_control q ((OnExit False q)\<lparr>wq_running := True\<rparr>)" "settings_ok ((OnExit False q)\<lparr>wq_running := True\<rparr>)"
    using e(2) assms by (simp_all add: same_control_def same_config_def settings_ok_def OnExit_def)
  consider "wq_shutdown_scheduled q" | "\<not> wq_shutdown_scheduled q" "wq_queue q = [] \<or> RunnerAbortLocked go q"
    | "\<not> wq_shutdown_scheduled q" "wq_queue q \<noteq> []" "\<not> RunnerAbortLocked go q" by blast
  then show ?thesis
  proof cases
    case 1
    then have ab: "RunnerAbortLocked go q" by (simp add: RunnerAbortLocked_def)
    obtain q' where "ShutdownLocked ops (wq_delete_entries q1) q1 s = Some (q', s)" "closed q'" "settings_ok q'" "wq_shutdown_scheduled q'"
      using ShutdownLocked_idle [of q1 ops "wq_delete_entries q1" s] q1 assms(2) 1 same_configD(1,2) [OF q1(1)] by auto
    moreover have "RunnerDone ops go q s = ShutdownLocked ops (wq_delete_entries q1) q1 s \<bind> (\<lambda>(w, s). Some (True, w, s))"
      using ab 1 q1(7) by (simp add: RunnerDone_def Let_def q1_def [symmetric])
    ultimately have "RunnerDone ops go q s = Some (True, q', s)" by simp
    with \<open>closed q'\<close> \<open>settings_ok q'\<close> \<open>wq_shutdown_scheduled q'\<close> 1 show ?thesis by blast
  next
    case 2
    then have "RunnerDone ops go q s = Some (True, q1, s)" by (simp add: RunnerDone_def Let_def q1_def [symmetric])
    then show ?thesis using 2 q1 by blast
  next
    case 3
    then have "RunnerDone ops go q s = Some (False, (OnExit False q)\<lparr>wq_running := True\<rparr>, s)" by (simp add: RunnerDone_def)
    then show ?thesis using 3 q2 by auto
  qed
qed

context task_service
begin

lemma ShutdownLocked_waiting:
  assumes "ok s" "\<not> wq_deleted q" "wq_running q" "wq_current_runner q = Some r" "phase s r = Waiting" "settings_ok q"
  shows "\<exists>q' s'. ShutdownLocked ops b q s = Some (q', s') \<and> closed q' \<and> settings_ok q' \<and> ok s' \<and> phase s' = (phase s)(r := Gone) \<and>
    wq_shutdown_scheduled q' = wq_shutdown_scheduled q"
proof -
  obtain s' where "op_cancel ops r s = Some (CANCELLED, s')" "ok s'" "phase s' = (phase s)(r := Gone)"
    using cancel_waiting [OF assms(1,5)] by blast
  then show ?thesis using assms
    by (simp add: ShutdownLocked_def Let_def closed_def settings_ok_def WorkQueueDelete_def wq_ResetLowWaterMark_def
        wq_ResetHighWaterMark_def upd_marks_def)
qed

lemma MayBeStartRunner_effect:
  assumes "ok s" "room s" "phase s r = Gone" "settings_ok q" "wq_running q \<longleftrightarrow> wq_current_runner q \<noteq> None"
  shows "\<exists>q' s'. MayBeStartRunner ops go r q s = Some (q', s') \<and> ok s' \<and> settings_ok q' \<and>
    (q' = q \<and> s' = s \<and> (wq_running q \<or> wq_queue q = [] \<or> wq_deleted q \<or> RunnerAbortLocked go q) \<or>
     \<not> wq_running q \<and> \<not> wq_deleted q \<and> \<not> RunnerAbortLocked go q \<and> wq_running q' \<and> wq_current_runner q' = Some r \<and> same_config q q' \<and>
       wq_queue q' = wq_queue q \<and> wq_count q' = wq_count q \<and>
       (phase s' = (phase s)(r := Waiting) \<or> phase s' = (phase s)(r := Running False)))"
proof (cases "wq_running q \<or> wq_queue q = [] \<or> wq_deleted q \<or> RunnerAbortLocked go q")
  case True
  then show ?thesis using assms by (auto simp: MayBeStartRunner_def)
next
  case False
  define q1 where "q1 = q\<lparr>wq_task_starts := u32 (wq_task_starts q + 1), wq_running := True, wq_current_runner := Some r\<rparr>"
  have i: "0 \<le> wq_taskId q" "wq_taskInstance q = -1 \<or> 0 \<le> wq_taskInstance q" using assms(4) by (auto simp: settings_ok_def)
  obtain s' where s': "op_enqueue ops r (op_new ops r (wq_taskId q) (wq_taskInstance q) s) = Some s'" "ok s'"
    "phase s' = (phase s)(r := Waiting) \<or> phase s' = (phase s)(r := Running False)"
    using start_ok [OF assms(1-3) i] by blast
  have "MayBeStartRunner ops go r q s = Some (q1, s')" using False s'(1) assms(5) by (simp add: MayBeStartRunner_def q1_def)
  moreover have "settings_ok q1" "same_config q q1" "wq_running q1" "wq_current_runner q1 = Some r" "wq_queue q1 = wq_queue q" "wq_count q1 = wq_count q"
    using assms(4) by (simp_all add: q1_def settings_ok_def same_config_def)
  ultimately show ?thesis using s'(2,3) False by blast
qed

lemma ScheduleShutdown_effect:
  assumes "ok s" "settings_ok q" "\<not> wq_shutdown_scheduled q" "\<not> wq_deleted q"
    and "wq_running q \<longleftrightarrow> wq_current_runner q \<noteq> None"
    and "\<And>r. wq_current_runner q = Some r \<Longrightarrow> phase s r = Waiting \<or> (\<exists>c. phase s r = Running c)"
  shows "\<exists>q' s'. ScheduleShutdown ops b q s = Some (q', s') \<and> ok s' \<and> settings_ok q' \<and> wq_shutdown_scheduled q' \<and>
    (closed q' \<and> (wq_current_runner q = None \<and> s' = s \<or>
        (\<exists>r. wq_current_runner q = Some r \<and> phase s r = Waiting \<and> phase s' = (phase s)(r := Gone))) \<or>
     (\<exists>r c. wq_current_runner q = Some r \<and> wq_running q \<and> phase s r = Running c \<and> phase s' = (phase s)(r := Running True) \<and> room s' = room s \<and>
       q' = q\<lparr>wq_shutdown_scheduled := True, wq_delete_entries := b\<rparr>))"
proof -
  define q1 where "q1 = q\<lparr>wq_shutdown_scheduled := True, wq_delete_entries := b\<rparr>"
  define q2 where "q2 = q1\<lparr>wq_running := False, wq_current_runner := None\<rparr>"
  have s1: "settings_ok q1" "settings_ok q2" using assms(2) by (simp_all add: q1_def q2_def settings_ok_def)
  show ?thesis
  proof (cases "wq_current_runner q")
    case None
    obtain q' where "ShutdownLocked ops b q1 s = Some (q', s)" "closed q'" "settings_ok q'" "wq_shutdown_scheduled q'"
      using ShutdownLocked_idle [OF _ _ _ s1(1), of ops b s] assms(4,5) None by (auto simp: q1_def)
    moreover have "\<not> wq_running q1" using None assms(5) by (simp add: q1_def)
    ultimately show ?thesis using assms(1,3) None by (simp add: ScheduleShutdown_def q1_def [symmetric])
  next
    case (Some r)
    then have run: "wq_running q" using assms(5) by simp
    from assms(6) [OF Some] show ?thesis
    proof
      assume w: "phase s r = Waiting"
      obtain s' where s': "op_cancel ops r s = Some (CANCELLED, s')" "ok s'" "phase s' = (phase s)(r := Gone)"
        using cancel_waiting [OF assms(1) w] by blast
      obtain q' where "ShutdownLocked ops b q2 s' = Some (q', s')" "closed q'" "settings_ok q'" "wq_shutdown_scheduled q'"
        using ShutdownLocked_idle [OF _ _ _ s1(2), of ops b s'] assms(4) by (auto simp: q1_def q2_def)
      then show ?thesis using assms(3) Some run s' w by (simp add: ScheduleShutdown_def q1_def q2_def)
    next
      assume "\<exists>c. phase s r = Running c"
      then obtain c where w: "phase s r = Running c" by blast
      obtain s' where s': "op_cancel ops r s = Some (QUEUED, s')" "ok s'" "phase s' = (phase s)(r := Running True)" "room s' = room s"
        using cancel_running [OF assms(1) w] by blast
      then show ?thesis using assms(3) Some run w s1(1) by (simp add: ScheduleShutdown_def q1_def)
    qed
  qed
qed

end

section \<open>Every step keeps the invariant\<close>

lemma runner_okD:
  assumes "runner_ok phase y"
  shows "r \<in> y_mine y \<Longrightarrow> phase (y_s y) r = Waiting \<and> y_pc y r = R_start \<or> (\<exists>c. phase (y_s y) r = Running c \<and> (c \<longrightarrow> wq_shutdown_scheduled (y_q y)))"
    "r \<in> y_mine y \<Longrightarrow> y_pc y r = R_ret True \<longleftrightarrow> wq_current_runner (y_q y) \<noteq> Some r"
    "wq_running (y_q y) \<longleftrightarrow> wq_current_runner (y_q y) \<noteq> None"
    "wq_current_runner (y_q y) = Some r \<Longrightarrow> r \<in> y_mine y \<or> wq_shutdown_scheduled (y_q y)"
    "wq_deleted (y_q y) \<Longrightarrow> \<not> wq_running (y_q y)"
    "wq_shutdown_scheduled (y_q y) \<Longrightarrow> \<not> wq_deleted (y_q y) \<Longrightarrow> wq_running (y_q y)"
  using assms unfolding runner_ok_def Let_def by blast+

lemma runner_okI:
  assumes "\<And>r. r \<in> y_mine y \<Longrightarrow> phase (y_s y) r = Waiting \<and> y_pc y r = R_start \<or> (\<exists>c. phase (y_s y) r = Running c \<and> (c \<longrightarrow> wq_shutdown_scheduled (y_q y)))"
    "\<And>r. r \<in> y_mine y \<Longrightarrow> y_pc y r = R_ret True \<longleftrightarrow> wq_current_runner (y_q y) \<noteq> Some r"
    "wq_running (y_q y) \<longleftrightarrow> wq_current_runner (y_q y) \<noteq> None"
    "\<And>r. wq_current_runner (y_q y) = Some r \<Longrightarrow> r \<in> y_mine y \<or> wq_shutdown_scheduled (y_q y)"
    "wq_deleted (y_q y) \<Longrightarrow> \<not> wq_running (y_q y)"
    "wq_shutdown_scheduled (y_q y) \<Longrightarrow> \<not> wq_deleted (y_q y) \<Longrightarrow> wq_running (y_q y)"
  shows "runner_ok phase y"
  using assms unfolding runner_ok_def Let_def by blast

text \<open>A runner that has not ended is the current one.\<close>

lemma current_unique:
  assumes "runner_ok phase y" "r \<in> y_mine y" "y_pc y r \<noteq> R_ret True"
  shows "wq_current_runner (y_q y) = Some r" "wq_running (y_q y)" "\<not> wq_deleted (y_q y)"
    "y_got y = (case y_pc y r of R_got e n \<Rightarrow> [e] | _ \<Rightarrow> [])"
proof -
  show c: "wq_current_runner (y_q y) = Some r" using runner_okD(2) [OF assms(1,2)] assms(3) by blast
  then show r: "wq_running (y_q y)" using runner_okD(3) [OF assms(1)] by simp
  then show "\<not> wq_deleted (y_q y)" using runner_okD(5) [OF assms(1)] by blast
  show "y_got y = (case y_pc y r of R_got e n \<Rightarrow> [e] | _ \<Rightarrow> [])" using c assms(2) by (simp add: y_got_def)
qed

lemma executing:
  assumes "runner_ok phase y" "r \<in> y_mine y" "y_pc y r \<noteq> R_start"
  shows "\<exists>c. phase (y_s y) r = Running c \<and> (c \<longrightarrow> wq_shutdown_scheduled (y_q y))"
  using runner_okD(1) [OF assms(1,2)] assms(3) by blast

text \<open>Steps that only change the entries and where a runner is.\<close>

lemma runner_same:
  assumes ok: "runner_ok phase y" and c: "same_control (y_q y) (y_q y')" and s: "y_s y' = y_s y" "y_mine y' = y_mine y"
    and pc: "\<And>r. r \<in> y_mine y \<Longrightarrow> y_pc y' r = y_pc y r \<or> (\<exists>c. phase (y_s y) r = Running c) \<and> y_pc y r \<noteq> R_ret True \<and> y_pc y' r \<noteq> R_ret True"
  shows "runner_ok phase y'"
proof (rule runner_okI)
  note d = same_controlD [OF c] same_configD [OF same_controlD(1) [OF c]]
  note o = runner_okD [OF ok]
  fix r assume "r \<in> y_mine y'"
  then have m: "r \<in> y_mine y" using s by simp
  show "phase (y_s y') r = Waiting \<and> y_pc y' r = R_start \<or> (\<exists>c. phase (y_s y') r = Running c \<and> (c \<longrightarrow> wq_shutdown_scheduled (y_q y')))"
    using o(1) [OF m] pc [OF m] unfolding s d by auto
  show "y_pc y' r = R_ret True \<longleftrightarrow> wq_current_runner (y_q y') \<noteq> Some r"
    using o(2) [OF m] pc [OF m] unfolding d by auto
next
  note d = same_controlD [OF c] same_configD [OF same_controlD(1) [OF c]]
  note o = runner_okD [OF ok]
  show "wq_running (y_q y') \<longleftrightarrow> wq_current_runner (y_q y') \<noteq> None" using o(3) unfolding d .
  show "wq_current_runner (y_q y') = Some r \<Longrightarrow> r \<in> y_mine y' \<or> wq_shutdown_scheduled (y_q y')" for r using o(4) unfolding d s .
  show "wq_deleted (y_q y') \<Longrightarrow> \<not> wq_running (y_q y')" using o(5) unfolding d .
  show "wq_shutdown_scheduled (y_q y') \<Longrightarrow> \<not> wq_deleted (y_q y') \<Longrightarrow> wq_running (y_q y')" using o(6) unfolding d .
qed

lemma woken_same:
  assumes "woken_ok y" "same_control (y_q y) (y_q y')" "y_go y' = y_go y" "y_stale y' = y_stale y" "y_starting y \<le> y_starting y'"
    "wq_queue (y_q y') \<noteq> [] \<Longrightarrow> wq_queue (y_q y) \<noteq> []"
  shows "woken_ok y'"
  using assms(1,5,6)
  unfolding woken_ok_def Let_def assms(3,4) same_controlD(2) [OF assms(2)] same_configD [OF same_controlD(1) [OF assms(2)]]
  by linarith

lemma sub64_1: "0 < n \<Longrightarrow> n < 2 ^ 64 \<Longrightarrow> sub64 n 1 = n - 1"
  by (simp add: sub64_def u64_def mod_if)

lemma closed_ok: "closed (y_q y) \<Longrightarrow> count_ok y" "closed (y_q y) \<Longrightarrow> woken_ok y"
  by (simp_all add: closed_def count_ok_def woken_ok_def Let_def)

text \<open>The queue has been shut down; the runners that are left have ended.\<close>

lemma runner_closed:
  assumes "closed (y_q y)" "\<And>r. r \<in> y_mine y \<Longrightarrow> y_pc y r = R_ret True \<and> (\<exists>c. phase (y_s y) r = Running c \<and> (c \<longrightarrow> wq_shutdown_scheduled (y_q y)))"
  shows "runner_ok phase y"
  by (rule runner_okI) (use assms in \<open>auto simp: closed_def\<close>)

lemma wq_okD:
  assumes "wq_ok phase ok y"
  shows "ok (y_s y)" "settings_ok (y_q y)" "runner_ok phase y" "woken_ok y" "count_ok y"
  using assms by (simp_all add: wq_ok_def)

lemma wq_okI: "ok (y_s y) \<Longrightarrow> settings_ok (y_q y) \<Longrightarrow> runner_ok phase y \<Longrightarrow> woken_ok y \<Longrightarrow> count_ok y \<Longrightarrow> wq_ok phase ok y"
  by (simp add: wq_ok_def)

lemma count_okD:
  assumes "count_ok y" "\<not> wq_deleted (y_q y)"
  shows "y_pushed y = y_done y @ y_got y @ wq_queue (y_q y)"
    "wq_count (y_q y) = length (wq_queue (y_q y)) + length (y_got y) + length (y_pushing y) + y_dropping y"
    "wq_count (y_q y) < 2 ^ 64"
    "wq_bounded (y_q y) \<Longrightarrow> length (wq_queue (y_q y)) + length (y_got y) + length (y_pushing y) \<le> wq_size (y_q y) - 1"
  using assms by (simp_all add: count_ok_def Let_def)

lemma count_okI:
  assumes "\<not> wq_deleted (y_q y) \<Longrightarrow> y_pushed y = y_done y @ y_got y @ wq_queue (y_q y)"
    "\<not> wq_deleted (y_q y) \<Longrightarrow> wq_count (y_q y) = length (wq_queue (y_q y)) + length (y_got y) + length (y_pushing y) + y_dropping y"
    "\<not> wq_deleted (y_q y) \<Longrightarrow> wq_count (y_q y) < 2 ^ 64"
    "\<not> wq_deleted (y_q y) \<Longrightarrow> wq_bounded (y_q y) \<Longrightarrow> length (wq_queue (y_q y)) + length (y_got y) + length (y_pushing y) \<le> wq_size (y_q y) - 1"
  shows "count_ok y"
  using assms by (simp add: count_ok_def Let_def)

text \<open>The entry in the hands of the runner depends on the current runner only.\<close>

lemma y_got_same:
  assumes "wq_current_runner (y_q y') = wq_current_runner (y_q y)" "y_mine y' = y_mine y" "y_pc y' = y_pc y"
  shows "y_got y' = y_got y"
  unfolding y_got_def assms ..

lemma count_same:
  assumes "count_ok y" "y_got y' = y_got y"
    "wq_deleted (y_q y') = wq_deleted (y_q y)" "wq_queue (y_q y') = wq_queue (y_q y)" "wq_count (y_q y') = wq_count (y_q y)"
    "wq_bounded (y_q y') = wq_bounded (y_q y)" "wq_size (y_q y') = wq_size (y_q y)"
    "y_pushing y' = y_pushing y" "y_dropping y' = y_dropping y" "y_pushed y' = y_pushed y" "y_done y' = y_done y"
  shows "count_ok y'"
  using assms(1) unfolding count_ok_def Let_def assms(2-11) .

lemma count_step:
  assumes ok: "wq_ok phase ok y" and c: "wq_count (y_q y) + 1 < 2 ^ 64" and q: "same_control (y_q y) q" "settings_ok q"
    "wq_queue q = wq_queue (y_q y)" "wq_count q = u64 (wq_count (y_q y) + 1)"
    and b: "wq_bounded q \<Longrightarrow> wq_count q < wq_size q"
  shows "wq_ok phase ok (y\<lparr>y_q := q, y_pushing := e # y_pushing y\<rparr>)" (is "wq_ok phase ok ?y")
proof (rule wq_okI)
  note d = same_controlD [OF q(1)] same_configD [OF same_controlD(1) [OF q(1)]]
  show "ok (y_s ?y)" "settings_ok (y_q ?y)" using wq_okD(1) [OF ok] q by simp_all
  show "runner_ok phase ?y" by (rule runner_same [OF wq_okD(3) [OF ok]]) (use q in simp_all)
  show "woken_ok ?y" by (rule woken_same [OF wq_okD(4) [OF ok]]) (use q in simp_all)
  have g: "y_got ?y = y_got y" by (rule y_got_same) (simp_all add: d)
  show "count_ok ?y"
    by (rule count_okI) (use g count_okD [OF wq_okD(5) [OF ok]] q(3,4) b c d in auto)
qed

lemma full_step:
  assumes ok: "wq_ok phase ok y" and c: "wq_count (y_q y) + 1 < 2 ^ 64" and q: "same_control (y_q y) q" "settings_ok q"
    "wq_queue q = wq_queue (y_q y)" "wq_count q = u64 (wq_count (y_q y) + 1)"
  shows "wq_ok phase ok (y\<lparr>y_q := q, y_dropping := Suc (y_dropping y)\<rparr>)" (is "wq_ok phase ok ?y")
proof (rule wq_okI)
  note d = same_controlD [OF q(1)] same_configD [OF same_controlD(1) [OF q(1)]]
  show "ok (y_s ?y)" "settings_ok (y_q ?y)" using wq_okD(1) [OF ok] q by simp_all
  show "runner_ok phase ?y" by (rule runner_same [OF wq_okD(3) [OF ok]]) (use q in simp_all)
  show "woken_ok ?y" by (rule woken_same [OF wq_okD(4) [OF ok]]) (use q in simp_all)
  have g: "y_got ?y = y_got y" by (rule y_got_same) (simp_all add: d)
  show "count_ok ?y"
    by (rule count_okI) (use g count_okD [OF wq_okD(5) [OF ok]] q(3,4) c d in auto)
qed

lemma dropped_step:
  assumes ok: "wq_ok phase ok y" and n: "y_dropping y = Suc n"
  shows "wq_ok phase ok (y\<lparr>y_q := EnqueueBounded_drop (y_q y), y_dropping := n\<rparr>)" (is "wq_ok phase ok ?y")
proof (rule wq_okI)
  note q = drop_effect [of "y_q y"]
  note d = same_controlD [OF q(1)] same_configD [OF same_controlD(1) [OF q(1)]]
  show "ok (y_s ?y)" "settings_ok (y_q ?y)" using wq_okD(1,2) [OF ok] q by simp_all
  show "runner_ok phase ?y" by (rule runner_same [OF wq_okD(3) [OF ok]]) (use q in simp_all)
  show "woken_ok ?y" by (rule woken_same [OF wq_okD(4) [OF ok]]) (use q in simp_all)
  have g: "y_got ?y = y_got y" by (rule y_got_same) (simp_all add: d)
  show "count_ok ?y"
    by (rule count_okI) (use g count_okD [OF wq_okD(5) [OF ok]] q(3,4) n d sub64_1 [of "wq_count (y_q y)"] in auto)
qed

lemma push_step:
  assumes ok: "wq_ok phase ok y" and e: "e \<in> set (y_pushing y)"
  shows "wq_ok phase ok (y\<lparr>y_q := queue_push e (y_q y), y_pushing := remove1 e (y_pushing y),
      y_starting := Suc (y_starting y), y_pushed := y_pushed y @ [e]\<rparr>)" (is "wq_ok phase ok ?y")
proof (rule wq_okI)
  note q = push_effect [where q = "y_q y" and e = e]
  note d = same_controlD [OF q(1)] same_configD [OF same_controlD(1) [OF q(1)]]
  show "ok (y_s ?y)" "settings_ok (y_q ?y)" using wq_okD(1,2) [OF ok] q by simp_all
  show "runner_ok phase ?y" by (rule runner_same [OF wq_okD(3) [OF ok]]) (use q in simp_all)
  show "woken_ok ?y" by (simp add: woken_ok_def Let_def)
  have g: "y_got ?y = y_got y" by (rule y_got_same) (simp_all add: d)
  have l: "length (y_pushing y) = Suc (length (remove1 e (y_pushing y)))" using e length_pos_if_in_set [OF e] by (simp add: length_remove1)
  show "count_ok ?y"
    by (rule count_okI) (use g count_okD [OF wq_okD(5) [OF ok]] q(3,4) l d in auto)
qed

text \<open>Steps of the runner before \<open>RunnerDone\<close>.\<close>

lemma runner_moves:
  assumes ok: "wq_ok phase ok y" and r: "r \<in> y_mine y" "y_pc y r \<noteq> R_ret True" "y_pc y r \<noteq> R_start \<or> phase (y_s y) r = Running c"
    and q: "same_control (y_q y) q" "settings_ok q" and p: "p \<noteq> R_ret True"
    and e: "y_got y @ wq_queue (y_q y) = es @ (case p of R_got e n \<Rightarrow> [e] | _ \<Rightarrow> []) @ wq_queue q"
    and n: "wq_count q = wq_count (y_q y) - length es"
  shows "wq_ok phase ok (y\<lparr>y_q := q, y_done := y_done y @ es, y_pc := (y_pc y)(r := p)\<rparr>)" (is "wq_ok phase ok ?y")
proof (rule wq_okI)
  note d = same_controlD [OF q(1)] same_configD [OF same_controlD(1) [OF q(1)]]
  note u = current_unique [OF wq_okD(3) [OF ok] r(1,2)]
  have ex: "\<exists>c. phase (y_s y) r = Running c" using executing [OF wq_okD(3) [OF ok] r(1)] r(3) by blast
  show "ok (y_s ?y)" "settings_ok (y_q ?y)" using wq_okD(1,2) [OF ok] q by simp_all
  show "runner_ok phase ?y" by (rule runner_same [OF wq_okD(3) [OF ok]]) (use q r ex p in auto)
  show "woken_ok ?y" using u(2) d(2) by (simp add: woken_ok_def Let_def)
  have g: "y_got ?y = (case p of R_got e n \<Rightarrow> [e] | _ \<Rightarrow> [])" using u(1) d(3) r(1) by (simp add: y_got_def)
  have l: "length (y_got y) + length (wq_queue (y_q y)) = length es + length (y_got ?y) + length (wq_queue q)"
    using arg_cong [OF e, of length] g by simp
  show "count_ok ?y"
    by (rule count_okI) (use count_okD [OF wq_okD(5) [OF ok] u(3)] g l n e d in auto)
qed

lemma finish_step:
  assumes ok: "wq_ok phase ok y" and r: "r \<in> y_mine y" "y_pc y r = R_fin"
    and f: "RunnerDone ops (y_go y) (y_q y) (y_s y) = Some (d, q, s)"
  shows "wq_ok phase ok (y\<lparr>y_q := q, y_s := s, y_pc := (y_pc y)(r := R_ret d)\<rparr>)" (is "wq_ok phase ok ?y")
proof -
  have nr: "y_pc y r \<noteq> R_ret True" using r(2) by simp
  note rok = wq_okD(3) [OF ok] and u = current_unique [OF wq_okD(3) [OF ok] r(1) nr]
  have ex: "\<exists>c. phase (y_s y) r = Running c \<and> (c \<longrightarrow> wq_shutdown_scheduled (y_q y))" using executing [OF rok r(1)] r(2) by simp
  have got: "y_got y = []" using u(4) r(2) by simp
  from RunnerDone_effect [OF u(2,3) wq_okD(2) [OF ok], of ops "y_go y" "y_s y"] f
  have s: "s = y_s y" and sq: "settings_ok q" and c: "d \<and> wq_shutdown_scheduled (y_q y) \<and> closed q \<and> wq_shutdown_scheduled q \<or>
     d \<and> \<not> wq_shutdown_scheduled (y_q y) \<and> same_config (y_q y) q \<and> \<not> wq_running q \<and> wq_current_runner q = None \<and>
       wq_queue q = wq_queue (y_q y) \<and> wq_count q = wq_count (y_q y) \<and> (wq_queue (y_q y) = [] \<or> RunnerAbortLocked (y_go y) (y_q y)) \<or>
     \<not> d \<and> \<not> wq_shutdown_scheduled (y_q y) \<and> same_control (y_q y) q \<and> wq_queue q = wq_queue (y_q y) \<and> wq_count q = wq_count (y_q y)" by auto
  have others: "y_pc y r' = R_ret True \<and> (\<exists>c. phase (y_s y) r' = Running c \<and> (c \<longrightarrow> wq_shutdown_scheduled (y_q y)))"
    if "r' \<in> y_mine y" "r' \<noteq> r" for r'
  proof -
    have "y_pc y r' = R_ret True" using current_unique(1) [OF rok that(1)] u(1) that(2) by auto
    then show ?thesis using executing [OF rok that(1)] by simp
  qed
  from c consider (down) "d" "closed q" "wq_shutdown_scheduled (y_q y)" "wq_shutdown_scheduled q"
    | (idle) "d" "same_config (y_q y) q" "\<not> wq_running q" "wq_current_runner q = None" "\<not> wq_shutdown_scheduled (y_q y)"
      "wq_queue q = wq_queue (y_q y)" "wq_count q = wq_count (y_q y)" "wq_queue (y_q y) = [] \<or> RunnerAbortLocked (y_go y) (y_q y)"
    | (again) "\<not> d" "same_control (y_q y) q" "wq_queue q = wq_queue (y_q y)" "wq_count q = wq_count (y_q y)" by fast
  then show ?thesis
  proof cases
    case a: down
    show ?thesis
      by (rule wq_okI) (use wq_okD(1) [OF ok] s sq a others ex closed_ok [of ?y] runner_closed [of ?y phase] in auto)
  next
    case a: idle
    note k = same_configD [OF a(2)]
    have "runner_ok phase ?y" by (rule runner_okI) (use a k s others ex u(3) in auto)
    moreover have "woken_ok ?y" using a(6,8) k by (auto simp: woken_ok_def Let_def)
    moreover have "count_ok ?y"
      by (rule count_okI) (use count_okD [OF wq_okD(5) [OF ok] u(3)] a k got in \<open>auto simp: y_got_def\<close>)
    ultimately show ?thesis using wq_okD(1) [OF ok] s sq by (auto intro: wq_okI)
  next
    case a: again
    obtain c where "phase (y_s y) r = Running c" using ex by blast
    from runner_moves [OF ok r(1) nr _ a(2) sq, of c "R_ret False" "[]"] this a got s show ?thesis by simp
  qed
qed

context task_service
begin

lemma start_step:
  assumes ok: "wq_ok phase ok y" and n: "y_starting y = Suc n" "room (y_s y)" "phase (y_s y) r = Gone"
    and f: "MayBeStartRunner ops (y_go y) r (y_q y) (y_s y) = Some (q, s)"
  shows "wq_ok phase ok (y\<lparr>y_q := q, y_s := s, y_starting := n, y_stale := False,
      y_mine := (if wq_running q \<and> \<not> wq_running (y_q y) then insert r (y_mine y) else y_mine y), y_pc := (y_pc y)(r := R_start)\<rparr>)" (is "wq_ok phase ok ?y")
proof -
  note rok = wq_okD(3) [OF ok]
  have nm: "r \<notin> y_mine y" using runner_okD(1) [OF rok, of r] n(3) by auto
  note e = MayBeStartRunner_effect [OF wq_okD(1) [OF ok] n(2,3) wq_okD(2) [OF ok] runner_okD(3) [OF rok], of "y_go y"]
  show ?thesis
  proof (cases "wq_running (y_q y) \<or> wq_queue (y_q y) = [] \<or> wq_deleted (y_q y) \<or> RunnerAbortLocked (y_go y) (y_q y)")
    case True
    then have q: "q = y_q y" "s = y_s y" using f by (auto simp: MayBeStartRunner_def)
    have g: "y_got ?y = y_got y" using nm q by (simp add: y_got_def split: option.splits)
    have "runner_ok phase ?y" by (rule runner_same [OF rok]) (use q nm in \<open>auto simp: same_control_def same_config_def\<close>)
    moreover have "woken_ok ?y" using True q by (auto simp: woken_ok_def Let_def)
    moreover have "count_ok ?y"
      by (rule count_okI) (use count_okD [OF wq_okD(5) [OF ok]] g q in auto)
    ultimately show ?thesis using q wq_okD(1,2) [OF ok] by (auto intro: wq_okI)
  next
    case False
    then have qs: "ok s" "settings_ok q" "wq_running q" "wq_current_runner q = Some r" "same_config (y_q y) q" "wq_queue q = wq_queue (y_q y)"
      "wq_count q = wq_count (y_q y)" "phase s = (phase (y_s y))(r := Waiting) \<or> phase s = (phase (y_s y))(r := Running False)" using e f by auto
    note k = same_configD [OF qs(5)]
    have none: "wq_current_runner (y_q y) = None" using runner_okD(3) [OF rok] False by simp
    have ended: "y_pc y r' = R_ret True" if "r' \<in> y_mine y" for r' using runner_okD(2) [OF rok that] none by simp
    have "runner_ok phase ?y"
    proof (rule runner_okI)
      fix r' assume m: "r' \<in> y_mine ?y"
      show "phase (y_s ?y) r' = Waiting \<and> y_pc ?y r' = R_start \<or> (\<exists>c. phase (y_s ?y) r' = Running c \<and> (c \<longrightarrow> wq_shutdown_scheduled (y_q ?y)))"
        using m qs(4,8) nm ended runner_okD(1) [OF rok, of r'] k by (auto split: if_splits)
      show "y_pc ?y r' = R_ret True \<longleftrightarrow> wq_current_runner (y_q ?y) \<noteq> Some r'"
        using m qs(4) nm ended by (auto split: if_splits)
    qed (use qs False k in auto)
    moreover have "woken_ok ?y" using qs by (simp add: woken_ok_def Let_def)
    moreover have "count_ok ?y"
      by (rule count_okI) (use count_okD [OF wq_okD(5) [OF ok]] False qs k none in \<open>auto simp: y_got_def\<close>)
    ultimately show ?thesis using qs by (auto intro: wq_okI)
  qed
qed

end

text \<open>Other steps that leave the queue and where its runners are.\<close>

lemma spared_step:
  assumes ok: "wq_ok phase ok y" and s: "ok s" "spares (y_mine y) (phase (y_s y)) (phase s)"
  shows "wq_ok phase ok (y\<lparr>y_s := s\<rparr>)" (is "wq_ok phase ok ?y")
proof -
  note rok = runner_okD [OF wq_okD(3) [OF ok]]
  have "runner_ok phase ?y"
  proof (rule runner_okI)
    fix r assume "r \<in> y_mine ?y"
    then show "phase (y_s ?y) r = Waiting \<and> y_pc ?y r = R_start \<or> (\<exists>c. phase (y_s ?y) r = Running c \<and> (c \<longrightarrow> wq_shutdown_scheduled (y_q ?y)))"
      using rok(1) [of r] s(2) unfolding spares_def by (auto dest!: bspec [of _ _ r])
  qed (use rok in auto)
  moreover have "y_got ?y = y_got y" by (rule y_got_same) simp_all
  then have "count_ok ?y" by (intro count_same [OF wq_okD(5) [OF ok]]) simp_all
  moreover have "woken_ok ?y" using wq_okD(4) [OF ok] by (simp add: woken_ok_def)
  ultimately show ?thesis using s(1) wq_okD(2) [OF ok] by (simp add: wq_ok_def)
qed

lemma closed_step:
  assumes ok: "wq_ok phase ok y" and q: "closed q" "settings_ok q" "ok s" "wq_shutdown_scheduled (y_q y) \<Longrightarrow> wq_shutdown_scheduled q"
    and c: "wq_current_runner (y_q y) = None \<and> s = y_s y \<or>
      (\<exists>r. wq_current_runner (y_q y) = Some r \<and> phase (y_s y) r = Waiting \<and> phase s = (phase (y_s y))(r := Gone))"
  shows "wq_ok phase ok (y\<lparr>y_q := q, y_s := s, y_mine := {r \<in> y_mine y. phase s r \<noteq> Gone}\<rparr>)" (is "wq_ok phase ok ?y")
proof -
  note rok = wq_okD(3) [OF ok]
  have "runner_ok phase ?y"
  proof (rule runner_closed)
    fix r' assume "r' \<in> y_mine ?y"
    then have m: "r' \<in> y_mine y" "phase s r' \<noteq> Gone" by simp_all
    have cur: "wq_current_runner (y_q y) \<noteq> Some r'" using c m(2) by auto
    then have "y_pc y r' = R_ret True" using runner_okD(2) [OF rok m(1)] by simp
    moreover have "phase s r' = phase (y_s y) r'" using c m(2) by auto
    ultimately show "y_pc ?y r' = R_ret True \<and> (\<exists>c. phase (y_s ?y) r' = Running c \<and> (c \<longrightarrow> wq_shutdown_scheduled (y_q ?y)))"
      using executing [OF rok m(1)] q(4) by auto
  qed (simp add: q)
  then show ?thesis using q closed_ok [of ?y] by (simp add: wq_ok_def)
qed

context task_service
begin

lemma return_step:
  assumes ok: "wq_ok phase ok y" and r: "r \<in> y_mine y" "y_pc y r = R_ret d" and m: "room (y_s y)"
    and f: "op_return ops r t d (y_s y) = Some s"
  shows "wq_ok phase ok (y\<lparr>y_s := s, y_mine := (if phase s r = Gone then y_mine y - {r} else y_mine y),
      y_pc := (y_pc y)(r := R_start)\<rparr>)" (is "wq_ok phase ok ?y")
proof -
  note rok = wq_okD(3) [OF ok]
  obtain c where c: "phase (y_s y) r = Running c" "c \<Longrightarrow> wq_shutdown_scheduled (y_q y)" using executing [OF rok r(1)] r(2) by auto
  from return_ok [OF wq_okD(1) [OF ok] m c(1), of t d] f
  have s: "ok s" "spares (- {r}) (phase (y_s y)) (phase s)"
    and p: "if d \<or> c then phase s r = Gone else phase s r = Waiting \<or> phase s r = Running False" by auto
  have cur: "d = (wq_current_runner (y_q y) \<noteq> Some r)" using runner_okD(2) [OF rok r(1)] r(2) by auto
  have "runner_ok phase ?y"
  proof (rule runner_okI)
    fix r' assume "r' \<in> y_mine ?y"
    then have m: "r' \<in> y_mine y" "r' = r \<longrightarrow> phase s r \<noteq> Gone" by (auto split: if_splits)
    show "phase (y_s ?y) r' = Waiting \<and> y_pc ?y r' = R_start \<or> (\<exists>c. phase (y_s ?y) r' = Running c \<and> (c \<longrightarrow> wq_shutdown_scheduled (y_q ?y)))"
      using runner_okD(1) [OF rok m(1)] m(2) p s(2) unfolding spares_def by (cases "r' = r") (auto split: if_splits dest!: bspec [of _ _ r'])
    show "y_pc ?y r' = R_ret True \<longleftrightarrow> wq_current_runner (y_q ?y) \<noteq> Some r'"
      using runner_okD(2) [OF rok m(1)] m(2) p cur by (cases "r' = r") (auto split: if_splits)
  next
    fix r' assume "wq_current_runner (y_q ?y) = Some r'"
    then show "r' \<in> y_mine ?y \<or> wq_shutdown_scheduled (y_q ?y)"
      using runner_okD(4) [OF rok, of r'] cur p c(2) by (cases "r' = r") (auto split: if_splits)
  qed (use runner_okD(3,5,6) [OF rok] in auto)
  moreover have "y_got ?y = y_got y" using r(2) by (auto simp: y_got_def split: option.splits)
  then have "count_ok ?y" by (intro count_same [OF wq_okD(5) [OF ok]]) simp_all
  moreover have "woken_ok ?y" using wq_okD(4) [OF ok] by (simp add: woken_ok_def)
  ultimately show ?thesis using s(1) wq_okD(2) [OF ok] by (simp add: wq_ok_def)
qed

lemma schedule_step:
  assumes ok: "wq_ok phase ok y" and g: "\<not> wq_deleted (y_q y) \<or> wq_shutdown_scheduled (y_q y)"
    and f: "ScheduleShutdown ops b (y_q y) (y_s y) = Some (q, s)"
  shows "wq_ok phase ok (y\<lparr>y_q := q, y_s := s, y_mine := {r \<in> y_mine y. phase s r \<noteq> Gone}\<rparr>)" (is "wq_ok phase ok ?y")
proof (cases "wq_shutdown_scheduled (y_q y)")
  case True
  then have "q = y_q y" "s = y_s y" using f by (auto simp: ScheduleShutdown_def)
  moreover have "{r \<in> y_mine y. phase (y_s y) r \<noteq> Gone} = y_mine y" using runner_okD(1) [OF wq_okD(3) [OF ok]] by fastforce
  ultimately show ?thesis using ok by simp
next
  case False
  note rok = wq_okD(3) [OF ok]
  have cur: "phase (y_s y) r = Waiting \<or> (\<exists>c. phase (y_s y) r = Running c)" "r \<in> y_mine y" if "wq_current_runner (y_q y) = Some r" for r
    using runner_okD(1,4) [OF rok, of r] that False by blast+
  have nd: "\<not> wq_deleted (y_q y)" using g False by blast
  from ScheduleShutdown_effect [OF wq_okD(1,2) [OF ok] False nd runner_okD(3) [OF rok] cur(1), of b] f
  have s: "ok s" "settings_ok q" "wq_shutdown_scheduled q" and c: "closed q \<and> (wq_current_runner (y_q y) = None \<and> s = y_s y \<or>
        (\<exists>r. wq_current_runner (y_q y) = Some r \<and> phase (y_s y) r = Waiting \<and> phase s = (phase (y_s y))(r := Gone))) \<or>
     (\<exists>r c. wq_current_runner (y_q y) = Some r \<and> wq_running (y_q y) \<and> phase (y_s y) r = Running c \<and> phase s = (phase (y_s y))(r := Running True) \<and>
       q = (y_q y)\<lparr>wq_shutdown_scheduled := True, wq_delete_entries := b\<rparr>)" by auto
  from c show ?thesis
  proof
    assume "closed q \<and> (wq_current_runner (y_q y) = None \<and> s = y_s y \<or>
        (\<exists>r. wq_current_runner (y_q y) = Some r \<and> phase (y_s y) r = Waiting \<and> phase s = (phase (y_s y))(r := Gone)))"
    then show ?thesis using closed_step [OF ok _ s(2,1) s(3)] by blast
  next
    assume "\<exists>r c. wq_current_runner (y_q y) = Some r \<and> wq_running (y_q y) \<and> phase (y_s y) r = Running c \<and> phase s = (phase (y_s y))(r := Running True) \<and>
       q = (y_q y)\<lparr>wq_shutdown_scheduled := True, wq_delete_entries := b\<rparr>"
    then obtain r c where r: "wq_current_runner (y_q y) = Some r" "wq_running (y_q y)" "phase s = (phase (y_s y))(r := Running True)"
      "q = (y_q y)\<lparr>wq_shutdown_scheduled := True, wq_delete_entries := b\<rparr>" by blast
    have mine: "y_mine ?y = y_mine y" using runner_okD(1) [OF rok] r(3) by fastforce
    have "runner_ok phase ?y"
    proof (rule runner_okI)
      fix r' assume "r' \<in> y_mine ?y"
      then have m: "r' \<in> y_mine y" by simp
      show "phase (y_s ?y) r' = Waiting \<and> y_pc ?y r' = R_start \<or> (\<exists>c. phase (y_s ?y) r' = Running c \<and> (c \<longrightarrow> wq_shutdown_scheduled (y_q ?y)))"
        using runner_okD(1) [OF rok m] r(3,4) by auto
      show "y_pc ?y r' = R_ret True \<longleftrightarrow> wq_current_runner (y_q ?y) \<noteq> Some r'" using runner_okD(2) [OF rok m] r(4) by simp
    qed (use runner_okD(3-6) [OF rok] r mine in auto)
    moreover have "y_got ?y = y_got y" by (rule y_got_same [OF _ mine]) (simp_all add: r(4))
    then have "count_ok ?y" by (intro count_same [OF wq_okD(5) [OF ok]]) (simp_all add: r(4) same_config_def)
    moreover have "woken_ok ?y" using r(2,4) by (simp add: woken_ok_def)
    ultimately show ?thesis using s by (simp add: wq_ok_def)
  qed
qed

lemma shutdown_step:
  assumes ok: "wq_ok phase ok y" and g: "\<not> wq_deleted (y_q y)" "\<not> wq_shutdown_scheduled (y_q y)" "\<forall>r \<in> y_mine y. phase (y_s y) r = Waiting"
  shows "\<exists>q s. Shutdown ops b (y_q y) (y_s y) = Some (q, s) \<and>
    wq_ok phase ok (y\<lparr>y_q := q, y_s := s, y_mine := {r \<in> y_mine y. phase s r \<noteq> Gone}\<rparr>)"
proof (cases "wq_current_runner (y_q y)")
  case None
  then have "\<not> wq_running (y_q y)" using runner_okD(3) [OF wq_okD(3) [OF ok]] by simp
  then obtain q where q: "Shutdown ops b (y_q y) (y_s y) = Some (q, y_s y)" "closed q" "settings_ok q"
    using ShutdownLocked_idle [OF g(1) _ None wq_okD(2) [OF ok], of ops b "y_s y"] by (auto simp: Shutdown_def)
  then show ?thesis using closed_step [OF ok q(2,3) wq_okD(1) [OF ok]] g(2) None by blast
next
  case (Some r)
  note rok = wq_okD(3) [OF ok]
  have r: "wq_running (y_q y)" "phase (y_s y) r = Waiting" using runner_okD(3,4) [OF rok] g(2,3) Some by auto
  obtain q s where q: "Shutdown ops b (y_q y) (y_s y) = Some (q, s)" "closed q" "settings_ok q" "ok s" "phase s = (phase (y_s y))(r := Gone)"
    using ShutdownLocked_waiting [OF wq_okD(1) [OF ok] g(1) r(1) Some r(2) wq_okD(2) [OF ok], of b] by (auto simp: Shutdown_def)
  then show ?thesis using closed_step [OF ok q(2-4)] g(2) Some r(2) by blast
qed

lemma wq_step_ok:
  assumes "wq_step ops phase room rest y y'" "wq_ok phase ok y"
  shows "wq_ok phase ok y'"
  using assms(1)
proof cases
  note ok = assms(2) and so = wq_okD(2) [OF assms(2)]
  case (count n q e)
  then show ?thesis using count_step [OF ok count(3) EnqueueInternal_count_effect [OF count(4) so]] same_configD(3) [OF same_controlD(1) [OF EnqueueInternal_count_effect(1) [OF count(4) so]]] by simp
next
  note ok = assms(2) and so = wq_okD(2) [OF assms(2)]
  case (count_bounded q e)
  note e = EnqueueBounded_count_effect [OF count_bounded(4) so]
  then show ?thesis using count_step [OF ok count_bounded(3) e(1-4)] same_configD(4) [OF same_controlD(1) [OF e(1)]] count_bounded(1) by simp
next
  note ok = assms(2) and so = wq_okD(2) [OF assms(2)]
  case (count_full q)
  then show ?thesis using full_step [OF ok count_full(3) EnqueueBounded_count_effect(1-4) [OF count_full(4) so]] by simp
next
  case (dropped n)
  then show ?thesis using dropped_step [OF assms(2)] by simp
next
  case (push e)
  then show ?thesis using push_step [OF assms(2)] by simp
next
  case (start n r q s)
  then show ?thesis using start_step [OF assms(2)] by simp
next
  case (entry_defer r c cb q)
  note e = OnEntry_effect [OF entry_defer(5)]
  then show ?thesis using runner_moves [OF assms(2) entry_defer(2) _ _ e(1), of c "R_ret False" "[]"] entry_defer wq_okD(2) [OF assms(2)]
      current_unique(4) [OF wq_okD(3) [OF assms(2)] entry_defer(2)] by simp
next
  case (entry_run r c cb q)
  note e = OnEntry_effect [OF entry_run(5)]
  then show ?thesis using runner_moves [OF assms(2) entry_run(2) _ _ e(1), of c "if RunnerAbort (y_go y) q then R_fin else R_loop 0" "[]"]
      entry_run wq_okD(2) [OF assms(2)] current_unique(4) [OF wq_okD(3) [OF assms(2)] entry_run(2)] by simp
next
  case (pop r n e q)
  note e = pop_effect [OF pop(4)]
  then show ?thesis using runner_moves [OF assms(2) pop(2) _ _ e(1), of _ "R_got e n" "[]"] pop wq_okD(2) [OF assms(2)]
      current_unique(4) [OF wq_okD(3) [OF assms(2)] pop(2)] by simp
next
  case (pop_empty r n)
  then show ?thesis using runner_moves [OF assms(2) pop_empty(2) _ _ _ _, of _ "y_q y" R_fin "[]"] wq_okD(2) [OF assms(2)]
      current_unique(4) [OF wq_okD(3) [OF assms(2)] pop_empty(2)] by (simp add: same_control_def same_config_def)
next
  case (process r e n cb)
  note u = current_unique [OF wq_okD(3) [OF assms(2)] process(2)]
  have "y_got y = [e]" "\<not> wq_deleted (y_q y)" using u process(3) by simp_all
  then have "sub64 (wq_count (y_q y)) 1 = wq_count (y_q y) - 1" using count_okD(2,3) [OF wq_okD(5) [OF assms(2)]] by (intro sub64_1) simp_all
  then show ?thesis
    using runner_moves [OF assms(2) process(2) _ _ Dequeue_count_effect(1), of _ "if \<not> cb \<or> Suc n = wq_max_iterations (y_q y) then R_fin else R_loop (Suc n)" "[e]"]
      process wq_okD(2) [OF assms(2)] \<open>y_got y = [e]\<close> by (simp add: Dequeue_count_effect)
next
  case (finish r d q s)
  then show ?thesis using finish_step [OF assms(2)] by simp
next
  case (return r d t s)
  then show ?thesis using return_step [OF assms(2)] by simp
next
  case (disable b)
  show ?thesis
  proof (rule wq_okI)
    show "count_ok y'" by (rule count_same [OF wq_okD(5) [OF assms(2)]]) (auto simp: disable intro!: y_got_same)
    show "woken_ok y'" using wq_okD(4) [OF assms(2)] by (auto simp: disable woken_ok_def Let_def RunnerAbortLocked_def)
    show "runner_ok phase y'" by (rule runner_okI) (use runner_okD [OF wq_okD(3) [OF assms(2)]] in \<open>auto simp: disable\<close>)
  qed (use wq_okD(1,2) [OF assms(2)] in \<open>simp_all add: disable settings_ok_def\<close>)
next
  case (set_go b)
  show ?thesis
  proof (rule wq_okI)
    show "count_ok y'" by (rule count_same [OF wq_okD(5) [OF assms(2)]]) (auto simp: set_go intro!: y_got_same)
    show "woken_ok y'" using wq_okD(4) [OF assms(2)] by (auto simp: set_go woken_ok_def Let_def RunnerAbortLocked_def)
    show "runner_ok phase y'" by (rule runner_okI) (use runner_okD [OF wq_okD(3) [OF assms(2)]] in \<open>auto simp: set_go\<close>)
  qed (use wq_okD(1,2) [OF assms(2)] in \<open>simp_all add: set_go\<close>)
next
  case kick
  show ?thesis
  proof (rule wq_okI)
    show "count_ok y'" by (rule count_same [OF wq_okD(5) [OF assms(2)]]) (auto simp: kick intro!: y_got_same)
    show "woken_ok y'" by (simp add: kick woken_ok_def)
    show "runner_ok phase y'" by (rule runner_okI) (use runner_okD [OF wq_okD(3) [OF assms(2)]] in \<open>auto simp: kick\<close>)
  qed (use wq_okD(1,2) [OF assms(2)] in \<open>simp_all add: kick\<close>)
next
  case (marks f w)
  note e = marks_effect [OF marks(2), of "y_q y"]
  show ?thesis
  proof (rule wq_okI)
    show "count_ok y'" by (rule count_same [OF wq_okD(5) [OF assms(2)] y_got_same])
      (simp_all add: marks(1) e same_controlD [OF e(1)] same_configD [OF same_controlD(1) [OF e(1)]])
    show "woken_ok y'" by (rule woken_same [OF wq_okD(4) [OF assms(2)]]) (simp_all add: marks(1) e)
    show "runner_ok phase y'" by (rule runner_same [OF wq_okD(3) [OF assms(2)]]) (simp_all add: marks(1) e)
  qed (use wq_okD(1,2) [OF assms(2)] e(2) in \<open>simp_all add: marks(1)\<close>)
next
  case (schedule_shutdown b q s)
  then show ?thesis using schedule_step [OF assms(2)] by simp
next
  case (shutdown b q s)
  then show ?thesis using shutdown_step [OF assms(2) shutdown(2-4), of b] by auto
next
  case (rest s)
  then show ?thesis using spared_step [OF assms(2) rest_ok [OF wq_okD(1) [OF assms(2)] rest(2)]] by simp
qed

end

section \<open>What holds in every state\<close>

text \<open>A new queue, with its callbacks set, next to a scheduler in any state it can be in.\<close>

definition wq_init :: "('a, sched) wqs \<Rightarrow> bool" where
  "wq_init y = (reach (y_s y) \<and>
     (\<exists>i n size' iters ptr bnd en ex st. 0 \<le> i \<and> (n = -1 \<or> 0 \<le> n) \<and>
        y_q y = SetBounded bnd (SetEntryCallback en (SetExitCallback ex (SetStartRunnerFunc st (mk_WorkQueue i n size' iters ptr))))) \<and>
     y_pushing y = [] \<and> y_dropping y = 0 \<and> y_starting y = 0 \<and> y_mine y = {} \<and> y_pushed y = [] \<and> y_done y = [])"

abbreviation wq_steps :: "('a, sched) wqs \<Rightarrow> ('a, sched) wqs \<Rightarrow> bool" where
  "wq_steps \<equiv> wq_step TaskScheduler phase_of seq_room sched_step"

abbreviation wq_reach :: "('a, sched) wqs \<Rightarrow> bool" where
  "wq_reach \<equiv> reachable wq_init wq_steps"

lemma wq_init_ok:
  assumes "wq_init y"
  shows "wq_ok phase_of svc_ok y"
proof -
  have "svc_ok (y_s y)" using assms service.holds by (simp add: wq_init_def)
  then show ?thesis using assms
    by (auto simp: wq_init_def wq_ok_def settings_ok_def runner_ok_def woken_ok_def count_ok_def y_got_def
        SetBounded_def SetEntryCallback_def SetExitCallback_def SetStartRunnerFunc_def mk_WorkQueue_def)
qed

interpretation wqi: invariant wq_init wq_steps "wq_ok phase_of svc_ok"
  by unfold_locales (use wq_init_ok svc.wq_step_ok in auto)

text \<open>
  C6. No assertion of the work queue fails, whatever the interleaving of producers, runner and
  scheduler: an entry can be counted, the runner can be started and can end, and the queue can be shut
  down once. At most one runner that has not ended exists, and it is the current one.
\<close>

theorem work_queue_never_aborts:
  assumes "wq_reach y"
  shows "EnqueueInternal_count (y_q y) \<noteq> None \<and> EnqueueBounded_count (y_q y) \<noteq> None \<and>
    (\<forall>r. phase_of (y_s y) r = Gone \<longrightarrow> seq_room (y_s y) \<longrightarrow> MayBeStartRunner TaskScheduler (y_go y) r (y_q y) (y_s y) \<noteq> None) \<and>
    (\<forall>r \<in> y_mine y. y_pc y r = R_fin \<longrightarrow> RunnerDone TaskScheduler (y_go y) (y_q y) (y_s y) \<noteq> None) \<and>
    (\<not> wq_deleted (y_q y) \<or> wq_shutdown_scheduled (y_q y) \<longrightarrow> ScheduleShutdown TaskScheduler b (y_q y) (y_s y) \<noteq> None) \<and>
    (\<not> wq_deleted (y_q y) \<longrightarrow> \<not> wq_shutdown_scheduled (y_q y) \<longrightarrow> (\<forall>r \<in> y_mine y. phase_of (y_s y) r = Waiting) \<longrightarrow>
      Shutdown TaskScheduler b (y_q y) (y_s y) \<noteq> None) \<and>
    (\<forall>r \<in> y_mine y. y_pc y r \<noteq> R_ret True \<longrightarrow> wq_current_runner (y_q y) = Some r)"
proof -
  have ok: "wq_ok phase_of svc_ok y" by (rule wqi.holds [OF assms])
  note so = wq_okD(2) [OF ok] and rok = wq_okD(3) [OF ok]
  have m: "succeeds (ProcessHighWaterMarks n (wq_watermarks (y_q y))) (\<lambda>_. True)" for n
    using succeeds_mono [OF ProcessHighWaterMarks_ok] so by (simp add: settings_ok_def)
  show ?thesis
  proof (intro conjI ballI allI impI)
    show "EnqueueInternal_count (y_q y) \<noteq> None" "EnqueueBounded_count (y_q y) \<noteq> None"
      using m [of "u64 (wq_count (y_q y) + 1)"] by (auto simp: EnqueueInternal_count_def EnqueueBounded_count_def Let_def succeeds_iff)
    show "MayBeStartRunner TaskScheduler (y_go y) r (y_q y) (y_s y) \<noteq> None" if "phase_of (y_s y) r = Gone" "seq_room (y_s y)" for r
      using svc.MayBeStartRunner_effect [OF wq_okD(1) [OF ok] that(2,1) so runner_okD(3) [OF rok], of "y_go y"] by auto
    show "RunnerDone TaskScheduler (y_go y) (y_q y) (y_s y) \<noteq> None" if "r \<in> y_mine y" "y_pc y r = R_fin" for r
      using RunnerDone_effect [OF current_unique(2,3) [OF rok that(1)] so, of TaskScheduler "y_go y" "y_s y"] that(2) by auto
    show "ScheduleShutdown TaskScheduler b (y_q y) (y_s y) \<noteq> None" if "\<not> wq_deleted (y_q y) \<or> wq_shutdown_scheduled (y_q y)"
    proof (cases "wq_shutdown_scheduled (y_q y)")
      case False
      have "phase_of (y_s y) r = Waiting \<or> (\<exists>c. phase_of (y_s y) r = Running c)" if "wq_current_runner (y_q y) = Some r" for r
        using runner_okD(1,4) [OF rok, of r] that False by blast
      then show ?thesis using svc.ScheduleShutdown_effect [OF wq_okD(1) [OF ok] so False _ runner_okD(3) [OF rok], of b] that False by auto
    qed (simp add: ScheduleShutdown_def)
    show "Shutdown TaskScheduler b (y_q y) (y_s y) \<noteq> None"
      if "\<not> wq_deleted (y_q y)" "\<not> wq_shutdown_scheduled (y_q y)" "\<forall>r \<in> y_mine y. phase_of (y_s y) r = Waiting"
      using svc.shutdown_step [OF ok that, of b] by auto
    show "wq_current_runner (y_q y) = Some r" if "r \<in> y_mine y" "y_pc y r \<noteq> R_ret True" for r
      by (rule current_unique(1) [OF rok that])
  qed
qed

text \<open>
  C5. No entry is lost, duplicated or reordered, and none is left behind: until the queue is shut
  down the entries pushed are those processed, the one in the hands of the runner and those in the queue, in
  this order. While there are entries in the queue, a runner that has not ended waits or runs in the
  scheduler, or a thread is about to call \<open>MayBeStartRunner\<close>, with these exceptions: the queue is disabled, a
  shutdown is scheduled, or the queue has a \<open>start_runner_\<close> callback which refuses, or which has begun
  to accept without a call of \<open>MayBeStartRunner\<close> since.
\<close>

theorem work_queue_no_lost_entries:
  assumes "wq_reach y" "\<not> wq_deleted (y_q y)"
  shows "y_pushed y = y_done y @ y_got y @ wq_queue (y_q y) \<and>
    (wq_queue (y_q y) \<noteq> [] \<longrightarrow>
       (\<exists>r \<in> y_mine y. y_pc y r \<noteq> R_ret True \<and> (phase_of (y_s y) r = Waiting \<or> (\<exists>c. phase_of (y_s y) r = Running c))) \<or>
       0 < y_starting y \<or> wq_disabled (y_q y) \<or> wq_shutdown_scheduled (y_q y) \<or>
       wq_has_start_runner (y_q y) \<and> (\<not> y_go y \<or> y_stale y))"
proof -
  have ok: "wq_ok phase_of svc_ok y" by (rule wqi.holds [OF assms(1)])
  note rok = wq_okD(3) [OF ok]
  have "\<exists>r \<in> y_mine y. y_pc y r \<noteq> R_ret True \<and> (phase_of (y_s y) r = Waiting \<or> (\<exists>c. phase_of (y_s y) r = Running c))"
    if r: "wq_running (y_q y)" "\<not> RunnerAbortLocked (y_go y) (y_q y)"
  proof -
    obtain r where c: "wq_current_runner (y_q y) = Some r" using runner_okD(3) [OF rok] r(1) by auto
    moreover have "r \<in> y_mine y" using runner_okD(4) [OF rok c] r(2) by (simp add: RunnerAbortLocked_def)
    ultimately show ?thesis using runner_okD(1,2) [OF rok, of r] by blast
  qed
  then show ?thesis using wq_okD(4) [OF ok] count_okD(1) [OF wq_okD(5) [OF ok] assms(2)] assms(2)
    by (auto simp: woken_ok_def Let_def RunnerAbortLocked_def)
qed

text \<open>
  C12. The counter and the bound: until the queue is shut down \<open>count_\<close> is the number of the entries that
  are counted and not yet taken out, so it never goes below zero; a bounded queue never holds
  \<open>size_\<close> entries or more.
\<close>

theorem work_queue_bounds:
  assumes "wq_reach y" "\<not> wq_deleted (y_q y)"
  shows "wq_count (y_q y) = length (wq_queue (y_q y)) + length (y_got y) + length (y_pushing y) + y_dropping y \<and>
    wq_count (y_q y) < 2 ^ 64 \<and>
    (wq_bounded (y_q y) \<longrightarrow> length (wq_queue (y_q y)) + length (y_got y) + length (y_pushing y) \<le> wq_size (y_q y) - 1)"
  using count_okD(2-4) [OF wq_okD(5) [OF wqi.holds [OF assms(1)]] assms(2)] by blast

section \<open>A run of the runner\<close>

lemma Dequeue_effect:
  assumes "Dequeue w = Some (e, w')"
  shows "wq_queue w = e # wq_queue w'" "wq_max_iterations w' = wq_max_iterations w"
  using assms by (auto simp: Dequeue_def DequeueInternalLocked_def DequeueInternal_def Dequeue_pop_def Dequeue_count_def
      upd_marks_def Let_def split: list.splits if_splits)

lemma Dequeue_none: "Dequeue w = None \<longleftrightarrow> wq_queue w = []"
  by (simp add: Dequeue_def DequeueInternalLocked_def DequeueInternal_def pop_none)

lemma RunQueue_loop_ok:
  assumes "RunQueue_loop cb n w = (es, w')" "n < wq_max_iterations w \<or> wq_max_iterations w = 0"
  shows "es @ wq_queue w' = wq_queue w \<and> (0 < wq_max_iterations w \<longrightarrow> n + length es \<le> wq_max_iterations w) \<and>
    (\<forall>e \<in> set (butlast es). cb e) \<and>
    (wq_queue w' = [] \<or> n + length es = wq_max_iterations w \<or> es \<noteq> [] \<and> \<not> cb (last es))"
  using assms
proof (induction cb n w arbitrary: es rule: RunQueue_loop.induct)
  case (1 cb n w)
  show ?case
  proof (cases "Dequeue w")
    case None
    then show ?thesis using "1.prems" Dequeue_none [of w] by auto
  next
    case (Some p)
    then obtain e w1 where d: "Dequeue w = Some (e, w1)" by (cases p) simp
    note e = Dequeue_effect [OF d]
    show ?thesis
    proof (cases "\<not> cb e \<or> Suc n = wq_max_iterations w")
      case True
      then show ?thesis using "1.prems" d e by (auto split: if_splits)
    next
      case False
      obtain es1 where r: "RunQueue_loop cb (Suc n) w1 = (es1, w')" "es = e # es1"
        using "1.prems"(1) False d e by (cases "RunQueue_loop cb (Suc n) w1") (auto split: if_splits)
      have "Suc n < wq_max_iterations w1 \<or> wq_max_iterations w1 = 0" using "1.prems"(2) False e(2) by auto
      from "1.IH" [OF d refl _ _ r(1) this] show ?thesis using False e r(2) by auto
    qed
  qed
qed

text \<open>
  C13. A run of the runner ends and processes a prefix of the queue: at most \<open>max_iterations_\<close>
  entries (all of them when \<open>max_iterations_\<close> is 0), and it stops early only at an empty queue or at an
  entry whose callback returns false.
\<close>

theorem run_queue_processes:
  "case RunQueue_loop cb 0 w of (es, w') \<Rightarrow>
     es @ wq_queue w' = wq_queue w \<and> (wq_max_iterations w \<noteq> 0 \<longrightarrow> length es \<le> wq_max_iterations w) \<and>
     (\<forall>e \<in> set (butlast es). cb e) \<and>
     (wq_queue w' = [] \<or> length es = wq_max_iterations w \<or> es \<noteq> [] \<and> \<not> cb (last es))"
  using RunQueue_loop_ok [of cb 0 w "fst (RunQueue_loop cb 0 w)" "snd (RunQueue_loop cb 0 w)"]
  by (cases "RunQueue_loop cb 0 w") auto

theorem run_queue_processes_witness:
  "RunQueue_loop (\<lambda>e. e \<noteq> 9) 0 ((mk_WorkQueue 1 0 1024 2 False)\<lparr>wq_queue := [4, 5, 6 :: nat], wq_count := 3\<rparr>) =
     ([4, 5], snd (RunQueue_loop (\<lambda>e. e \<noteq> 9) 0 ((mk_WorkQueue 1 0 1024 2 False)\<lparr>wq_queue := [4, 5, 6 :: nat], wq_count := 3\<rparr>)))"
proof -
  define w :: "nat wq" where "w = (mk_WorkQueue 1 0 1024 2 False)\<lparr>wq_queue := [4, 5, 6], wq_count := 3\<rparr>"
  have w: "wq_queue w = [4, 5, 6]" "wq_max_iterations w = 2" by (simp_all add: w_def mk_WorkQueue_def)
  obtain es w' where r: "RunQueue_loop (\<lambda>e. e \<noteq> 9) 0 w = (es, w')" by (cases "RunQueue_loop (\<lambda>e. e \<noteq> 9) 0 w")
  from run_queue_processes [where cb = "\<lambda>e. e \<noteq> 9" and w = w, unfolded r] w have p: "es @ wq_queue w' = [4, 5, 6]" "length es \<le> 2"
    "wq_queue w' = [] \<or> length es = 2 \<or> es \<noteq> [] \<and> last es = 9" by auto
  then have "es = [4, 5]" by (auto simp: append_eq_Cons_conv split: if_splits)
  then show ?thesis using r unfolding w_def by simp
qed

section \<open>A shutdown that is lost\<close>

definition shutdown_lost :: "('a, 's) wqs \<Rightarrow> bool" where
  "shutdown_lost y = (wq_shutdown_scheduled (y_q y) \<and> \<not> wq_deleted (y_q y) \<and>
     (\<exists>r. wq_current_runner (y_q y) = Some r \<and> r \<notin> y_mine y))"

lemma lost_step:
  assumes "wq_steps y y'" "wq_ok phase_of svc_ok y" "shutdown_lost y"
  shows "shutdown_lost y'"
proof -
  note rok = wq_okD(3) [OF assms(2)] and so = wq_okD(2) [OF assms(2)]
  obtain r where l: "wq_shutdown_scheduled (y_q y)" "\<not> wq_deleted (y_q y)" "wq_current_runner (y_q y) = Some r" "r \<notin> y_mine y"
    using assms(3) by (auto simp: shutdown_lost_def)
  have run: "wq_running (y_q y)" using runner_okD(3) [OF rok] l(3) by simp
  have ended: "y_pc y r' = R_ret True" if "r' \<in> y_mine y" for r' using current_unique(1) [OF rok that] l(3,4) that by auto
  have same: "shutdown_lost y'" if "same_control (y_q y) (y_q y')" "y_mine y' \<subseteq> y_mine y"
    using l same_controlD [OF that(1)] same_configD [OF same_controlD(1) [OF that(1)]] that(2) by (auto simp: shutdown_lost_def)
  have refl: "same_control q q" for q :: "'a wq" by (simp add: same_control_def same_config_def)
  from assms(1) show ?thesis
  proof cases
    case (count n q e)
    then show ?thesis using same EnqueueInternal_count_effect(1) [OF count(4) so] by simp
  next
    case (count_bounded q e)
    then show ?thesis using same EnqueueBounded_count_effect(1) [OF count_bounded(4) so] by simp
  next
    case (count_full q)
    then show ?thesis using same EnqueueBounded_count_effect(1) [OF count_full(4) so] by simp
  next
    case (dropped n)
    then show ?thesis using same drop_effect(1) [of "y_q y"] by simp
  next
    case (push e)
    then show ?thesis using same push_effect(1) [where q = "y_q y" and e = e] by simp
  next
    case (start n q' q s)
    then have "q = y_q y" using run by (simp add: MayBeStartRunner_def)
    then show ?thesis using same start(1) run refl by simp
  next
    case (marks f w)
    then show ?thesis using same marks_effect(1) [OF marks(2), of "y_q y"] by simp
  next
    case (schedule_shutdown b q s)
    then have "q = y_q y" using l(1) by (simp add: ScheduleShutdown_def)
    then show ?thesis using same schedule_shutdown(1) refl by auto
  qed (use ended refl l in \<open>auto simp: shutdown_lost_def split: if_splits\<close>)
qed

text \<open>
  C14. A shutdown can be lost. When the runner has returned from \<open>RunnerDone\<close> with false (its iterations
  are used up) or has been deferred by \<open>on_entry_cb_\<close>, but has not come back to the scheduler yet,
  \<open>ScheduleShutdown\<close> marks it as cancelled and relies on it for the shutdown; the scheduler then
  deletes the cancelled task instead of running it again. The queue stays running for ever with a current
  runner that no longer exists, and is never shut down.
\<close>

theorem schedule_shutdown_lost:
  assumes "wq_reach y" "r \<in> y_mine y" "y_pc y r = R_ret False" "\<not> wq_shutdown_scheduled (y_q y)" "seq_room (y_s y)"
  shows "\<exists>q s y1 y2. ScheduleShutdown TaskScheduler b (y_q y) (y_s y) = Some (q, s) \<and>
    wq_steps y y1 \<and> y_q y1 = q \<and> wq_steps y1 y2 \<and> phase_of (y_s y2) r = Gone \<and>
    (\<forall>y3. wq_steps\<^sup>*\<^sup>* y2 y3 \<longrightarrow> wq_shutdown_scheduled (y_q y3) \<and> \<not> wq_deleted (y_q y3) \<and> wq_running (y_q y3))"
proof -
  have ok: "wq_ok phase_of svc_ok y" by (rule wqi.holds [OF assms(1)])
  note rok = wq_okD(3) [OF ok]
  have nr: "y_pc y r \<noteq> R_ret True" using assms(3) by simp
  note u = current_unique [OF rok assms(2) nr]
  obtain c where c: "phase_of (y_s y) r = Running c" using executing [OF rok assms(2)] assms(3) by auto
  have cur: "phase_of (y_s y) r' = Waiting \<or> (\<exists>c. phase_of (y_s y) r' = Running c)" if "wq_current_runner (y_q y) = Some r'" for r'
    using u(1) that c by auto
  obtain q s where q: "ScheduleShutdown TaskScheduler b (y_q y) (y_s y) = Some (q, s)" "svc_ok s"
    "phase_of s = (phase_of (y_s y))(r := Running True)" "seq_room s" "q = (y_q y)\<lparr>wq_shutdown_scheduled := True, wq_delete_entries := b\<rparr>"
    using svc.ScheduleShutdown_effect [OF wq_okD(1,2) [OF ok] assms(4) u(3) runner_okD(3) [OF rok] cur, of b] u(1) c assms(5) by auto
  define y1 where "y1 = y\<lparr>y_q := q, y_s := s, y_mine := {r \<in> y_mine y. phase_of s r \<noteq> Gone}\<rparr>"
  have s1: "wq_steps y y1" unfolding y1_def by (rule wq_step.schedule_shutdown [OF _ q(1)]) (simp add: u(3))
  have ok1: "wq_ok phase_of svc_ok y1" by (rule svc.wq_step_ok [OF s1 ok])
  have y1: "r \<in> y_mine y1" "y_pc y1 r = R_ret False" "phase_of (y_s y1) r = Running True" "seq_room (y_s y1)" "wq_current_runner (y_q y1) = Some r"
    "wq_shutdown_scheduled (y_q y1)" "\<not> wq_deleted (y_q y1)"
    using assms(2,3) q u by (simp_all add: y1_def)
  obtain s2 where s2: "op_return TaskScheduler r 0 False (y_s y1) = Some s2" "phase_of s2 r = Gone"
    using svc.return_ok [OF wq_okD(1) [OF ok1] y1(4,3), of 0 False] by auto
  define y2 where "y2 = y1\<lparr>y_s := s2, y_mine := (if phase_of s2 r = Gone then y_mine y1 - {r} else y_mine y1), y_pc := (y_pc y1)(r := R_start)\<rparr>"
  have st2: "wq_steps y1 y2" unfolding y2_def by (rule wq_step.return [where room = seq_room]) (use y1 s2 in auto)
  have lost: "shutdown_lost y2" using y1(5-7) s2(2) by (simp add: y2_def shutdown_lost_def)
  have ok2: "wq_ok phase_of svc_ok y2" by (rule svc.wq_step_ok [OF st2 ok1])
  have "wq_shutdown_scheduled (y_q y3) \<and> \<not> wq_deleted (y_q y3) \<and> wq_running (y_q y3)" if "wq_steps\<^sup>*\<^sup>* y2 y3" for y3
  proof -
    have "shutdown_lost y3 \<and> wq_ok phase_of svc_ok y3" using that
    proof (induction rule: rtranclp_induct)
      case (step y z)
      then show ?case using lost_step svc.wq_step_ok by blast
    qed (use lost ok2 in blast)
    then show ?thesis using runner_okD(3) [OF wq_okD(3)] by (auto simp: shutdown_lost_def)
  qed
  moreover have "y_q y1 = q" by (simp add: y1_def)
  moreover have "phase_of (y_s y2) r = Gone" using s2(2) by (simp add: y2_def)
  ultimately show ?thesis using q(1) s1 st2 by blast
qed

section \<open>A run of the queue\<close>

text \<open>
  A producer enqueues an entry to a new bounded queue, the runner starts at once and
  \<open>on_entry_cb_\<close> defers it.
\<close>

definition wq_demo :: "(nat, sched) wqs" where
  "wq_demo = \<lparr>y_q = SetBounded True (SetEntryCallback True (SetExitCallback False (SetStartRunnerFunc False (mk_WorkQueue 1 0 8 4 False)))),
     y_s = mk_TaskScheduler, y_go = True, y_stale = False, y_pushing = [], y_dropping = 0, y_starting = 0, y_mine = {}, y_pc = (\<lambda>_. R_start),
     y_pushed = [], y_done = []\<rparr>"

lemma wq_demo_run:
  "\<exists>y :: (nat, sched) wqs. wq_reach y \<and> \<not> wq_deleted (y_q y) \<and> wq_bounded (y_q y) \<and> wq_queue (y_q y) = [7] \<and> y_mine y = {0} \<and>
     y_pc y 0 = R_ret False \<and> \<not> wq_shutdown_scheduled (y_q y) \<and> seq_room (y_s y) \<and> phase_of (y_s y) 0 = Running False"
proof -
  note defs = wq_demo_def SetBounded_def SetEntryCallback_def SetExitCallback_def SetStartRunnerFunc_def mk_WorkQueue_def
  have "wq_init wq_demo"
    unfolding wq_init_def
    by (intro conjI, simp add: wq_demo_def reachable.initial, rule exI [of _ 1], rule exI [of _ 0], rule exI [of _ 8], rule exI [of _ 4],
        rule exI [of _ False], rule exI [of _ True], rule exI [of _ True], rule exI [of _ False], rule exI [of _ False]) (simp_all add: wq_demo_def)
  then have r0: "wq_reach wq_demo" by (rule initial)
  obtain q1 where q1: "EnqueueBounded_count (y_q wq_demo) = Some (True, q1)"
    by (simp add: defs EnqueueBounded_count_def ProcessHighWaterMarks_def mk_WaterMarkTuple_def Let_def)
  define y1 where "y1 = wq_demo\<lparr>y_q := q1, y_pushing := [7]\<rparr>"
  have "wq_steps wq_demo (wq_demo\<lparr>y_q := q1, y_pushing := 7 # y_pushing wq_demo\<rparr>)"
    by (rule wq_step.count_bounded) (use q1 in \<open>simp_all add: defs\<close>)
  then have r1: "wq_reach y1" using later [OF r0] by (simp add: y1_def wq_demo_def)
  have f1: "wq_queue q1 = []" "\<not> wq_running q1" "\<not> wq_deleted q1" "\<not> wq_disabled q1" "\<not> wq_shutdown_scheduled q1" "\<not> wq_has_start_runner q1"
    "wq_current_runner q1 = None" "wq_taskId q1 = 1" "wq_taskInstance q1 = 0" "wq_has_entry_cb q1" "wq_bounded q1"
    using q1 by (auto simp: defs EnqueueBounded_count_def ProcessHighWaterMarks_def mk_WaterMarkTuple_def Let_def)
  define y2 where "y2 = y1\<lparr>y_q := queue_push 7 q1, y_pushing := [], y_starting := 1, y_pushed := [7]\<rparr>"
  have "wq_steps y1 (y1\<lparr>y_q := queue_push 7 (y_q y1), y_pushing := remove1 7 (y_pushing y1),
      y_starting := Suc (y_starting y1), y_pushed := y_pushed y1 @ [7]\<rparr>)" by (rule wq_step.push) (simp add: y1_def)
  then have r2: "wq_reach y2" using later [OF r1] by (simp add: y2_def y1_def wq_demo_def)
  obtain s where s: "Enqueue 0 (new_Task 0 1 0 mk_TaskScheduler) = Some s" "phase_of s = (\<lambda>_. Gone)(0 := Running False)" "seq_room s"
    using first_runs [of 1 0 0] by auto
  define q3 where "q3 = (queue_push 7 q1)\<lparr>wq_task_starts := u32 (wq_task_starts q1 + 1), wq_running := True, wq_current_runner := Some 0\<rparr>"
  have m: "MayBeStartRunner TaskScheduler (y_go y2) 0 (y_q y2) (y_s y2) = Some (q3, s)"
    using f1 s(1) by (simp add: MayBeStartRunner_def RunnerAbortLocked_def y2_def y1_def wq_demo_def queue_push_def TaskScheduler_def q3_def Let_def)
  define y3 where "y3 = y2\<lparr>y_q := q3, y_s := s, y_starting := 0, y_stale := False, y_mine := {0}, y_pc := (y_pc y2)(0 := R_start)\<rparr>"
  have "wq_steps y2 (y2\<lparr>y_q := q3, y_s := s, y_starting := 0, y_stale := False,
      y_mine := (if wq_running q3 \<and> \<not> wq_running (y_q y2) then insert 0 (y_mine y2) else y_mine y2), y_pc := (y_pc y2)(0 := R_start)\<rparr>)"
    by (rule wq_step.start [OF _ _ _ m]) (simp_all add: y2_def y1_def wq_demo_def phase_of_def seq_room_def mk_TaskScheduler_def)
  moreover have "wq_running q3" "\<not> wq_running (y_q y2)" "y_mine y2 = {}" using f1(2) by (simp_all add: q3_def y2_def y1_def wq_demo_def queue_push_def)
  ultimately have r3: "wq_reach y3" using later [OF r2] by (simp add: y3_def)
  define q4 where "q4 = snd (OnEntry False q3)"
  have e4: "OnEntry False q3 = (False, q4)" using f1(10) by (simp add: q4_def OnEntry_def q3_def queue_push_def)
  have "wq_queue q3 = [7]" using f1(1) by (simp add: q3_def queue_push_def)
  then have q4: "OnEntry False q3 = (False, q4)" "same_control q3 q4" "wq_queue q4 = [7]" using e4 OnEntry_effect(1,3) [OF e4] by simp_all
  define y4 where "y4 = y3\<lparr>y_q := q4, y_pc := (y_pc y3)(0 := R_ret False)\<rparr>"
  have "wq_steps y3 y4" unfolding y4_def by (rule wq_step.entry_defer [where c = False]) (use q4 s in \<open>simp_all add: y3_def\<close>)
  then have "wq_reach y4" by (rule later [OF r3])
  moreover have "\<not> wq_deleted q3" "wq_bounded q3" "\<not> wq_shutdown_scheduled q3" using f1 by (simp_all add: q3_def queue_push_def)
  ultimately show ?thesis using q4 s same_configD [OF same_controlD(1) [OF q4(2)]] by (intro exI [of _ y4]) (simp add: y4_def y3_def)
qed

theorem work_queue_never_aborts_witness:
  "\<exists>y :: (nat, sched) wqs. wq_reach y \<and> wq_queue (y_q y) = [7] \<and> ScheduleShutdown TaskScheduler True (y_q y) (y_s y) \<noteq> None"
proof -
  obtain y :: "(nat, sched) wqs" where y: "wq_reach y" "\<not> wq_deleted (y_q y)" "wq_queue (y_q y) = [7]" using wq_demo_run by blast
  then show ?thesis using work_queue_never_aborts [OF y(1), of True] by (intro exI [of _ y]) simp
qed

theorem work_queue_no_lost_entries_witness:
  "\<exists>y :: (nat, sched) wqs. wq_reach y \<and> \<not> wq_deleted (y_q y) \<and> wq_queue (y_q y) = [7] \<and> y_pushed y = y_done y @ y_got y @ [7]"
proof -
  obtain y :: "(nat, sched) wqs" where y: "wq_reach y" "\<not> wq_deleted (y_q y)" "wq_queue (y_q y) = [7]" using wq_demo_run by blast
  then show ?thesis using work_queue_no_lost_entries [OF y(1,2)] by (intro exI [of _ y]) simp
qed

theorem work_queue_bounds_witness:
  "\<exists>y :: (nat, sched) wqs. wq_reach y \<and> \<not> wq_deleted (y_q y) \<and> wq_bounded (y_q y) \<and> wq_queue (y_q y) = [7] \<and> 1 \<le> wq_size (y_q y) - 1"
proof -
  obtain y :: "(nat, sched) wqs" where y: "wq_reach y" "\<not> wq_deleted (y_q y)" "wq_bounded (y_q y)" "wq_queue (y_q y) = [7]"
    using wq_demo_run by blast
  then show ?thesis using work_queue_bounds [OF y(1,2)] by (intro exI [of _ y]) auto
qed

theorem schedule_shutdown_lost_witness:
  "\<exists>y y2 :: (nat, sched) wqs. wq_reach y \<and> wq_queue (y_q y) = [7] \<and> wq_steps\<^sup>*\<^sup>* y y2 \<and> wq_shutdown_scheduled (y_q y2) \<and>
     \<not> wq_deleted (y_q y2) \<and> wq_running (y_q y2)"
proof -
  obtain y :: "(nat, sched) wqs" where y: "wq_reach y" "wq_queue (y_q y) = [7]" "y_mine y = {0}" "y_pc y 0 = R_ret False"
    "\<not> wq_shutdown_scheduled (y_q y)" "seq_room (y_s y)" using wq_demo_run by blast
  from schedule_shutdown_lost [OF y(1) _ y(4-6), of True] y(3) obtain y1 y2 where s: "wq_steps y y1" "wq_steps y1 y2"
    and l: "\<forall>y3. wq_steps\<^sup>*\<^sup>* y2 y3 \<longrightarrow> wq_shutdown_scheduled (y_q y3) \<and> \<not> wq_deleted (y_q y3) \<and> wq_running (y_q y3)" by auto
  have "wq_steps\<^sup>*\<^sup>* y y2" using s by (meson converse_rtranclp_into_rtranclp rtranclp.rtrancl_refl)
  then show ?thesis using y(1,2) l by blast
qed

end
