(* ===== verification/Task_Trigger.thy ===== *)
theory Task_Trigger
  imports Task_Service
begin

text \<open>
  \<open>TaskTrigger\<close> of src/base/task_trigger.cc: a function that runs in a task after it has been
  triggered. The object and its operations, its interleaving with the scheduler as a transition
  system over the interface \<open>task_service\<close>, and what a call of \<open>Set\<close> achieves.
\<close>

section \<open>The object\<close>

record TaskTrigger =
  tr_task_id :: int
  tr_task_instance :: int
  tr_trigger :: bool
  tr_disabled :: bool
  tr_deferred :: bool

definition mk_TaskTrigger :: "int \<Rightarrow> int \<Rightarrow> TaskTrigger" where
  "mk_TaskTrigger task_id task_instance = \<lparr>tr_task_id = task_id, tr_task_instance = task_instance,
     tr_trigger = False, tr_disabled = False, tr_deferred = False\<rparr>"

definition delete_TaskTrigger :: "TaskTrigger \<Rightarrow> unit option" where
  "delete_TaskTrigger t = cpp_assert (\<not> tr_trigger t)"

text \<open>\<open>Set\<close>: the exchange of the flag, and then the new task when the flag was not set.\<close>

definition Set_store :: "TaskTrigger \<Rightarrow> bool \<times> TaskTrigger" where
  "Set_store t = (tr_trigger t, t\<lparr>tr_trigger := True\<rparr>)"

definition Set_enqueue :: "'s task_ops \<Rightarrow> task_ref \<Rightarrow> TaskTrigger \<Rightarrow> 's \<Rightarrow> 's option" where
  "Set_enqueue ops r t s = op_enqueue ops r (op_new ops r (tr_task_id t) (tr_task_instance t) s)"

definition trigger_Set :: "'s task_ops \<Rightarrow> task_ref \<Rightarrow> TaskTrigger \<Rightarrow> 's \<Rightarrow> (TaskTrigger \<times> 's) option" where
  "trigger_Set ops r t s = (case Set_store t of (current, t) \<Rightarrow>
     if \<not> current then do { s \<leftarrow> Set_enqueue ops r t s; Some (t, s) } else Some (t, s))"

definition Reset :: "TaskTrigger \<Rightarrow> TaskTrigger" where
  "Reset t = t\<lparr>tr_trigger := False\<rparr>"

definition trigger_set_disable :: "TaskTrigger \<Rightarrow> TaskTrigger option" where
  "trigger_set_disable t = do { _ \<leftarrow> cpp_assert (\<not> tr_disabled t); Some (t\<lparr>tr_disabled := True\<rparr>) }"

definition trigger_set_enable_store :: "TaskTrigger \<Rightarrow> TaskTrigger option" where
  "trigger_set_enable_store t = do { _ \<leftarrow> cpp_assert (tr_disabled t); Some (t\<lparr>tr_disabled := False\<rparr>) }"

definition trigger_set_enable :: "'s task_ops \<Rightarrow> task_ref \<Rightarrow> TaskTrigger \<Rightarrow> 's \<Rightarrow> (TaskTrigger \<times> 's) option" where
  "trigger_set_enable ops r t s = do { t \<leftarrow> trigger_set_enable_store t; trigger_Set ops r t s }"

definition trigger_set_deferred :: "TaskTrigger \<Rightarrow> TaskTrigger option" where
  "trigger_set_deferred t = do { _ \<leftarrow> cpp_assert (\<not> tr_deferred t); Some (t\<lparr>tr_deferred := True\<rparr>) }"

definition trigger_clear_deferred :: "TaskTrigger \<Rightarrow> TaskTrigger option" where
  "trigger_clear_deferred t = do { _ \<leftarrow> cpp_assert (tr_deferred t); Some (t\<lparr>tr_deferred := False\<rparr>) }"

text \<open>
  \<open>WorkerTask::Run\<close>, one access to the shared flags at a time: the test of \<open>disabled_\<close>, the test of
  \<open>deferred_\<close>, the call of \<open>func_\<close>, \<open>Reset\<close> and the return with a result. \<open>finished\<close> is what \<open>func_\<close> returns.
\<close>

datatype wpc = W_start | W_deferred | W_func | W_reset | W_ret bool

fun WorkerTask_Run :: "bool \<Rightarrow> wpc \<Rightarrow> TaskTrigger \<Rightarrow> wpc \<times> TaskTrigger" where
  "WorkerTask_Run finished W_start t = (if tr_disabled t then W_reset else W_deferred, t)"
| "WorkerTask_Run finished W_deferred t = (if tr_deferred t then W_ret False else W_func, t)"
| "WorkerTask_Run finished W_func t = (if finished then W_reset else W_ret False, t)"
| "WorkerTask_Run finished W_reset t = (W_ret True, Reset t)"
| "WorkerTask_Run finished (W_ret d) t = (W_ret d, t)"

section \<open>Threads\<close>

text \<open>
  \<open>x_setting\<close> threads are in \<open>Set\<close> between the exchange and the enqueue; \<open>x_mine\<close> are the tasks that
  exist and \<open>x_pc\<close> says where their \<open>Run\<close> is; \<open>x_calls\<close> counts the calls of \<open>func_\<close>.
\<close>

record 's trs =
  x_t :: TaskTrigger
  x_s :: 's
  x_setting :: nat
  x_mine :: "task_ref set"
  x_pc :: "task_ref \<Rightarrow> wpc"
  x_calls :: nat

text \<open>One step of the \<open>Run\<close> of the task \<open>r\<close>.\<close>

definition x_run :: "bool \<Rightarrow> task_ref \<Rightarrow> 's trs \<Rightarrow> 's trs" where
  "x_run finished r x = (case WorkerTask_Run finished (x_pc x r) (x_t x) of (p, t) \<Rightarrow>
     x\<lparr>x_t := t, x_pc := (x_pc x)(r := p), x_calls := (if x_pc x r = W_deferred \<and> p = W_func then Suc (x_calls x) else x_calls x)\<rparr>)"

inductive tr_step :: "'s task_ops \<Rightarrow> ('s \<Rightarrow> task_ref \<Rightarrow> tphase) \<Rightarrow> ('s \<Rightarrow> bool) \<Rightarrow> ('s \<Rightarrow> 's \<Rightarrow> bool) \<Rightarrow> 's trs \<Rightarrow> 's trs \<Rightarrow> bool"
  for ops phase room rest where
  store: "Set_store (x_t x) = (current, t) \<Longrightarrow>
    tr_step ops phase room rest x (x\<lparr>x_t := t, x_setting := (if current then x_setting x else Suc (x_setting x))\<rparr>)"
| enqueue: "x_setting x = Suc n \<Longrightarrow> room (x_s x) \<Longrightarrow> phase (x_s x) r = Gone \<Longrightarrow> Set_enqueue ops r (x_t x) (x_s x) = Some s \<Longrightarrow>
    tr_step ops phase room rest x (x\<lparr>x_s := s, x_setting := n, x_mine := insert r (x_mine x), x_pc := (x_pc x)(r := W_start)\<rparr>)"
| run: "r \<in> x_mine x \<Longrightarrow> phase (x_s x) r = Running c \<Longrightarrow> tr_step ops phase room rest x (x_run finished r x)"
| return: "r \<in> x_mine x \<Longrightarrow> x_pc x r = W_ret d \<Longrightarrow> room (x_s x) \<Longrightarrow> op_return ops r u d (x_s x) = Some s \<Longrightarrow>
    tr_step ops phase room rest x (x\<lparr>x_s := s, x_mine := (if d then x_mine x - {r} else x_mine x), x_pc := (x_pc x)(r := W_start)\<rparr>)"
| flags: "Some t \<in> {trigger_set_disable (x_t x), trigger_set_enable_store (x_t x), trigger_set_deferred (x_t x), trigger_clear_deferred (x_t x)} \<Longrightarrow>
    tr_step ops phase room rest x (x\<lparr>x_t := t\<rparr>)"
| rest: "rest (x_s x) s \<Longrightarrow> spares (x_mine x) (phase (x_s x)) (phase s) \<Longrightarrow> tr_step ops phase room rest x (x\<lparr>x_s := s\<rparr>)"

text \<open>The tasks that have not cleared the trigger yet.\<close>

definition x_live :: "'s trs \<Rightarrow> task_ref set" where
  "x_live x = {r \<in> x_mine x. x_pc x r \<noteq> W_ret True}"

text \<open>While the trigger is set there is one thread or one task that will serve it, and otherwise there is none.\<close>

definition served :: "'s trs \<Rightarrow> bool" where
  "served x = (if tr_trigger (x_t x) then x_setting x = 1 \<and> x_live x = {} \<or> x_setting x = 0 \<and> (\<exists>r. x_live x = {r})
     else x_setting x = 0 \<and> x_live x = {})"

definition trigger_ok :: "('s \<Rightarrow> task_ref \<Rightarrow> tphase) \<Rightarrow> ('s \<Rightarrow> bool) \<Rightarrow> 's trs \<Rightarrow> bool" where
  "trigger_ok phase ok x = (ok (x_s x) \<and> 0 \<le> tr_task_id (x_t x) \<and> (tr_task_instance (x_t x) = -1 \<or> 0 \<le> tr_task_instance (x_t x)) \<and>
     (\<forall>r \<in> x_mine x. phase (x_s x) r = Waiting \<and> x_pc x r = W_start \<or> phase (x_s x) r = Running False) \<and> served x)"

lemma trigger_okD:
  assumes "trigger_ok phase ok x"
  shows "ok (x_s x)" "0 \<le> tr_task_id (x_t x)" "tr_task_instance (x_t x) = -1 \<or> 0 \<le> tr_task_instance (x_t x)"
    "r \<in> x_mine x \<Longrightarrow> phase (x_s x) r = Waiting \<and> x_pc x r = W_start \<or> phase (x_s x) r = Running False" "served x"
  using assms by (auto simp: trigger_ok_def)

lemma served_same:
  assumes "served x" "x_live x' = x_live x" "x_setting x' = x_setting x" "tr_trigger (x_t x') = tr_trigger (x_t x)"
  shows "served x'"
  using assms(1) unfolding served_def assms(2-4) .

lemma flags_same:
  assumes "Some t' \<in> {trigger_set_disable t, trigger_set_enable_store t, trigger_set_deferred t, trigger_clear_deferred t}"
  shows "tr_task_id t' = tr_task_id t" "tr_task_instance t' = tr_task_instance t" "tr_trigger t' = tr_trigger t"
  using assms by (auto simp: trigger_set_disable_def trigger_set_enable_store_def trigger_set_deferred_def trigger_clear_deferred_def cpp_assert_def split: if_splits)

text \<open>One step of a task's \<open>Run\<close>.\<close>

lemma Run_same:
  assumes "WorkerTask_Run d p t = (p', t')"
  shows "tr_task_id t' = tr_task_id t" "tr_task_instance t' = tr_task_instance t"
    "p' = W_ret True \<longleftrightarrow> p = W_reset \<or> p = W_ret True" "tr_trigger t' = (tr_trigger t \<and> p \<noteq> W_reset)"
  using assms by (cases p; auto simp: Reset_def split: if_splits)+

lemma x_run_eq:
  obtains p t where "WorkerTask_Run d (x_pc x r) (x_t x) = (p, t)" "x_run d r x = x\<lparr>x_t := t, x_pc := (x_pc x)(r := p),
      x_calls := (if x_pc x r = W_deferred \<and> p = W_func then Suc (x_calls x) else x_calls x)\<rparr>"
  by (cases "WorkerTask_Run d (x_pc x r) (x_t x)") (simp add: x_run_def)

context task_service
begin

lemma Set_enqueue_effect:
  assumes "trigger_ok phase ok x" "room (x_s x)" "phase (x_s x) r = Gone"
  shows "\<exists>s. Set_enqueue ops r (x_t x) (x_s x) = Some s \<and> ok s \<and>
    (phase s = (phase (x_s x))(r := Waiting) \<or> phase s = (phase (x_s x))(r := Running False))"
  using start_ok [OF trigger_okD(1) [OF assms(1)] assms(2,3) trigger_okD(2,3) [OF assms(1)]] by (simp add: Set_enqueue_def)

lemma tr_step_ok:
  assumes st: "tr_step ops phase room rest x x'" and ok: "trigger_ok phase ok x"
  shows "trigger_ok phase ok x'"
  using st
proof cases
  case (store current t)
  then show ?thesis using ok by (auto simp: trigger_ok_def served_def x_live_def Set_store_def)
next
  case (enqueue n r s)
  have new: "r \<notin> x_mine x" using trigger_okD(4) [OF ok, of r] enqueue(4) by auto
  have "tr_trigger (x_t x)" "n = 0" "x_live x = {}" using trigger_okD(5) [OF ok] enqueue(2) by (auto simp: served_def split: if_splits)
  moreover from this have "x_live x' = {r}" using new by (auto simp: enqueue(1) x_live_def)
  ultimately have "served x'" by (simp add: served_def enqueue(1))
  moreover have "ok s" "phase s = (phase (x_s x))(r := Waiting) \<or> phase s = (phase (x_s x))(r := Running False)"
    using Set_enqueue_effect [OF ok enqueue(3,4)] enqueue(5) by auto
  ultimately show ?thesis using ok new by (auto simp: trigger_ok_def enqueue(1))
next
  case (run r c d)
  obtain p t where w: "WorkerTask_Run d (x_pc x r) (x_t x) = (p, t)" and x': "x' = x\<lparr>x_t := t, x_pc := (x_pc x)(r := p),
      x_calls := (if x_pc x r = W_deferred \<and> p = W_func then Suc (x_calls x) else x_calls x)\<rparr>"
    unfolding run(1) by (rule x_run_eq)
  note e = Run_same [OF w]
  have c: "phase (x_s x) r = Running False" using trigger_okD(4) [OF ok run(2)] run(3) by simp
  have "served x'"
  proof (cases "x_pc x r = W_reset")
    case True
    then have "r \<in> x_live x" using run(2) by (simp add: x_live_def)
    then have l: "x_live x = {r}" "x_setting x = 0" using trigger_okD(5) [OF ok] by (auto simp: served_def split: if_splits)
    then have "x_live x' = {}" using e(3) True by (auto simp: x' x_live_def)
    then show ?thesis using l(2) e(4) True by (simp add: served_def x')
  next
    case False
    then have "x_live x' = x_live x" using e(3) by (auto simp: x' x_live_def)
    then show ?thesis using e(4) False by (intro served_same [OF trigger_okD(5) [OF ok]]) (simp_all add: x')
  qed
  then show ?thesis using ok c e(1,2) by (auto simp: trigger_ok_def x')
next
  case (return r d u s)
  have c: "phase (x_s x) r = Running False" using trigger_okD(4) [OF ok return(2)] return(3) by simp
  from return_ok [OF trigger_okD(1) [OF ok] return(4) c, of u d] return(5)
  have s: "ok s" "spares (- {r}) (phase (x_s x)) (phase s)" "\<not> d \<Longrightarrow> phase s r = Waiting \<or> phase s r = Running False" by auto
  have "x_live x' = x_live x" using return(2,3) by (auto simp: return(1) x_live_def)
  then have "served x'" by (intro served_same [OF trigger_okD(5) [OF ok]]) (simp_all add: return(1))
  moreover have "phase s q = Waiting \<and> x_pc x q = W_start \<or> phase s q = Running False" if "q \<in> x_mine x" "q \<noteq> r" for q
    using trigger_okD(4) [OF ok that(1)] sparesD [OF s(2), of q] that(2) by auto
  ultimately show ?thesis using ok s by (auto simp: trigger_ok_def return(1))
next
  case (flags t)
  have "served x'" by (rule served_same [OF trigger_okD(5) [OF ok]]) (simp_all add: flags(1) x_live_def flags_same [OF flags(2)])
  then show ?thesis using ok flags_same [OF flags(2)] by (simp add: trigger_ok_def flags(1))
next
  case (rest s)
  have "phase s q = Waiting \<and> x_pc x q = W_start \<or> phase s q = Running False" if "q \<in> x_mine x" for q
    using trigger_okD(4) [OF ok that] sparesD [OF rest(3) that] by auto
  moreover have "served x'" by (rule served_same [OF trigger_okD(5) [OF ok]]) (simp_all add: rest(1) x_live_def)
  ultimately show ?thesis using ok rest_ok [OF trigger_okD(1) [OF ok] rest(2)] by (simp add: trigger_ok_def rest(1))
qed

end
section \<open>What a call of Set achieves\<close>

definition tr_init :: "sched trs \<Rightarrow> bool" where
  "tr_init x = (reachable ((=) mk_TaskScheduler) sched_step (x_s x) \<and>
     (\<exists>i n. 0 \<le> i \<and> (n = -1 \<or> 0 \<le> n) \<and> x_t x = mk_TaskTrigger i n) \<and> x_setting x = 0 \<and> x_mine x = {} \<and> x_calls x = 0)"

abbreviation tr_steps :: "sched trs \<Rightarrow> sched trs \<Rightarrow> bool" where
  "tr_steps \<equiv> tr_step TaskScheduler phase_of seq_room sched_step"

abbreviation tr_reach :: "sched trs \<Rightarrow> bool" where
  "tr_reach \<equiv> reachable tr_init tr_steps"

lemma tr_init_ok:
  assumes "tr_init x"
  shows "trigger_ok phase_of svc_ok x"
  using assms service.holds by (auto simp: tr_init_def trigger_ok_def served_def x_live_def mk_TaskTrigger_def)

interpretation tri: invariant tr_init tr_steps "trigger_ok phase_of svc_ok"
  by unfold_locales (use tr_init_ok svc.tr_step_ok in auto)

text \<open>A task that has not begun to run the function.\<close>

definition unbegun :: "'s trs \<Rightarrow> bool" where
  "unbegun x = (\<forall>r \<in> x_live x. x_pc x r \<noteq> W_func \<and> x_pc x r \<noteq> W_reset)"

text \<open>
  While the trigger is enabled, a step leaves a set trigger set and its task before the call of
  the function, or makes the call.
\<close>

lemma calls_mono: "tr_step ops phase room rest x x' \<Longrightarrow> x_calls x \<le> x_calls x'"
  by (erule tr_step.cases) (auto simp: x_run_def split: prod.splits)

lemma unbegun_step:
  assumes st: "tr_step ops phase room rest x x'" and x: "tr_trigger (x_t x)" "unbegun x" "\<not> tr_disabled (x_t x)"
  shows "x_calls x < x_calls x' \<or> tr_trigger (x_t x') \<and> unbegun x'"
  using st
proof cases
  case (run r c d)
  show ?thesis
  proof (cases "r \<in> x_live x")
    case True
    then show ?thesis using x by (cases "x_pc x r") (auto simp: run(1) x_run_def unbegun_def x_live_def split: if_splits)
  next
    case False
    then have "x_pc x r = W_ret True" using run(2) by (simp add: x_live_def)
    then show ?thesis using x by (auto simp: run(1) x_run_def unbegun_def x_live_def)
  qed
next
  case (flags t)
  then show ?thesis using x flags_same(3) [OF flags(2)] by (simp add: unbegun_def x_live_def)
qed (use x in \<open>auto simp: Set_store_def unbegun_def x_live_def split: if_splits\<close>)

lemma unbegun_steps:
  assumes "(\<lambda>a b. tr_steps a b \<and> \<not> tr_disabled (x_t b))\<^sup>*\<^sup>* x x'" "trigger_ok phase_of svc_ok x"
    "tr_trigger (x_t x)" "unbegun x" "\<not> tr_disabled (x_t x)"
  shows "trigger_ok phase_of svc_ok x' \<and> \<not> tr_disabled (x_t x') \<and> x_calls x \<le> x_calls x' \<and> (x_calls x < x_calls x' \<or> tr_trigger (x_t x') \<and> unbegun x')"
  using assms(1)
proof (induction rule: rtranclp_induct)
  case base
  show ?case using assms by simp
next
  case (step y z)
  then have st: "tr_steps y z" "\<not> tr_disabled (x_t z)" and y: "trigger_ok phase_of svc_ok y" "\<not> tr_disabled (x_t y)" "x_calls x \<le> x_calls y"
    "x_calls x < x_calls y \<or> tr_trigger (x_t y) \<and> unbegun y" by blast+
  show ?case using svc.tr_step_ok [OF st(1) y(1)] calls_mono [OF st(1)] unbegun_step [OF st(1) _ _ y(2)] st(2) y(3,4) by linarith
qed

text \<open>What the task that serves the trigger does: an enqueue is possible, a return of false keeps it, and its next steps make the call.\<close>

lemma x_run_calls:
  assumes "\<not> tr_disabled (x_t x)" "\<not> tr_deferred (x_t x)" "x_pc x r = W_start \<or> x_pc x r = W_deferred"
  shows "\<exists>n \<le> 2. x_calls ((x_run d r ^^ n) x) = Suc (x_calls x)"
proof (cases "x_pc x r = W_deferred")
  case True
  then show ?thesis using assms(2) by (intro exI [of _ 1]) (simp add: x_run_def)
next
  case False
  then show ?thesis using assms by (intro exI [of _ 2]) (simp add: x_run_def numeral_2_eq_2)
qed

text \<open>
  C19. A call of \<open>Set\<close> made while no task of the trigger has begun to run its function is served, as long as the
  trigger is not disabled. Until the function has been called after it, the trigger stays set, and either a
  thread is about to enqueue the task, which then waits or runs, or there is a task that waits to run
  from the beginning, or one that runs. While it is not deferred, a task that runs calls the function within
  two steps of its own, unless it was deferred before and is about to return false: then the
  return makes it wait or run again.
\<close>

theorem trigger_set_served:
  assumes "tr_reach x" "unbegun x" "\<not> tr_disabled (x_t x)" "Set_store (x_t x) = (current, t)"
    "(\<lambda>a b. tr_steps a b \<and> \<not> tr_disabled (x_t b))\<^sup>*\<^sup>*
       (x\<lparr>x_t := t, x_setting := (if current then x_setting x else Suc (x_setting x))\<rparr>) x'"
  shows "x_calls x < x_calls x' \<or> tr_trigger (x_t x') \<and>
    (x_setting x' = 1 \<and> (\<forall>r. seq_room (x_s x') \<longrightarrow> phase_of (x_s x') r = Gone \<longrightarrow>
       (\<exists>s. Set_enqueue TaskScheduler r (x_t x') (x_s x') = Some s \<and> (phase_of s r = Waiting \<or> phase_of s r = Running False))) \<or>
     (\<exists>r \<in> x_mine x'. phase_of (x_s x') r = Waiting \<and> x_pc x' r = W_start \<or>
       phase_of (x_s x') r = Running False \<and>
        (if x_pc x' r = W_ret False then \<forall>u. seq_room (x_s x') \<longrightarrow>
           (\<exists>s. op_return TaskScheduler r u False (x_s x') = Some s \<and> (phase_of s r = Waiting \<or> phase_of s r = Running False))
         else \<not> tr_deferred (x_t x') \<longrightarrow> (\<forall>finished. \<exists>n \<le> 2. x_calls ((x_run finished r ^^ n) x') = Suc (x_calls x')))))"
proof -
  define x1 where "x1 = x\<lparr>x_t := t, x_setting := (if current then x_setting x else Suc (x_setting x))\<rparr>"
  have st: "tr_steps x x1" unfolding x1_def by (rule tr_step.store [OF assms(4)])
  have x1: "tr_trigger (x_t x1)" "unbegun x1" "\<not> tr_disabled (x_t x1)" "x_calls x1 = x_calls x"
    using assms(2-4) by (auto simp: x1_def Set_store_def unbegun_def x_live_def)
  have ok1: "trigger_ok phase_of svc_ok x1" using tri.holds [OF later [OF assms(1) st]] .
  from unbegun_steps [OF assms(5) [folded x1_def] ok1 x1(1-3)]
  have ok: "trigger_ok phase_of svc_ok x'" and en: "\<not> tr_disabled (x_t x')"
    and c: "x_calls x < x_calls x' \<or> tr_trigger (x_t x') \<and> unbegun x'" by (simp_all add: x1(4))
  from c show ?thesis
  proof
    assume t: "tr_trigger (x_t x') \<and> unbegun x'"
    show ?thesis
    proof (cases "x_setting x' = 1")
      case True
      have "\<exists>s. Set_enqueue TaskScheduler r (x_t x') (x_s x') = Some s \<and> (phase_of s r = Waiting \<or> phase_of s r = Running False)"
        if "seq_room (x_s x')" "phase_of (x_s x') r = Gone" for r using svc.Set_enqueue_effect [OF ok that] by auto
      then show ?thesis using True t by blast
    next
      case False
      then obtain r where "x_live x' = {r}" using trigger_okD(5) [OF ok] t by (auto simp: served_def)
      then have r: "r \<in> x_live x'" "r \<in> x_mine x'" by (auto simp: x_live_def)
      then have pc: "x_pc x' r = W_ret False \<or> x_pc x' r = W_start \<or> x_pc x' r = W_deferred"
        using t by (cases "x_pc x' r") (auto simp: unbegun_def x_live_def)
      have "\<exists>s. op_return TaskScheduler r u False (x_s x') = Some s \<and> (phase_of s r = Waiting \<or> phase_of s r = Running False)"
        if "phase_of (x_s x') r = Running False" "seq_room (x_s x')" for u
        using svc.return_ok [OF trigger_okD(1) [OF ok] that(2,1), of u False] by auto
      moreover have "\<exists>n \<le> 2. x_calls ((x_run d r ^^ n) x') = Suc (x_calls x')" if "x_pc x' r \<noteq> W_ret False" "\<not> tr_deferred (x_t x')" for d
        using x_run_calls [OF en that(2)] pc that(1) by blast
      ultimately have "phase_of (x_s x') r = Waiting \<and> x_pc x' r = W_start \<or> phase_of (x_s x') r = Running False \<and>
        (if x_pc x' r = W_ret False then \<forall>u. seq_room (x_s x') \<longrightarrow>
           (\<exists>s. op_return TaskScheduler r u False (x_s x') = Some s \<and> (phase_of s r = Waiting \<or> phase_of s r = Running False))
         else \<not> tr_deferred (x_t x') \<longrightarrow> (\<forall>finished. \<exists>n \<le> 2. x_calls ((x_run finished r ^^ n) x') = Suc (x_calls x')))"
        using trigger_okD(4) [OF ok r(2)] by auto
      with r(2) t show ?thesis by blast
    qed
  qed simp
qed

lemma idle_step:
  assumes st: "tr_step ops phase room rest x x'" and x: "served x" "\<not> tr_trigger (x_t x)"
  shows "x_calls x' = x_calls x"
  using st
proof cases
  case (run r c d)
  have "x_pc x r = W_ret True" using run(2) x by (auto simp: served_def x_live_def)
  then show ?thesis by (simp add: run(1) x_run_def)
qed auto

text \<open>
  C20. A call of \<open>Set\<close> can be lost. Once the function has returned true and until the task has called \<open>Reset\<close>, \<open>Set\<close>
  finds the trigger set and creates no task; then \<open>Reset\<close> clears the trigger and the task ends. The function
  is not called again before another thread calls \<open>Set\<close> once more.
\<close>

theorem trigger_set_lost:
  assumes "tr_reach x" "r \<in> x_mine x" "x_pc x r = W_reset" "seq_room (x_s x)"
  shows "Set_store (x_t x) = (True, x_t x) \<and> (\<exists>x1 x2. tr_steps x x1 \<and> tr_steps x1 x2 \<and> \<not> tr_trigger (x_t x2) \<and>
    phase_of (x_s x2) r = Gone \<and>
    (\<forall>x3. (\<lambda>a b. tr_steps a b \<and> \<not> tr_trigger (x_t b))\<^sup>*\<^sup>* x2 x3 \<longrightarrow> x_calls x3 = x_calls x))"
proof -
  have ok: "trigger_ok phase_of svc_ok x" by (rule tri.holds [OF assms(1)])
  have "r \<in> x_live x" using assms(2,3) by (simp add: x_live_def)
  then have t: "tr_trigger (x_t x)" using trigger_okD(5) [OF ok] by (auto simp: served_def split: if_splits)
  have p: "phase_of (x_s x) r = Running False" using trigger_okD(4) [OF ok assms(2)] assms(3) by simp
  define x1 where "x1 = x\<lparr>x_t := Reset (x_t x), x_pc := (x_pc x)(r := W_ret True), x_calls := x_calls x\<rparr>"
  have s1: "tr_steps x x1" using tr_step.run [OF assms(2), of phase_of False _ _ _ False] p assms(3) by (simp add: x1_def x_run_def)
  have ok1: "trigger_ok phase_of svc_ok x1" by (rule svc.tr_step_ok [OF s1 ok])
  obtain s where s: "op_return TaskScheduler r 0 True (x_s x1) = Some s" "phase_of s r = Gone"
    using svc.return_ok [OF trigger_okD(1) [OF ok1], of r False 0 True] assms(4) p by (auto simp: x1_def)
  define x2 where "x2 = x1\<lparr>x_s := s, x_mine := x_mine x1 - {r}, x_pc := (x_pc x1)(r := W_start)\<rparr>"
  have s2: "tr_steps x1 x2"
    using tr_step.return [of r x1 True seq_room TaskScheduler 0 s phase_of sched_step] assms(2,4) s(1) by (simp add: x1_def x2_def)
  have ok2: "trigger_ok phase_of svc_ok x2" by (rule svc.tr_step_ok [OF s2 ok1])
  have c2: "\<not> tr_trigger (x_t x2)" "x_calls x2 = x_calls x" by (simp_all add: x2_def x1_def Reset_def)
  have "trigger_ok phase_of svc_ok x3 \<and> \<not> tr_trigger (x_t x3) \<and> x_calls x3 = x_calls x"
    if "(\<lambda>a b. tr_steps a b \<and> \<not> tr_trigger (x_t b))\<^sup>*\<^sup>* x2 x3" for x3
    using that
  proof (induction rule: rtranclp_induct)
    case (step y z)
    then have st: "tr_steps y z" "\<not> tr_trigger (x_t z)" and y: "trigger_ok phase_of svc_ok y" "\<not> tr_trigger (x_t y)" "x_calls y = x_calls x" by blast+
    show ?case using svc.tr_step_ok [OF st(1) y(1)] idle_step [OF st(1) trigger_okD(5) [OF y(1)] y(2)] st(2) y(3) by simp
  qed (use ok2 c2 in simp)
  moreover have "phase_of (x_s x2) r = Gone" using s(2) by (simp add: x2_def)
  ultimately show ?thesis using t s1 s2 c2 by (auto simp: Set_store_def)
qed

section \<open>A run of the trigger\<close>

text \<open>The first \<open>Set\<close> of a new trigger starts the task at once, which calls the function.\<close>

definition tr_demo :: "sched trs" where
  "tr_demo = \<lparr>x_t = mk_TaskTrigger 1 0, x_s = mk_TaskScheduler, x_setting = 0, x_mine = {}, x_pc = (\<lambda>_. W_start), x_calls = 0\<rparr>"

lemma tr_demo_init: "tr_reach tr_demo"
  by (rule initial, unfold tr_init_def tr_demo_def)
    (intro conjI exI [of _ 1] exI [of _ 0], simp_all add: reachable.initial)

lemma tr_demo_run:
  "\<exists>x. tr_reach x \<and> x_mine x = {0} \<and> x_pc x 0 = W_reset \<and> seq_room (x_s x) \<and> x_calls x = 1"
proof -
  define x1 where "x1 = tr_demo\<lparr>x_t := (x_t tr_demo)\<lparr>tr_trigger := True\<rparr>, x_setting := 1\<rparr>"
  have "tr_steps tr_demo x1" using tr_step.store [of tr_demo False "(x_t tr_demo)\<lparr>tr_trigger := True\<rparr>" TaskScheduler phase_of seq_room sched_step]
    by (simp add: x1_def Set_store_def tr_demo_def mk_TaskTrigger_def)
  then have r1: "tr_reach x1" by (rule later [OF tr_demo_init])
  obtain s where s: "Enqueue 0 (new_Task 0 1 0 mk_TaskScheduler) = Some s" "phase_of s = (\<lambda>_. Gone)(0 := Running False)" "seq_room s"
    using first_runs [of 1 0 0] by auto
  define x2 where "x2 = x1\<lparr>x_s := s, x_setting := 0, x_mine := {0}, x_pc := (x_pc x1)(0 := W_start)\<rparr>"
  have "tr_steps x1 (x1\<lparr>x_s := s, x_setting := 0, x_mine := insert 0 (x_mine x1), x_pc := (x_pc x1)(0 := W_start)\<rparr>)"
    by (rule tr_step.enqueue) (use s(1) in \<open>simp_all add: x1_def tr_demo_def mk_TaskTrigger_def Set_enqueue_def TaskScheduler_def
      phase_of_def seq_room_def mk_TaskScheduler_def\<close>)
  then have r2: "tr_reach x2" using later [OF r1] by (simp add: x2_def x1_def tr_demo_def)
  have run: "tr_steps x (x\<lparr>x_t := x_t x2, x_pc := (x_pc x)(0 := p),
      x_calls := (if x_pc x 0 = W_deferred \<and> p = W_func then Suc (x_calls x) else x_calls x)\<rparr>)"
    if "x_mine x = {0}" "x_s x = s" "x_t x = x_t x2" "WorkerTask_Run True (x_pc x 0) (x_t x2) = (p, x_t x2)" for x p
    using tr_step.run [of 0 x phase_of False TaskScheduler seq_room sched_step True] that s(2) by (simp add: x_run_def)
  have t: "\<not> tr_disabled (x_t x2)" "\<not> tr_deferred (x_t x2)" "x_s x2 = s" "x_mine x2 = {0}" "x_pc x2 0 = W_start" "x_calls x2 = 0"
    by (simp_all add: x2_def x1_def tr_demo_def mk_TaskTrigger_def)
  define x3 where "x3 = x2\<lparr>x_pc := (x_pc x2)(0 := W_deferred), x_calls := 0\<rparr>"
  have r3: "tr_reach x3" using later [OF r2 run [of x2 W_deferred]] t by (simp add: x3_def)
  define x4 where "x4 = x3\<lparr>x_pc := (x_pc x3)(0 := W_func), x_calls := 1\<rparr>"
  have r4: "tr_reach x4" using later [OF r3 run [of x3 W_func]] t by (simp add: x3_def x4_def)
  define x5 where "x5 = x4\<lparr>x_pc := (x_pc x4)(0 := W_reset), x_calls := 1\<rparr>"
  have "tr_reach x5" using later [OF r4 run [of x4 W_reset]] t by (simp add: x3_def x4_def x5_def)
  then show ?thesis using t s(3) by (intro exI [of _ x5]) (simp add: x5_def x4_def x3_def)
qed

theorem trigger_set_served_witness:
  "\<exists>x'. tr_steps tr_demo x' \<and> tr_trigger (x_t x') \<and> x_calls x' = 0 \<and> x_setting x' = 1"
proof -
  define t where "t = (x_t tr_demo)\<lparr>tr_trigger := True\<rparr>"
  have t: "Set_store (x_t tr_demo) = (False, t)" by (simp add: t_def Set_store_def tr_demo_def mk_TaskTrigger_def)
  define x' where "x' = tr_demo\<lparr>x_t := t, x_setting := (if False then x_setting tr_demo else Suc (x_setting tr_demo))\<rparr>"
  have st: "tr_steps tr_demo x'" unfolding x'_def by (rule tr_step.store [OF t])
  have u: "unbegun tr_demo" "\<not> tr_disabled (x_t tr_demo)" by (simp_all add: unbegun_def x_live_def tr_demo_def mk_TaskTrigger_def)
  have c: "x_calls tr_demo = 0" "x_calls x' = 0" "x_mine x' = {}" by (simp_all add: x'_def tr_demo_def)
  from trigger_set_served [OF tr_demo_init u t, of x', folded x'_def] c have "tr_trigger (x_t x') \<and> x_setting x' = 1" by simp
  then show ?thesis using st c(2) by blast
qed

theorem trigger_set_lost_witness:
  "\<exists>x x2. tr_reach x \<and> x_calls x = 1 \<and> Set_store (x_t x) = (True, x_t x) \<and> tr_steps\<^sup>*\<^sup>* x x2 \<and> \<not> tr_trigger (x_t x2) \<and> x_calls x2 = 1"
proof -
  obtain x where x: "tr_reach x" "x_mine x = {0}" "x_pc x 0 = W_reset" "seq_room (x_s x)" "x_calls x = 1" using tr_demo_run by blast
  from trigger_set_lost [OF x(1) _ x(3,4)] x(2) obtain x1 x2 where s: "Set_store (x_t x) = (True, x_t x)" "tr_steps x x1" "tr_steps x1 x2"
    "\<not> tr_trigger (x_t x2)" "\<forall>x3. (\<lambda>a b. tr_steps a b \<and> \<not> tr_trigger (x_t b))\<^sup>*\<^sup>* x2 x3 \<longrightarrow> x_calls x3 = x_calls x" by auto
  moreover have "tr_steps\<^sup>*\<^sup>* x x2" by (rule rtranclp.rtrancl_into_rtrancl [of tr_steps, OF r_into_rtranclp [of tr_steps, OF s(2)] s(3)])
  moreover have "x_calls x2 = 1" using s(5) x(5) by simp
  ultimately show ?thesis using x(1,5) by blast
qed

end
