(* ===== verification/Task_Timer.thy ===== *)
theory Task_Timer
  imports Task_Service
begin

text \<open>
  \<open>Timer\<close>, its \<open>TimerTask\<close> and \<open>TimerManager\<close> of src/base/timer.cc. The object and its operations; the interleaving of
  the application's threads, the completions of ASIO, the tasks and the scheduler as a transition system over
  the interface \<open>task_service\<close>; and what starting and cancelling a timer achieve. The ASIO timer is not part of the
  repository: whether \<open>expires_from_now\<close> fails and with which code a wait completes are arguments.
\<close>

section \<open>The object\<close>

datatype TimerState = Timer_Init | Timer_Running | Timer_Fired | Timer_Cancelled

text \<open>
  An error code of ASIO. Handlers are numbers; an empty one is \<open>None\<close>.
\<close>

datatype error_code = Success | Operation_aborted | Other_error

record Timer =
  tm_handler :: "nat option"
  tm_error_handler :: "nat option"
  tm_state :: TimerState
  tm_timer_task :: "task_ref option"
  tm_time :: int
  tm_task_id :: int
  tm_task_instance :: int
  tm_seq_no :: nat
  tm_delete_on_completion :: bool

definition mk_Timer :: "int \<Rightarrow> int \<Rightarrow> bool \<Rightarrow> Timer" where
  "mk_Timer task_id task_instance delete_on_completion = \<lparr>tm_handler = None, tm_error_handler = None, tm_state = Timer_Init,
     tm_timer_task = None, tm_time = 0, tm_task_id = task_id, tm_task_instance = task_instance, tm_seq_no = 0,
     tm_delete_on_completion = delete_on_completion\<rparr>"

definition delete_Timer :: "Timer \<Rightarrow> unit option" where
  "delete_Timer t = cpp_assert (tm_state t \<noteq> Timer_Running \<and> tm_state t \<noteq> Timer_Fired)"

definition fired :: "Timer \<Rightarrow> bool" where
  "fired t = (tm_state t = Timer_Fired)"

text \<open>
  \<open>Start\<close> returns its result, the timer, and the arguments that are bound to the wait, if it starts one.
  \<open>ec\<close> is the error of \<open>expires_from_now\<close>.
\<close>

definition Timer_Start :: "bool \<Rightarrow> int \<Rightarrow> nat option \<Rightarrow> nat option \<Rightarrow> Timer \<Rightarrow> bool \<times> Timer \<times> (int \<times> nat) option" where
  "Timer_Start ec time handler error_handler t =
     (if time < 0 then (True, t, None)
      else if tm_state t = Timer_Running \<or> tm_state t = Timer_Fired then (True, t, None)
      else let t = t\<lparr>tm_time := time, tm_handler := handler, tm_seq_no := u32 (tm_seq_no t + 1), tm_error_handler := error_handler\<rparr>
        in if ec then (False, t, None) else (True, t\<lparr>tm_state := Timer_Running\<rparr>, Some (time, tm_seq_no t)))"

definition Reschedule :: "int \<Rightarrow> Timer \<Rightarrow> bool \<times> Timer" where
  "Reschedule time t =
     (if tm_state t \<noteq> Timer_Fired then (False, t)
      else if time < 0 then (False, t)
      else (True, t\<lparr>tm_time := time\<rparr>))"

definition Timer_Cancel :: "'s task_ops \<Rightarrow> Timer \<Rightarrow> 's \<Rightarrow> (bool \<times> Timer \<times> 's) option" where
  "Timer_Cancel ops t s =
     (if tm_state t = Timer_Fired then Some (False, t, s)
      else do {
        (t, s) \<leftarrow> (case tm_timer_task t of
          None \<Rightarrow> Some (t, s)
        | Some r \<Rightarrow> do {
            (rc, s) \<leftarrow> op_cancel ops r s;
            _ \<leftarrow> cpp_assert (rc \<noteq> FAILED);
            Some (t\<lparr>tm_timer_task := None\<rparr>, s) });
        Some (True, t\<lparr>tm_state := Timer_Cancelled\<rparr>, s) })"

text \<open>\<open>Fire\<close>, which exists for tests only: the handler that is called, and the timer.\<close>

definition Fire :: "Timer \<Rightarrow> nat option \<times> Timer" where
  "Fire t = (if tm_handler t \<noteq> None then (tm_handler t, t\<lparr>tm_state := Timer_Init\<rparr>) else (None, t))"

text \<open>A task of the timer: whether \<open>timer_\<close> is set, and \<open>ec_\<close>.\<close>

record TimerTask =
  tt_timer :: bool
  tt_ec :: error_code

text \<open>
  The completion of a wait with the arguments bound to it. \<open>r\<close> is the address of the task, if one is
  created, which holds a reference to the timer.
\<close>

definition StartTimerTask :: "'s task_ops \<Rightarrow> task_ref \<Rightarrow> int \<Rightarrow> nat \<Rightarrow> error_code \<Rightarrow> Timer \<Rightarrow> 's \<Rightarrow> (TimerTask option \<times> Timer \<times> 's) option" where
  "StartTimerTask ops r time seq_no ec t s =
     (if tm_state t = Timer_Cancelled then Some (None, t, s)
      else if ec = Operation_aborted then Some (None, t, s)
      else if tm_seq_no t \<noteq> seq_no then Some (None, t, s)
      else do {
        _ \<leftarrow> cpp_assert (tm_timer_task t = None);
        s \<leftarrow> op_enqueue ops r (op_new ops r (tm_task_id t) (tm_task_instance t) s);
        Some (Some \<lparr>tt_timer = True, tt_ec = ec\<rparr>, t\<lparr>tm_timer_task := Some r\<rparr>, s) })"

text \<open>
  \<open>TimerTask::Run\<close>: its first block under the mutex, with the flag \<open>task_cancelled()\<close>; the handler it
  calls; \<open>OnTaskCancel\<close>, which the scheduler also calls for a cancelled task.
\<close>

definition Run_begin :: "bool \<Rightarrow> TimerTask \<Rightarrow> Timer \<Rightarrow> bool \<times> TimerTask \<times> Timer" where
  "Run_begin task_cancelled tt t =
     (if task_cancelled then (False, tt\<lparr>tt_timer := False\<rparr>, t)
      else (True, tt, t\<lparr>tm_state := Timer_Fired\<rparr>))"

definition Run_handler :: "TimerTask \<Rightarrow> Timer \<Rightarrow> bool \<times> nat option" where
  "Run_handler tt t =
     (if tt_ec tt \<noteq> Success \<and> tm_error_handler t \<noteq> None then (True, tm_error_handler t) else (False, tm_handler t))"

definition OnTaskCancel :: "task_ref \<Rightarrow> TimerTask \<Rightarrow> Timer \<Rightarrow> Timer option" where
  "OnTaskCancel r tt t =
     (if \<not> tt_timer tt then Some t
      else do {
        _ \<leftarrow> (if tm_timer_task t \<noteq> Some r then cpp_assert (tm_timer_task t = None) else Some ());
        Some (t\<lparr>tm_timer_task := None, tm_state := Timer_Init\<rparr>) })"

text \<open>
  \<open>TimerManager::DeleteTimer\<close> in the order of its locked parts: the test of \<open>fired\<close>, \<open>Cancel\<close> and what follows from
  its result, and the removal of the reference held in \<open>timer_ref_\<close>.
\<close>

datatype dpc = D_cancel | D_erase | D_ret bool

fun DeleteTimer :: "'s task_ops \<Rightarrow> dpc \<Rightarrow> Timer \<Rightarrow> 's \<Rightarrow> (dpc \<times> Timer \<times> 's) option" where
  "DeleteTimer ops D_cancel t s = do {
     (b, t, s) \<leftarrow> Timer_Cancel ops t s;
     Some (if \<not> b \<and> tm_delete_on_completion t then D_ret False else D_erase, t, s) }"
| "DeleteTimer ops D_erase t s = Some (D_ret True, t, s)"
| "DeleteTimer ops (D_ret b) t s = Some (D_ret b, t, s)"

definition DeleteTimer_begin :: "Timer \<Rightarrow> dpc" where
  "DeleteTimer_begin t = (if fired t then D_ret False else D_cancel)"

section \<open>Threads\<close>

text \<open>
  Where the \<open>Run\<close> of a task is: before its first block, in the handler, before \<open>OnTaskCancel\<close> with the result of
  the handler, after it, in \<open>DeleteTimer\<close>, or about to return.
\<close>

datatype tpc = T_start | T_handler | T_done bool | T_after bool | T_delete dpc | T_ret

text \<open>
  \<open>z_waits\<close> are the waits that have not completed, \<open>z_mine\<close> the tasks that exist, \<open>z_task\<close> their fields and \<open>z_pc\<close> where their
  \<open>Run\<close> is; \<open>z_delete\<close> is a thread of the application in \<open>DeleteTimer\<close>, \<open>z_ref\<close> says whether \<open>timer_ref_\<close> has the timer, and
  \<open>z_calls\<close> are the handlers called so far.
\<close>

record 's tms =
  z_t :: Timer
  z_s :: 's
  z_waits :: "(int \<times> nat) list"
  z_mine :: "task_ref set"
  z_task :: "task_ref \<Rightarrow> TimerTask"
  z_pc :: "task_ref \<Rightarrow> tpc"
  z_delete :: "dpc option"
  z_ref :: bool
  z_calls :: "(bool \<times> nat option) list"

definition armed :: "(int \<times> nat) option \<Rightarrow> (int \<times> nat) list" where
  "armed w = (case w of None \<Rightarrow> [] | Some w \<Rightarrow> [w])"

text \<open>
  The steps. The application uses the timer while \<open>timer_ref_\<close> has it and deletes it once, and not at all when it
  is deleted on completion; \<open>Reschedule\<close> is called from the handler; \<open>seq_no_\<close> does not wrap. A
  wait completes with \<open>Operation_aborted\<close> only when a later \<open>Start\<close> has set the expiry time anew.
\<close>

inductive tm_step :: "'s task_ops \<Rightarrow> ('s \<Rightarrow> task_ref \<Rightarrow> tphase) \<Rightarrow> ('s \<Rightarrow> bool) \<Rightarrow> ('s \<Rightarrow> 's \<Rightarrow> bool) \<Rightarrow> 's tms \<Rightarrow> 's tms \<Rightarrow> bool"
  for ops phase room rest where
  start: "z_ref z \<Longrightarrow> tm_seq_no (z_t z) + 1 < 2 ^ 32 \<Longrightarrow> Timer_Start ec time h eh (z_t z) = (b, t, w) \<Longrightarrow>
    tm_step ops phase room rest z (z\<lparr>z_t := t, z_waits := z_waits z @ armed w\<rparr>)"
| cancel: "z_ref z \<Longrightarrow> Timer_Cancel ops (z_t z) (z_s z) = Some (b, t, s) \<Longrightarrow>
    tm_step ops phase room rest z (z\<lparr>z_t := t, z_s := s, z_mine := {r \<in> z_mine z. phase s r \<noteq> Gone}\<rparr>)"
| expire: "(time, n) \<in> set (z_waits z) \<Longrightarrow> ec = Operation_aborted \<longrightarrow> n \<noteq> tm_seq_no (z_t z) \<Longrightarrow> room (z_s z) \<Longrightarrow> phase (z_s z) r = Gone \<Longrightarrow>
    StartTimerTask ops r time n ec (z_t z) (z_s z) = Some (None, t, s) \<Longrightarrow>
    tm_step ops phase room rest z (z\<lparr>z_t := t, z_s := s, z_waits := remove1 (time, n) (z_waits z)\<rparr>)"
| expire_task: "(time, n) \<in> set (z_waits z) \<Longrightarrow> ec = Operation_aborted \<longrightarrow> n \<noteq> tm_seq_no (z_t z) \<Longrightarrow> room (z_s z) \<Longrightarrow> phase (z_s z) r = Gone \<Longrightarrow>
    StartTimerTask ops r time n ec (z_t z) (z_s z) = Some (Some tt, t, s) \<Longrightarrow>
    tm_step ops phase room rest z (z\<lparr>z_t := t, z_s := s, z_waits := remove1 (time, n) (z_waits z),
      z_mine := insert r (z_mine z), z_task := (z_task z)(r := tt), z_pc := (z_pc z)(r := T_start)\<rparr>)"
| run: "r \<in> z_mine z \<Longrightarrow> phase (z_s z) r = Running c \<Longrightarrow> z_pc z r = T_start \<Longrightarrow> Run_begin c (z_task z r) (z_t z) = (b, tt, t) \<Longrightarrow>
    tm_step ops phase room rest z (z\<lparr>z_t := t, z_task := (z_task z)(r := tt), z_pc := (z_pc z)(r := if b then T_handler else T_ret)\<rparr>)"
| reschedule: "r \<in> z_mine z \<Longrightarrow> z_pc z r = T_handler \<Longrightarrow> Reschedule time (z_t z) = (b, t) \<Longrightarrow>
    tm_step ops phase room rest z (z\<lparr>z_t := t\<rparr>)"
| handler: "r \<in> z_mine z \<Longrightarrow> z_pc z r = T_handler \<Longrightarrow> Run_handler (z_task z r) (z_t z) = (e, h) \<Longrightarrow> e \<longrightarrow> \<not> restart \<Longrightarrow>
    tm_step ops phase room rest z (z\<lparr>z_calls := z_calls z @ [(e, h)], z_pc := (z_pc z)(r := T_done restart)\<rparr>)"
| task_cancel: "r \<in> z_mine z \<Longrightarrow> z_pc z r = T_done restart \<Longrightarrow> OnTaskCancel r (z_task z r) (z_t z) = Some t \<Longrightarrow>
    tm_step ops phase room rest z (z\<lparr>z_t := t, z_pc := (z_pc z)(r := T_after restart)\<rparr>)"
| restart: "r \<in> z_mine z \<Longrightarrow> z_pc z r = T_after True \<Longrightarrow> tm_seq_no (z_t z) + 1 < 2 ^ 32 \<Longrightarrow>
    Timer_Start ec (tm_time (z_t z)) (tm_handler (z_t z)) (tm_error_handler (z_t z)) (z_t z) = (b, t, w) \<Longrightarrow>
    tm_step ops phase room rest z (z\<lparr>z_t := t, z_waits := z_waits z @ armed w, z_pc := (z_pc z)(r := T_ret)\<rparr>)"
| complete: "r \<in> z_mine z \<Longrightarrow> z_pc z r = T_after False \<Longrightarrow>
    tm_step ops phase room rest z (z\<lparr>z_pc := (z_pc z)(r :=
      if tm_delete_on_completion (z_t z) then T_delete (DeleteTimer_begin (z_t z)) else T_ret)\<rparr>)"
| run_delete: "r \<in> z_mine z \<Longrightarrow> z_pc z r = T_delete d \<Longrightarrow> DeleteTimer ops d (z_t z) (z_s z) = Some (d', t, s) \<Longrightarrow>
    tm_step ops phase room rest z (z\<lparr>z_t := t, z_s := s, z_mine := {r \<in> z_mine z. phase s r \<noteq> Gone}, z_ref := (z_ref z \<and> d \<noteq> D_erase),
      z_pc := (z_pc z)(r := case d' of D_ret _ \<Rightarrow> T_ret | _ \<Rightarrow> T_delete d')\<rparr>)"
| return: "r \<in> z_mine z \<Longrightarrow> z_pc z r = T_ret \<Longrightarrow> room (z_s z) \<Longrightarrow> phase (z_s z) r = Running c \<Longrightarrow>
    (if c then OnTaskCancel r (z_task z r) (z_t z) else Some (z_t z)) = Some t \<Longrightarrow> op_return ops r u True (z_s z) = Some s \<Longrightarrow>
    tm_step ops phase room rest z (z\<lparr>z_t := t, z_s := s, z_mine := z_mine z - {r}\<rparr>)"
| delete_begin: "z_ref z \<Longrightarrow> \<not> tm_delete_on_completion (z_t z) \<Longrightarrow> z_delete z = None \<Longrightarrow>
    tm_step ops phase room rest z (z\<lparr>z_delete := Some (DeleteTimer_begin (z_t z))\<rparr>)"
| delete: "z_delete z = Some d \<Longrightarrow> DeleteTimer ops d (z_t z) (z_s z) = Some (d', t, s) \<Longrightarrow>
    tm_step ops phase room rest z (z\<lparr>z_t := t, z_s := s, z_mine := {r \<in> z_mine z. phase s r \<noteq> Gone}, z_ref := (z_ref z \<and> d \<noteq> D_erase),
      z_delete := (case d' of D_ret _ \<Rightarrow> None | _ \<Rightarrow> Some d')\<rparr>)"
| rest: "rest (z_s z) s \<Longrightarrow> spares (z_mine z) (phase (z_s z)) (phase s) \<Longrightarrow> tm_step ops phase room rest z (z\<lparr>z_s := s\<rparr>)"

text \<open>The references to the timer: those of \<open>timer_ref_\<close>, of the waits and of the tasks.\<close>

definition referenced :: "'s tms \<Rightarrow> bool" where
  "referenced z = (z_ref z \<or> z_waits z \<noteq> [] \<or> (\<exists>r \<in> z_mine z. tt_timer (z_task z r)))"

section \<open>The invariant\<close>

text \<open>
  A task that has not fired and is not cancelled is the current one of a running timer; a task in
  the handler is the current one of a fired timer; the others have nothing to do with the current one. The
  scheduler finds a cancelled task without a reference to the timer.
\<close>

fun task_shape :: "bool \<Rightarrow> TimerState \<Rightarrow> tphase \<Rightarrow> bool \<Rightarrow> bool \<Rightarrow> tpc \<Rightarrow> bool" where
  "task_shape current st p ref del T_start =
     (ref \<and> (current \<and> st = Timer_Running \<and> (p = Waiting \<or> p = Running False) \<or> \<not> current \<and> p = Running True))"
| "task_shape current st p ref del T_handler = (ref \<and> current \<and> st = Timer_Fired \<and> p = Running False)"
| "task_shape current st p ref del (T_done b) = (ref \<and> current \<and> st = Timer_Fired \<and> p = Running False)"
| "task_shape current st p ref del (T_after b) = (ref \<and> \<not> current \<and> p = Running False)"
| "task_shape current st p ref del (T_delete d) = (ref \<and> \<not> current \<and> p = Running False \<and> del)"
| "task_shape current st p ref del T_ret = (\<not> current \<and> p = Running (\<not> ref))"

definition task_ok :: "('s \<Rightarrow> task_ref \<Rightarrow> tphase) \<Rightarrow> 's tms \<Rightarrow> task_ref \<Rightarrow> bool" where
  "task_ok phase z r = task_shape (tm_timer_task (z_t z) = Some r) (tm_state (z_t z)) (phase (z_s z) r)
     (tt_timer (z_task z r)) (tm_delete_on_completion (z_t z)) (z_pc z r)"

text \<open>The wait of the last start is pending as long as the timer runs and has no task.\<close>

definition waits_ok :: "'s tms \<Rightarrow> bool" where
  "waits_ok z = (let t = z_t z; ns = map snd (z_waits z) in
     distinct ns \<and> (\<forall>n \<in> set ns. n \<le> tm_seq_no t) \<and> tm_seq_no t < 2 ^ 32 \<and>
     (tm_timer_task t \<noteq> None \<or> tm_state t = Timer_Init \<longrightarrow> tm_seq_no t \<notin> set ns) \<and>
     (tm_state t = Timer_Running \<longrightarrow> tm_timer_task t \<noteq> None \<or> tm_seq_no t \<in> set ns))"

definition current_ok :: "'s tms \<Rightarrow> bool" where
  "current_ok z = (let t = z_t z in
     (\<forall>r. tm_timer_task t = Some r \<longrightarrow> r \<in> z_mine z) \<and> (tm_state t = Timer_Fired \<longrightarrow> tm_timer_task t \<noteq> None) \<and>
     0 \<le> tm_task_id t \<and> (tm_task_instance t = -1 \<or> 0 \<le> tm_task_instance t) \<and>
     (\<forall>d. z_delete z = Some d \<longrightarrow> \<not> tm_delete_on_completion t \<and> z_ref z))"

definition timer_ok :: "('s \<Rightarrow> task_ref \<Rightarrow> tphase) \<Rightarrow> ('s \<Rightarrow> bool) \<Rightarrow> 's tms \<Rightarrow> bool" where
  "timer_ok phase ok z = (ok (z_s z) \<and> (\<forall>r \<in> z_mine z. task_ok phase z r) \<and> waits_ok z \<and> current_ok z)"

lemma timer_okD:
  assumes "timer_ok phase ok z"
  shows "ok (z_s z)" "r \<in> z_mine z \<Longrightarrow> task_ok phase z r" "waits_ok z" "current_ok z"
  using assms by (simp_all add: timer_ok_def)

lemma timer_okI: "ok (z_s z) \<Longrightarrow> (\<And>r. r \<in> z_mine z \<Longrightarrow> task_ok phase z r) \<Longrightarrow> waits_ok z \<Longrightarrow> current_ok z \<Longrightarrow> timer_ok phase ok z"
  by (simp add: timer_ok_def)

lemma task_alive: "task_ok phase z r \<Longrightarrow> phase (z_s z) r \<noteq> Gone"
  by (cases "z_pc z r") (auto simp: task_ok_def)

lemma mine_alive: "timer_ok phase ok z \<Longrightarrow> {r \<in> z_mine z. phase (z_s z) r \<noteq> Gone} = z_mine z"
  using task_alive timer_okD(2) by blast

text \<open>The current task of a timer that runs or has fired, and no other.\<close>

lemma current_task:
  assumes "timer_ok phase ok z" "tm_timer_task (z_t z) = Some r"
  shows "r \<in> z_mine z" "tm_state (z_t z) = Timer_Fired \<or> z_pc z r = T_start \<and> tm_state (z_t z) = Timer_Running \<and>
    (phase (z_s z) r = Waiting \<or> phase (z_s z) r = Running False)"
proof -
  show r: "r \<in> z_mine z" using timer_okD(4) [OF assms(1)] assms(2) by (simp add: current_ok_def Let_def)
  show "tm_state (z_t z) = Timer_Fired \<or> z_pc z r = T_start \<and> tm_state (z_t z) = Timer_Running \<and>
    (phase (z_s z) r = Waiting \<or> phase (z_s z) r = Running False)"
    using timer_okD(2) [OF assms(1) r] assms(2) by (cases "z_pc z r") (auto simp: task_ok_def)
qed

lemma no_current:
  assumes "timer_ok phase ok z" "tm_state (z_t z) \<noteq> Timer_Running" "tm_state (z_t z) \<noteq> Timer_Fired"
  shows "tm_timer_task (z_t z) = None"
  using current_task(2) [OF assms(1)] assms(2,3) by (cases "tm_timer_task (z_t z)") auto

text \<open>Without a current task the state of the timer is free to change.\<close>

lemma task_ok_other:
  assumes "task_ok phase z r" "z_pc z' r = z_pc z r" "z_task z' r = z_task z r" "phase (z_s z') r = phase (z_s z) r"
    "tm_timer_task (z_t z) \<noteq> Some r" "tm_timer_task (z_t z') \<noteq> Some r" "tm_delete_on_completion (z_t z') = tm_delete_on_completion (z_t z)"
  shows "task_ok phase z' r"
  using assms by (cases "z_pc z r") (auto simp: task_ok_def)

lemma task_ok_same:
  assumes "task_ok phase z r" "z_pc z' r = z_pc z r" "z_task z' r = z_task z r"
    "phase (z_s z') r = phase (z_s z) r \<or> phase (z_s z) r = Waiting \<and> phase (z_s z') r = Running False"
    "tm_timer_task (z_t z') = tm_timer_task (z_t z)" "tm_state (z_t z') = tm_state (z_t z)"
    "tm_delete_on_completion (z_t z') = tm_delete_on_completion (z_t z)"
  shows "task_ok phase z' r"
  using assms by (cases "z_pc z r") (auto simp: task_ok_def)

text \<open>\<open>Start\<close> does nothing, or fails, or starts a wait with a new number.\<close>

lemma Timer_Start_cases:
  assumes s: "Timer_Start ec time h eh t = (b, t', w)" and n: "tm_seq_no t + 1 < 2 ^ 32"
  obtains (idle) "t' = t" "w = None"
  | (failed) "t' = t\<lparr>tm_time := time, tm_handler := h, tm_seq_no := tm_seq_no t + 1, tm_error_handler := eh\<rparr>" "w = None"
      "tm_state t \<noteq> Timer_Running" "tm_state t \<noteq> Timer_Fired"
  | (started) "t' = t\<lparr>tm_time := time, tm_handler := h, tm_seq_no := tm_seq_no t + 1, tm_error_handler := eh, tm_state := Timer_Running\<rparr>"
      "w = Some (time, tm_seq_no t + 1)" "tm_state t \<noteq> Timer_Running" "tm_state t \<noteq> Timer_Fired"
proof (cases "time < 0 \<or> tm_state t = Timer_Running \<or> tm_state t = Timer_Fired")
  case True
  then have "(b, t', w) = (True, t, None)" unfolding s [symmetric] by (auto simp: Timer_Start_def)
  then show ?thesis using idle by simp
next
  case False
  have u: "u32 (tm_seq_no t + 1) = tm_seq_no t + 1" by (rule u32_small [OF n])
  show ?thesis
  proof (cases ec)
    case True
    then have "(b, t', w) = (False, t\<lparr>tm_time := time, tm_handler := h, tm_seq_no := tm_seq_no t + 1, tm_error_handler := eh\<rparr>, None)"
      unfolding s [symmetric] using False by (simp add: Timer_Start_def Let_def u [simplified])
    then show ?thesis using failed False by blast
  next
    case b: False
    then have "(b, t', w) = (True, t\<lparr>tm_time := time, tm_handler := h, tm_seq_no := tm_seq_no t + 1, tm_error_handler := eh, tm_state := Timer_Running\<rparr>,
        Some (time, tm_seq_no t + 1))"
      unfolding s [symmetric] using False by (simp add: Timer_Start_def Let_def u [simplified])
    then show ?thesis using started False by blast
  qed
qed

lemma start_ok_step:
  assumes ok: "timer_ok phase ok z" and n: "tm_seq_no (z_t z) + 1 < 2 ^ 32" and s: "Timer_Start ec time h eh (z_t z) = (b, t, w)"
  shows "timer_ok phase ok (z\<lparr>z_t := t, z_waits := z_waits z @ armed w\<rparr>)" (is "timer_ok phase ok ?z")
proof -
  have w: "distinct (map snd (z_waits z))" "\<forall>n \<in> set (map snd (z_waits z)). n < tm_seq_no (z_t z) + 1"
    using timer_okD(3) [OF ok] unfolding waits_ok_def Let_def Suc_eq_plus1 [symmetric] less_Suc_eq_le by blast+
  have new: "tm_seq_no (z_t z) + 1 \<notin> set (map snd (z_waits z))" using w(2) by blast
  have moved: "timer_ok phase ok ?z" if t: "tm_timer_task (z_t z) = None" "tm_timer_task t = None" "tm_seq_no t = tm_seq_no (z_t z) + 1"
      "tm_delete_on_completion t = tm_delete_on_completion (z_t z)" "tm_task_id t = tm_task_id (z_t z)" "tm_task_instance t = tm_task_instance (z_t z)"
      "tm_state t \<noteq> Timer_Fired" "tm_state t \<noteq> Timer_Running \<and> w = None \<or> tm_state t = Timer_Running \<and> w = Some (time, tm_seq_no (z_t z) + 1)"
  proof (rule timer_okI)
    show "task_ok phase ?z r" if "r \<in> z_mine ?z" for r
      by (rule task_ok_other [OF timer_okD(2) [OF ok, of r]]) (use that t in simp_all)
    show "waits_ok ?z" using t(2,3,8) w n new unfolding waits_ok_def Let_def by (auto simp: armed_def less_imp_le)
    show "current_ok ?z" using timer_okD(4) [OF ok] t by (auto simp: current_ok_def Let_def)
  qed (use timer_okD(1) [OF ok] in simp)
  from s n show ?thesis
  proof (cases rule: Timer_Start_cases)
    case idle
    then show ?thesis using ok by (simp add: armed_def)
  next
    case failed
    then show ?thesis using moved no_current [OF ok] by simp
  next
    case started
    then show ?thesis using moved no_current [OF ok] by simp
  qed
qed

text \<open>A task that is done with the handler moves on.\<close>

lemma after_ok_step:
  assumes ok: "timer_ok phase ok z" and p: "z_pc z r = T_after b \<or> z_pc z r = T_delete d"
    and p': "p' = T_ret \<or> p' = T_delete d' \<and> tm_delete_on_completion (z_t z)" and r: "r \<in> z_mine z"
  shows "timer_ok phase ok (z\<lparr>z_pc := (z_pc z)(r := p')\<rparr>)" (is "timer_ok phase ok ?z")
proof (rule timer_okI)
  show "task_ok phase ?z q" if "q \<in> z_mine ?z" for q
    using timer_okD(2) [OF ok, of q] timer_okD(2) [OF ok r] that p p' by (cases "q = r") (auto simp: task_ok_def)
qed (use timer_okD [OF ok] in \<open>simp_all add: waits_ok_def current_ok_def Let_def\<close>)

lemma run_ok_step:
  assumes ok: "timer_ok phase ok z" and r: "r \<in> z_mine z" "phase (z_s z) r = Running c" "z_pc z r = T_start"
    and b: "Run_begin c (z_task z r) (z_t z) = (b, tt, t)"
  shows "timer_ok phase ok (z\<lparr>z_t := t, z_task := (z_task z)(r := tt), z_pc := (z_pc z)(r := if b then T_handler else T_ret)\<rparr>)" (is "timer_ok phase ok ?z")
proof (rule timer_okI)
  note k = timer_okD [OF ok]
  have cur: "if c then tm_timer_task (z_t z) \<noteq> Some r else tm_timer_task (z_t z) = Some r" and ref: "tt_timer (z_task z r)"
    using k(2) [OF r(1)] r(2,3) by (auto simp: task_ok_def)
  have t: "if c then t = z_t z \<and> tt = (z_task z r)\<lparr>tt_timer := False\<rparr> \<and> \<not> b else t = (z_t z)\<lparr>tm_state := Timer_Fired\<rparr> \<and> tt = z_task z r \<and> b"
    using b by (auto simp: Run_begin_def)
  show "task_ok phase ?z q" if "q \<in> z_mine ?z" for q
  proof (cases "q = r")
    case True
    then show ?thesis using cur t r(2) ref by (auto simp: task_ok_def split: if_splits)
  next
    case False
    then have q: "task_ok phase z q" "c \<or> tm_timer_task (z_t z) \<noteq> Some q" using k(2) [of q] that cur by auto
    show ?thesis
    proof (cases c)
      case True
      then show ?thesis using t False by (intro task_ok_same [OF q(1)]) simp_all
    next
      case b: False
      then show ?thesis using t False q(2) by (intro task_ok_other [OF q(1)]) simp_all
    qed
  qed
  show "waits_ok ?z" "current_ok ?z" using k(3,4) cur t by (auto simp: waits_ok_def current_ok_def Let_def split: if_splits)
qed (use timer_okD(1) [OF ok] in simp)

lemma OnTaskCancel_done:
  assumes "timer_ok phase ok z" "r \<in> z_mine z" "z_pc z r = T_done b"
  shows "OnTaskCancel r (z_task z r) (z_t z) = Some ((z_t z)\<lparr>tm_timer_task := None, tm_state := Timer_Init\<rparr>)" "tm_timer_task (z_t z) = Some r"
  using timer_okD(2) [OF assms(1,2)] assms(3) by (simp_all add: task_ok_def OnTaskCancel_def)

lemma done_ok_step:
  assumes ok: "timer_ok phase ok z" and r: "r \<in> z_mine z" "z_pc z r = T_done b"
  shows "timer_ok phase ok (z\<lparr>z_t := (z_t z)\<lparr>tm_timer_task := None, tm_state := Timer_Init\<rparr>, z_pc := (z_pc z)(r := T_after b)\<rparr>)" (is "timer_ok phase ok ?z")
proof (rule timer_okI)
  note k = timer_okD [OF ok] and cur = OnTaskCancel_done(2) [OF ok r]
  show "task_ok phase ?z q" if "q \<in> z_mine ?z" for q
  proof (cases "q = r")
    case True
    then show ?thesis using k(2) [OF r(1)] r(2) by (simp add: task_ok_def)
  next
    case False
    then show ?thesis by (intro task_ok_other [OF k(2) [of q]]) (use that cur in simp_all)
  qed
  show "waits_ok ?z" "current_ok ?z" using k(3,4) cur by (auto simp: waits_ok_def current_ok_def Let_def)
qed (use timer_okD(1) [OF ok] in simp)

lemma handler_ok_step:
  assumes ok: "timer_ok phase ok z" and r: "r \<in> z_mine z" "z_pc z r = T_handler"
  shows "timer_ok phase ok (z\<lparr>z_calls := cs, z_pc := (z_pc z)(r := T_done b)\<rparr>)" (is "timer_ok phase ok ?z")
proof (rule timer_okI)
  note k = timer_okD [OF ok]
  show "task_ok phase ?z q" if "q \<in> z_mine ?z" for q
    using k(2) [of q] k(2) [OF r(1)] r(2) that by (cases "q = r") (simp_all add: task_ok_def)
qed (use timer_okD [OF ok] in \<open>simp_all add: waits_ok_def current_ok_def Let_def\<close>)

text \<open>Changes of the fields that the invariant does not see, and of the scheduler by others.\<close>

lemma frame_ok_step:
  assumes ok: "timer_ok phase ok z" and s: "ok (z_s z')" "spares (z_mine z') (phase (z_s z)) (phase (z_s z'))"
    and t: "\<exists>x. z_t z' = (z_t z)\<lparr>tm_time := x\<rparr>"
    and e: "z_waits z' = z_waits z" "z_pc z' = z_pc z" "z_task z' = z_task z" "z_mine z' \<subseteq> z_mine z"
      "\<And>r. tm_timer_task (z_t z) = Some r \<Longrightarrow> r \<in> z_mine z'" "\<And>d. z_delete z' = Some d \<Longrightarrow> \<not> tm_delete_on_completion (z_t z) \<and> z_ref z'"
  shows "timer_ok phase ok z'"
proof (rule timer_okI)
  note k = timer_okD [OF ok]
  obtain x where x: "z_t z' = (z_t z)\<lparr>tm_time := x\<rparr>" using t by blast
  show "task_ok phase z' r" if "r \<in> z_mine z'" for r
    by (rule task_ok_same [OF k(2) [of r]]) (use sparesD [OF s(2) that] that e(2-4) x in auto)
  show "waits_ok z'" using k(3) e(1) x by (simp add: waits_ok_def Let_def)
  show "current_ok z'" using k(4) e(4-6) x by (auto simp: current_ok_def Let_def)
qed (rule s(1))

section \<open>Every step keeps the invariant\<close>

text \<open>What is not affected by cancelling a timer.\<close>

definition same_timer :: "Timer \<Rightarrow> Timer \<Rightarrow> bool" where
  "same_timer t t' = (tm_seq_no t' = tm_seq_no t \<and> tm_delete_on_completion t' = tm_delete_on_completion t \<and>
     tm_task_id t' = tm_task_id t \<and> tm_task_instance t' = tm_task_instance t)"

lemma cancelled_ok:
  assumes ok: "timer_ok phase ok z" and nf: "tm_state (z_t z) \<noteq> Timer_Fired"
    and s: "ok s" "\<And>q. q \<in> z_mine z \<Longrightarrow> tm_timer_task (z_t z) \<noteq> Some q \<Longrightarrow> phase s q = phase (z_s z) q"
      "\<And>r. tm_timer_task (z_t z) = Some r \<Longrightarrow> phase s r = Gone \<or> phase s r = Running True"
  shows "timer_ok phase ok (z\<lparr>z_t := (z_t z)\<lparr>tm_timer_task := None, tm_state := Timer_Cancelled\<rparr>, z_s := s, z_mine := {r \<in> z_mine z. phase s r \<noteq> Gone}\<rparr>)"
    (is "timer_ok phase ok ?z")
proof (rule timer_okI)
  note k = timer_okD [OF ok]
  show "task_ok phase ?z q" if "q \<in> z_mine ?z" for q
  proof (cases "tm_timer_task (z_t z) = Some q")
    case True
    then have "z_pc z q = T_start" using current_task(2) [OF ok True] nf by blast
    then show ?thesis using k(2) [of q] that s(3) [OF True] by (auto simp: task_ok_def)
  next
    case False
    then show ?thesis using s(2) [of q] that by (intro task_ok_other [OF k(2) [of q]]) simp_all
  qed
  show "waits_ok ?z" using k(3) by (simp add: waits_ok_def Let_def)
  show "current_ok ?z" using k(4) by (simp add: current_ok_def Let_def)
qed (use s(1) in simp)

context task_service
begin

lemma Timer_Cancel_effect:
  assumes ok: "timer_ok phase ok z"
  shows "\<exists>t s. Timer_Cancel ops (z_t z) (z_s z) = Some (tm_state (z_t z) \<noteq> Timer_Fired, t, s) \<and>
    (if tm_state (z_t z) = Timer_Fired then t = z_t z else tm_state t = Timer_Cancelled) \<and> same_timer (z_t z) t \<and>
    (\<forall>q \<in> z_mine z. tm_timer_task (z_t z) \<noteq> Some q \<longrightarrow> phase s q = phase (z_s z) q) \<and>
    timer_ok phase ok (z\<lparr>z_t := t, z_s := s, z_mine := {r \<in> z_mine z. phase s r \<noteq> Gone}\<rparr>)"
proof (cases "tm_state (z_t z) = Timer_Fired")
  case True
  then show ?thesis using ok mine_alive [OF ok] by (simp add: Timer_Cancel_def same_timer_def)
next
  case nf: False
  note k = timer_okD [OF ok]
  show ?thesis
  proof (cases "tm_timer_task (z_t z)")
    case None
    then have t: "(z_t z)\<lparr>tm_timer_task := None, tm_state := Timer_Cancelled\<rparr> = (z_t z)\<lparr>tm_state := Timer_Cancelled\<rparr>" by simp
    have "timer_ok phase ok (z\<lparr>z_t := (z_t z)\<lparr>tm_state := Timer_Cancelled\<rparr>, z_s := z_s z, z_mine := {r \<in> z_mine z. phase (z_s z) r \<noteq> Gone}\<rparr>)"
      using cancelled_ok [OF ok nf k(1)] None unfolding t by simp
    then show ?thesis using nf None by (simp add: Timer_Cancel_def same_timer_def)
  next
    case (Some r)
    have "\<exists>rc s. op_cancel ops r (z_s z) = Some (rc, s) \<and> rc \<noteq> FAILED \<and> ok s \<and>
      (phase s = (phase (z_s z))(r := Gone) \<or> phase s = (phase (z_s z))(r := Running True))"
      using current_task(2) [OF ok Some] nf cancel_waiting [OF k(1), of r] cancel_running [OF k(1), of r False] by fastforce
    then obtain rc s where s: "op_cancel ops r (z_s z) = Some (rc, s)" "rc \<noteq> FAILED" "ok s"
      "phase s = (phase (z_s z))(r := Gone) \<or> phase s = (phase (z_s z))(r := Running True)" by blast
    have o: "phase s q = phase (z_s z) q" if "q \<noteq> r" for q using s(4) that by auto
    have "timer_ok phase ok (z\<lparr>z_t := (z_t z)\<lparr>tm_timer_task := None, tm_state := Timer_Cancelled\<rparr>, z_s := s, z_mine := {r \<in> z_mine z. phase s r \<noteq> Gone}\<rparr>)"
      by (rule cancelled_ok [OF ok nf s(3)]) (use Some s(4) o in auto)
    then show ?thesis using nf Some s(1,2) o by (simp add: Timer_Cancel_def cpp_assert_def same_timer_def)
  qed
qed

lemma cancel_ok_step:
  assumes "timer_ok phase ok z" "Timer_Cancel ops (z_t z) (z_s z) = Some (b, t, s)"
  shows "timer_ok phase ok (z\<lparr>z_t := t, z_s := s, z_mine := {r \<in> z_mine z. phase s r \<noteq> Gone}\<rparr>)" "same_timer (z_t z) t"
    "q \<in> z_mine z \<Longrightarrow> tm_timer_task (z_t z) \<noteq> Some q \<Longrightarrow> phase s q = phase (z_s z) q"
    "b = (tm_state (z_t z) \<noteq> Timer_Fired)" "b \<Longrightarrow> tm_state t = Timer_Cancelled" "\<not> b \<Longrightarrow> t = z_t z"
  using Timer_Cancel_effect [OF assms(1)] assms(2) by (auto split: if_splits)

text \<open>\<open>DeleteTimer\<close> is \<open>Cancel\<close> or leaves the timer and the scheduler as they are.\<close>

lemma delete_ok_step:
  assumes ok: "timer_ok phase ok z" and d: "DeleteTimer ops d (z_t z) (z_s z) = Some (d', t, s)"
  shows "timer_ok phase ok (z\<lparr>z_t := t, z_s := s, z_mine := {r \<in> z_mine z. phase s r \<noteq> Gone}\<rparr>)" "same_timer (z_t z) t"
    "q \<in> z_mine z \<Longrightarrow> tm_timer_task (z_t z) \<noteq> Some q \<Longrightarrow> phase s q = phase (z_s z) q" "d = D_erase \<Longrightarrow> d' = D_ret True"
proof -
  have "(\<exists>b. Timer_Cancel ops (z_t z) (z_s z) = Some (b, t, s)) \<or> t = z_t z \<and> s = z_s z"
    using d by (cases d) (auto split: bind_splits)
  then show "timer_ok phase ok (z\<lparr>z_t := t, z_s := s, z_mine := {r \<in> z_mine z. phase s r \<noteq> Gone}\<rparr>)" "same_timer (z_t z) t"
    "q \<in> z_mine z \<Longrightarrow> tm_timer_task (z_t z) \<noteq> Some q \<Longrightarrow> phase s q = phase (z_s z) q"
    using cancel_ok_step(1-3) [OF ok] mine_alive [OF ok] ok by (auto simp: same_timer_def)
  show "d = D_erase \<Longrightarrow> d' = D_ret True" using d by simp
qed

lemma StartTimerTask_effect:
  assumes ok: "timer_ok phase ok z" and w: "(time, n) \<in> set (z_waits z)" and s: "room (z_s z)" "phase (z_s z) r = Gone"
  shows "(\<exists>t s. StartTimerTask ops r time n ec (z_t z) (z_s z) = Some (None, z_t z, z_s z) \<and>
      (tm_state (z_t z) = Timer_Cancelled \<or> ec = Operation_aborted \<or> tm_seq_no (z_t z) \<noteq> n)) \<or>
    (\<exists>s. StartTimerTask ops r time n ec (z_t z) (z_s z) = Some (Some \<lparr>tt_timer = True, tt_ec = ec\<rparr>, (z_t z)\<lparr>tm_timer_task := Some r\<rparr>, s) \<and> ok s \<and>
      tm_timer_task (z_t z) = None \<and> tm_state (z_t z) = Timer_Running \<and> tm_seq_no (z_t z) = n \<and>
      (phase s = (phase (z_s z))(r := Waiting) \<or> phase s = (phase (z_s z))(r := Running False)))"
proof (cases "tm_state (z_t z) = Timer_Cancelled \<or> ec = Operation_aborted \<or> tm_seq_no (z_t z) \<noteq> n")
  case True
  then show ?thesis by (auto simp: StartTimerTask_def)
next
  case False
  have "n \<in> set (map snd (z_waits z))" using w by force
  then have c: "tm_timer_task (z_t z) = None" "tm_state (z_t z) \<noteq> Timer_Init" using timer_okD(3) [OF ok] False unfolding waits_ok_def Let_def by blast+
  have "tm_state (z_t z) \<noteq> Timer_Fired" using timer_okD(4) [OF ok] c(1) by (auto simp: current_ok_def Let_def)
  then have r: "tm_state (z_t z) = Timer_Running" using False c(2) by (cases "tm_state (z_t z)") auto
  have i: "0 \<le> tm_task_id (z_t z)" "tm_task_instance (z_t z) = -1 \<or> 0 \<le> tm_task_instance (z_t z)"
    using timer_okD(4) [OF ok] by (simp_all add: current_ok_def Let_def)
  from start_ok [OF timer_okD(1) [OF ok] s i] show ?thesis using False c(1) r by (auto simp: StartTimerTask_def cpp_assert_def)
qed

end

lemma remove_wait:
  assumes "distinct (map snd ws)" "(time, n) \<in> set ws"
  shows "set (map snd (remove1 (time, n) ws)) = set (map snd ws) - {n}" "distinct (map snd (remove1 (time, n) ws))"
proof -
  obtain us vs where u: "ws = us @ (time, n) # vs" "(time, n) \<notin> set us" using split_list_first [OF assms(2)] by blast
  then have "remove1 (time, n) ws = us @ vs" by (simp add: remove1_append)
  then show "set (map snd (remove1 (time, n) ws)) = set (map snd ws) - {n}" "distinct (map snd (remove1 (time, n) ws))"
    using assms(1) u(1) by auto
qed

lemma waits_okD:
  assumes "waits_ok z"
  shows "distinct (map snd (z_waits z))" "n \<in> set (map snd (z_waits z)) \<Longrightarrow> n \<le> tm_seq_no (z_t z)" "tm_seq_no (z_t z) < 2 ^ 32"
    "tm_timer_task (z_t z) \<noteq> None \<or> tm_state (z_t z) = Timer_Init \<Longrightarrow> tm_seq_no (z_t z) \<notin> set (map snd (z_waits z))"
    "tm_state (z_t z) = Timer_Running \<Longrightarrow> tm_timer_task (z_t z) \<noteq> None \<or> tm_seq_no (z_t z) \<in> set (map snd (z_waits z))"
  using assms unfolding waits_ok_def Let_def by blast+

text \<open>A wait completes: the timer may start to have a task.\<close>

lemma waits_remove:
  assumes w: "waits_ok z" "(time, n) \<in> set (z_waits z)" and z: "z_waits z' = remove1 (time, n) (z_waits z)" "tm_seq_no (z_t z') = tm_seq_no (z_t z)"
    "tm_state (z_t z') = tm_state (z_t z)" "tm_timer_task (z_t z') = tm_timer_task (z_t z) \<or> tm_timer_task (z_t z') \<noteq> None \<and> n = tm_seq_no (z_t z)"
    "tm_state (z_t z) = Timer_Running \<Longrightarrow> n = tm_seq_no (z_t z) \<Longrightarrow> tm_timer_task (z_t z') \<noteq> None"
  shows "waits_ok z'"
proof -
  note d = waits_okD [OF w(1)] and m = remove_wait [OF waits_okD(1) [OF w(1)] w(2)]
  show ?thesis unfolding waits_ok_def Let_def z(1-3) m(1)
  proof (intro conjI impI ballI)
    show "tm_seq_no (z_t z) \<notin> set (map snd (z_waits z)) - {n}" if "tm_timer_task (z_t z') \<noteq> None \<or> tm_state (z_t z) = Timer_Init"
      using that z(4) d(4) by (cases "n = tm_seq_no (z_t z)") auto
    show "tm_timer_task (z_t z') \<noteq> None \<or> tm_seq_no (z_t z) \<in> set (map snd (z_waits z)) - {n}" if "tm_state (z_t z) = Timer_Running"
      using that z(4,5) d(5) by (cases "n = tm_seq_no (z_t z)") auto
  qed (use m(2) d(2,3) in auto)
qed

lemma returned_ok:
  assumes ok: "timer_ok phase ok z" and r: "r \<in> z_mine z" "z_pc z r = T_ret" and s: "ok s" "spares (- {r}) (phase (z_s z)) (phase s)"
  shows "timer_ok phase ok (z\<lparr>z_s := s, z_mine := z_mine z - {r}\<rparr>)"
proof (rule frame_ok_step [OF ok])
  have "tm_timer_task (z_t z) \<noteq> Some r" using timer_okD(2) [OF ok r(1)] r(2) by (simp add: task_ok_def)
  then show "\<And>q. tm_timer_task (z_t z) = Some q \<Longrightarrow> q \<in> z_mine (z\<lparr>z_s := s, z_mine := z_mine z - {r}\<rparr>)"
    using current_task(1) [OF ok] by auto
  show "spares (z_mine (z\<lparr>z_s := s, z_mine := z_mine z - {r}\<rparr>)) (phase (z_s z)) (phase (z_s (z\<lparr>z_s := s, z_mine := z_mine z - {r}\<rparr>)))"
    using s(2) by (simp add: spares_def)
  show "\<exists>x. z_t (z\<lparr>z_s := s, z_mine := z_mine z - {r}\<rparr>) = (z_t z)\<lparr>tm_time := x\<rparr>" by (intro exI [of _ "tm_time (z_t z)"]) simp
  show "\<And>d. z_delete (z\<lparr>z_s := s, z_mine := z_mine z - {r}\<rparr>) = Some d \<Longrightarrow> \<not> tm_delete_on_completion (z_t z) \<and> z_ref (z\<lparr>z_s := s, z_mine := z_mine z - {r}\<rparr>)"
    using timer_okD(4) [OF ok] by (simp add: current_ok_def Let_def)
qed (use s(1) in auto)

text \<open>A task that returns while it is cancelled has no reference, so the scheduler's call changes nothing.\<close>

lemma OnTaskCancel_ret:
  assumes "timer_ok phase ok z" "r \<in> z_mine z" "z_pc z r = T_ret" "phase (z_s z) r = Running c"
  shows "(if c then OnTaskCancel r (z_task z r) (z_t z) else Some (z_t z)) = Some (z_t z)"
  using timer_okD(2) [OF assms(1,2)] assms(3,4) by (simp add: task_ok_def OnTaskCancel_def)

context task_service
begin

lemma expire_ok_step:
  assumes ok: "timer_ok phase ok z" and w: "(time, n) \<in> set (z_waits z)" "ec = Operation_aborted \<longrightarrow> n \<noteq> tm_seq_no (z_t z)"
    and s: "room (z_s z)" "phase (z_s z) r = Gone" and e: "StartTimerTask ops r time n ec (z_t z) (z_s z) = Some (None, t, s)"
  shows "timer_ok phase ok (z\<lparr>z_t := t, z_s := s, z_waits := remove1 (time, n) (z_waits z)\<rparr>)" (is "timer_ok phase ok ?z")
proof -
  note k = timer_okD [OF ok]
  from StartTimerTask_effect [OF ok w(1) s, of ec] e
  have z: "t = z_t z" "s = z_s z" and c: "tm_state (z_t z) = Timer_Cancelled \<or> n \<noteq> tm_seq_no (z_t z)" using w(2) by auto
  show ?thesis
  proof (rule timer_okI)
    show "task_ok phase ?z q" if "q \<in> z_mine ?z" for q by (rule task_ok_same [OF k(2) [of q]]) (use that z in simp_all)
    show "waits_ok ?z" by (rule waits_remove [OF k(3) w(1)]) (use z c in auto)
    show "current_ok ?z" using k(4) z by (simp add: current_ok_def Let_def)
  qed (use k(1) z in simp)
qed

lemma expire_task_ok_step:
  assumes ok: "timer_ok phase ok z" and w: "(time, n) \<in> set (z_waits z)"
    and s: "room (z_s z)" "phase (z_s z) r = Gone" and e: "StartTimerTask ops r time n ec (z_t z) (z_s z) = Some (Some tt, t, s)"
  shows "timer_ok phase ok (z\<lparr>z_t := t, z_s := s, z_waits := remove1 (time, n) (z_waits z),
      z_mine := insert r (z_mine z), z_task := (z_task z)(r := tt), z_pc := (z_pc z)(r := T_start)\<rparr>)" (is "timer_ok phase ok ?z")
proof -
  note k = timer_okD [OF ok]
  from StartTimerTask_effect [OF ok w(1) s, of ec] e
  have z: "t = (z_t z)\<lparr>tm_timer_task := Some r\<rparr>" "tt_timer tt" "ok s" "tm_timer_task (z_t z) = None" "tm_state (z_t z) = Timer_Running"
    "tm_seq_no (z_t z) = n" "phase s = (phase (z_s z))(r := Waiting) \<or> phase s = (phase (z_s z))(r := Running False)" by auto
  have new: "r \<notin> z_mine z" using task_alive [OF k(2)] s(2) by blast
  show ?thesis
  proof (rule timer_okI)
    show "task_ok phase ?z q" if "q \<in> z_mine ?z" for q
    proof (cases "q = r")
      case True
      then show ?thesis using z by (auto simp: task_ok_def)
    next
      case False
      then have "phase s q = phase (z_s z) q" using z(7) by auto
      then show ?thesis using False that z(1,4) by (intro task_ok_other [OF k(2) [of q]]) simp_all
    qed
    show "waits_ok ?z" by (rule waits_remove [OF k(3) w(1)]) (use z in simp_all)
    show "current_ok ?z" using k(4) z by (auto simp: current_ok_def Let_def)
  qed (use z(3) in simp)
qed

text \<open>The end of a part of \<open>DeleteTimer\<close>: the thread moves on and the reference may go.\<close>

lemma release_ok:
  assumes ok: "timer_ok phase ok z" and d: "\<And>d. d' = Some d \<Longrightarrow> \<not> tm_delete_on_completion (z_t z) \<and> b"
  shows "timer_ok phase ok (z\<lparr>z_ref := b, z_delete := d'\<rparr>)"
  by (rule frame_ok_step [OF ok])
    (use ok d current_task(1) [OF ok] in \<open>auto simp: timer_ok_def spares_def intro: exI [of _ "tm_time (z_t z)"]\<close>)

lemma tm_step_ok:
  assumes st: "tm_step ops phase room rest z z'" and ok: "timer_ok phase ok z"
  shows "timer_ok phase ok z'"
  using st
proof cases
  case (start ec time h eh b t w)
  then show ?thesis using start_ok_step [OF ok start(3,4)] by simp
next
  case (cancel b t s)
  then show ?thesis using cancel_ok_step(1) [OF ok cancel(3)] by simp
next
  case (expire time n ec r t s)
  then show ?thesis using expire_ok_step [OF ok expire(2-6)] by simp
next
  case (expire_task time n ec r tt t s)
  then show ?thesis using expire_task_ok_step [OF ok expire_task(2,4,5,6)] by simp
next
  case (run r c b tt t)
  then show ?thesis using run_ok_step [OF ok run(2-5)] by simp
next
  case (reschedule r time b t)
  then have "t = z_t z \<or> t = (z_t z)\<lparr>tm_time := time\<rparr>" by (auto simp: Reschedule_def split: if_splits)
  then have "\<exists>x. t = (z_t z)\<lparr>tm_time := x\<rparr>" by (auto intro: exI [of _ "tm_time (z_t z)"])
  then show ?thesis unfolding reschedule(1)
    by (intro frame_ok_step [OF ok]) (use timer_okD(1,4) [OF ok] current_task(1) [OF ok] in \<open>auto simp: spares_def current_ok_def Let_def\<close>)
next
  case (handler r e h b)
  then show ?thesis using handler_ok_step [OF ok handler(2,3)] by simp
next
  case (task_cancel r b t)
  then show ?thesis using done_ok_step [OF ok task_cancel(2,3)] OnTaskCancel_done(1) [OF ok task_cancel(2,3)] by simp
next
  case (restart r ec b t w)
  have "timer_ok phase ok (z\<lparr>z_t := t, z_waits := z_waits z @ armed w\<rparr>)" by (rule start_ok_step [OF ok restart(4,5)])
  from after_ok_step [OF this, of r True] restart show ?thesis by simp
next
  case (complete r)
  then show ?thesis using after_ok_step [OF ok, of r False _ _ "DeleteTimer_begin (z_t z)"] by simp
next
  case (run_delete r d d' t s)
  note e = delete_ok_step [OF ok run_delete(4)]
  have r: "tm_timer_task (z_t z) \<noteq> Some r" "tm_delete_on_completion (z_t z)" "phase (z_s z) r = Running False"
    using timer_okD(2) [OF ok run_delete(2)] run_delete(3) by (simp_all add: task_ok_def)
  have nd: "z_delete z = None" using timer_okD(4) [OF ok] r(2) by (auto simp: current_ok_def Let_def)
  define z1 where "z1 = z\<lparr>z_t := t, z_s := s, z_mine := {r \<in> z_mine z. phase s r \<noteq> Gone}\<rparr>"
  have "timer_ok phase ok (z1\<lparr>z_ref := z_ref z \<and> d \<noteq> D_erase, z_delete := z_delete z\<rparr>)"
    using release_ok [of z1 "z_delete z"] e(1) nd by (simp add: z1_def)
  moreover have "r \<in> z_mine z1" "tm_delete_on_completion (z_t z1)"
    using e(2,3) run_delete(2) r by (simp_all add: z1_def same_timer_def)
  moreover have "(case d' of D_ret x \<Rightarrow> T_ret | _ \<Rightarrow> T_delete d') = T_ret \<or> (case d' of D_ret x \<Rightarrow> T_ret | _ \<Rightarrow> T_delete d') = T_delete d'"
    by (cases d') auto
  ultimately show ?thesis
    using after_ok_step [of phase ok "z1\<lparr>z_ref := z_ref z \<and> d \<noteq> D_erase, z_delete := z_delete z\<rparr>" r _ d
        "case d' of D_ret x \<Rightarrow> T_ret | _ \<Rightarrow> T_delete d'" d'] run_delete(1,3) by (simp add: z1_def)
next
  case (return r c t u s)
  have t: "t = z_t z" using OnTaskCancel_ret [OF ok return(2,3,5)] return(6) by simp
  have "ok s" "spares (- {r}) (phase (z_s z)) (phase s)" using return_ok [OF timer_okD(1) [OF ok] return(4,5), of u True] return(7) by auto
  from returned_ok [OF ok return(2,3) this] show ?thesis using return(1) t by simp
next
  case delete_begin
  have "z\<lparr>z_delete := Some (DeleteTimer_begin (z_t z))\<rparr> = z\<lparr>z_ref := True, z_delete := Some (DeleteTimer_begin (z_t z))\<rparr>"
    using delete_begin(2) by (cases z) simp
  then show ?thesis unfolding delete_begin(1) by (rule ssubst) (rule release_ok [OF ok], use delete_begin in auto)
next
  case (delete d d' t s)
  note e = delete_ok_step [OF ok delete(3)]
  define z1 where "z1 = z\<lparr>z_t := t, z_s := s, z_mine := {r \<in> z_mine z. phase s r \<noteq> Gone}\<rparr>"
  have nd: "\<not> tm_delete_on_completion (z_t z)" "z_ref z" using timer_okD(4) [OF ok] delete(2) by (auto simp: current_ok_def Let_def)
  have "timer_ok phase ok (z1\<lparr>z_ref := z_ref z \<and> d \<noteq> D_erase, z_delete := case d' of D_ret x \<Rightarrow> None | _ \<Rightarrow> Some d'\<rparr>)"
    by (rule release_ok) (use e nd in \<open>auto simp: z1_def same_timer_def split: dpc.splits\<close>)
  then show ?thesis using delete(1) by (simp add: z1_def)
next
  case (rest s)
  then show ?thesis unfolding rest(1)
    by (intro frame_ok_step [OF ok]) (use rest_ok [OF timer_okD(1) [OF ok] rest(2)] timer_okD(4) [OF ok] current_task(1) [OF ok] in
      \<open>auto simp: current_ok_def Let_def intro: exI [of _ "tm_time (z_t z)"]\<close>)
qed

end

section \<open>What starting and cancelling a timer achieve\<close>

definition tm_init :: "sched tms \<Rightarrow> bool" where
  "tm_init z = (reachable ((=) mk_TaskScheduler) sched_step (z_s z) \<and>
     (\<exists>i n b. 0 \<le> i \<and> (n = -1 \<or> 0 \<le> n) \<and> z_t z = mk_Timer i n b) \<and>
     z_waits z = [] \<and> z_mine z = {} \<and> z_delete z = None \<and> z_ref z \<and> z_calls z = [])"

abbreviation tm_steps :: "sched tms \<Rightarrow> sched tms \<Rightarrow> bool" where
  "tm_steps \<equiv> tm_step TaskScheduler phase_of seq_room sched_step"

abbreviation tm_reach :: "sched tms \<Rightarrow> bool" where
  "tm_reach \<equiv> reachable tm_init tm_steps"

lemma tm_init_ok:
  assumes "tm_init z"
  shows "timer_ok phase_of svc_ok z"
  using assms service.holds by (auto simp: tm_init_def timer_ok_def waits_ok_def current_ok_def mk_Timer_def)

interpretation tmi: invariant tm_init tm_steps "timer_ok phase_of svc_ok"
  by unfold_locales (use tm_init_ok svc.tm_step_ok in auto)

text \<open>
  C15. No assertion of the timer fails, whatever the interleaving of the application, ASIO, the timer's tasks and the
  scheduler: it can be cancelled, a wait can complete, a task can leave the handler, and the scheduler's call for a cancelled task
  changes nothing. Every task that is going to use the timer holds a reference, and
  when the last reference goes, the timer neither runs nor has fired, as its destructor asserts. Only one task is outstanding.
\<close>

theorem timer_never_aborts:
  assumes "tm_reach z"
  shows "Timer_Cancel TaskScheduler (z_t z) (z_s z) \<noteq> None \<and>
    (\<forall>time n ec r. (time, n) \<in> set (z_waits z) \<longrightarrow> seq_room (z_s z) \<longrightarrow> phase_of (z_s z) r = Gone \<longrightarrow>
       StartTimerTask TaskScheduler r time n ec (z_t z) (z_s z) \<noteq> None) \<and>
    (\<forall>r \<in> z_mine z. \<forall>b. z_pc z r = T_done b \<longrightarrow> OnTaskCancel r (z_task z r) (z_t z) \<noteq> None) \<and>
    (\<forall>r \<in> z_mine z. z_pc z r = T_ret \<longrightarrow> phase_of (z_s z) r = Running True \<longrightarrow> OnTaskCancel r (z_task z r) (z_t z) = Some (z_t z)) \<and>
    (\<forall>r \<in> z_mine z. z_pc z r \<noteq> T_ret \<longrightarrow> tt_timer (z_task z r)) \<and>
    (\<not> referenced z \<longrightarrow> delete_Timer (z_t z) \<noteq> None) \<and>
    (\<forall>r \<in> z_mine z. z_pc z r = T_start \<and> phase_of (z_s z) r \<noteq> Running True \<or> z_pc z r = T_handler \<longrightarrow> tm_timer_task (z_t z) = Some r)"
proof -
  have ok: "timer_ok phase_of svc_ok z" by (rule tmi.holds [OF assms])
  note k = timer_okD [OF ok]
  show ?thesis
  proof (intro conjI ballI allI impI)
    show "Timer_Cancel TaskScheduler (z_t z) (z_s z) \<noteq> None" using svc.Timer_Cancel_effect [OF ok] by auto
    show "StartTimerTask TaskScheduler r time n ec (z_t z) (z_s z) \<noteq> None"
      if "(time, n) \<in> set (z_waits z)" "seq_room (z_s z)" "phase_of (z_s z) r = Gone" for time n ec r
      using svc.StartTimerTask_effect [OF ok that, of ec] by auto
    show "OnTaskCancel r (z_task z r) (z_t z) \<noteq> None" if "r \<in> z_mine z" "z_pc z r = T_done b" for r b
      using OnTaskCancel_done(1) [OF ok that] by simp
    show "OnTaskCancel r (z_task z r) (z_t z) = Some (z_t z)" if "r \<in> z_mine z" "z_pc z r = T_ret" "phase_of (z_s z) r = Running True" for r
      using OnTaskCancel_ret [OF ok that] by simp
    show ref: "tt_timer (z_task z r)" if "r \<in> z_mine z" "z_pc z r \<noteq> T_ret" for r
      using k(2) [OF that(1)] that(2) by (cases "z_pc z r") (auto simp: task_ok_def)
    show "delete_Timer (z_t z) \<noteq> None" if "\<not> referenced z"
    proof -
      have "tm_timer_task (z_t z) \<noteq> Some r" for r
      proof
        assume c: "tm_timer_task (z_t z) = Some r"
        then have r: "r \<in> z_mine z" by (rule current_task(1) [OF ok])
        then have "z_pc z r \<noteq> T_ret" using k(2) [OF r] c by (auto simp: task_ok_def)
        then show False using ref [OF r] r that by (simp add: referenced_def)
      qed
      then have "tm_timer_task (z_t z) = None" by (cases "tm_timer_task (z_t z)") auto
      then have "tm_state (z_t z) \<noteq> Timer_Running" "tm_state (z_t z) \<noteq> Timer_Fired"
        using waits_okD(5) [OF k(3)] k(4) that by (auto simp: referenced_def current_ok_def Let_def)
      then show ?thesis by (simp add: delete_Timer_def cpp_assert_def)
    qed
    show "tm_timer_task (z_t z) = Some r" if "r \<in> z_mine z" "z_pc z r = T_start \<and> phase_of (z_s z) r \<noteq> Running True \<or> z_pc z r = T_handler" for r
      using k(2) [OF that(1)] that(2) by (auto simp: task_ok_def)
  qed
qed

text \<open>
  C17. A timer that runs is not forgotten: its task waits or runs in the scheduler and has not been cancelled, or the
  wait of the last \<open>Start\<close> is pending, and whenever it completes without being aborted a task is created
  for it. Once the task runs it fires the timer and calls the handler of the last \<open>Start\<close>, or the error handler if there is one and
  the wait failed.
\<close>

theorem timer_running_expires:
  assumes "tm_reach z" "tm_state (z_t z) = Timer_Running"
  shows "(\<exists>r \<in> z_mine z. tm_timer_task (z_t z) = Some r \<and> z_pc z r = T_start \<and>
       (phase_of (z_s z) r = Waiting \<or> phase_of (z_s z) r = Running False) \<and>
       Run_begin False (z_task z r) (z_t z) = (True, z_task z r, (z_t z)\<lparr>tm_state := Timer_Fired\<rparr>)) \<or>
    (\<exists>time. (time, tm_seq_no (z_t z)) \<in> set (z_waits z) \<and>
       (\<forall>ec r. ec \<noteq> Operation_aborted \<longrightarrow> seq_room (z_s z) \<longrightarrow> phase_of (z_s z) r = Gone \<longrightarrow>
          (\<exists>t s. StartTimerTask TaskScheduler r time (tm_seq_no (z_t z)) ec (z_t z) (z_s z) = Some (Some \<lparr>tt_timer = True, tt_ec = ec\<rparr>, t, s) \<and>
             tm_timer_task t = Some r \<and> (phase_of s r = Waiting \<or> phase_of s r = Running False) \<and>
             Run_handler \<lparr>tt_timer = True, tt_ec = ec\<rparr> t =
               (if ec \<noteq> Success \<and> tm_error_handler (z_t z) \<noteq> None then (True, tm_error_handler (z_t z)) else (False, tm_handler (z_t z))))))"
proof -
  have ok: "timer_ok phase_of svc_ok z" by (rule tmi.holds [OF assms(1)])
  show ?thesis
  proof (cases "tm_timer_task (z_t z)")
    case (Some r)
    then show ?thesis using current_task [OF ok Some] assms(2) by (auto simp: Run_begin_def)
  next
    case None
    then obtain time where t: "(time, tm_seq_no (z_t z)) \<in> set (z_waits z)" using waits_okD(5) [OF timer_okD(3) [OF ok] assms(2)] by auto
    have "\<exists>t s. StartTimerTask TaskScheduler r time (tm_seq_no (z_t z)) ec (z_t z) (z_s z) = Some (Some \<lparr>tt_timer = True, tt_ec = ec\<rparr>, t, s) \<and>
        tm_timer_task t = Some r \<and> (phase_of s r = Waiting \<or> phase_of s r = Running False) \<and>
        Run_handler \<lparr>tt_timer = True, tt_ec = ec\<rparr> t =
          (if ec \<noteq> Success \<and> tm_error_handler (z_t z) \<noteq> None then (True, tm_error_handler (z_t z)) else (False, tm_handler (z_t z)))"
      if a: "ec \<noteq> Operation_aborted" "seq_room (z_s z)" "phase_of (z_s z) r = Gone" for ec r
    proof -
      obtain s where "StartTimerTask TaskScheduler r time (tm_seq_no (z_t z)) ec (z_t z) (z_s z) =
          Some (Some \<lparr>tt_timer = True, tt_ec = ec\<rparr>, (z_t z)\<lparr>tm_timer_task := Some r\<rparr>, s)"
        "phase_of s r = Waiting \<or> phase_of s r = Running False"
        using svc.StartTimerTask_effect [OF ok t a(2,3), of ec] a(1) assms(2) by auto
      then show ?thesis by (intro exI [of _ "(z_t z)\<lparr>tm_timer_task := Some r\<rparr>"] exI [of _ s]) (simp add: Run_handler_def)
    qed
    then show ?thesis using t by blast
  qed
qed

text \<open>A cancelled timer stays cancelled and silent until it is started.\<close>

lemma Timer_Start_cancelled:
  assumes "Timer_Start ec time h eh t = (b, t', w)" "tm_seq_no t + 1 < 2 ^ 32"
  shows "tm_seq_no t \<le> tm_seq_no t'" "tm_seq_no t' = tm_seq_no t \<Longrightarrow> t' = t"
  using assms by (cases rule: Timer_Start_cases; simp)+

lemma seq_mono:
  assumes st: "tm_steps z z'" and ok: "timer_ok phase_of svc_ok z"
  shows "tm_seq_no (z_t z) \<le> tm_seq_no (z_t z')"
  using st
proof cases
  case (start ec time h eh b t w)
  then show ?thesis using Timer_Start_cancelled(1) [OF start(4,3)] by simp
next
  case (cancel b t s)
  then show ?thesis using svc.cancel_ok_step(2) [OF ok cancel(3)] by (simp add: same_timer_def)
next
  case (restart r ec b t w)
  then show ?thesis using Timer_Start_cancelled(1) [OF restart(5,4)] by simp
next
  case (run_delete r d d' t s)
  then show ?thesis using svc.delete_ok_step(2) [OF ok run_delete(4)] by (simp add: same_timer_def)
next
  case (delete d d' t s)
  then show ?thesis using svc.delete_ok_step(2) [OF ok delete(3)] by (simp add: same_timer_def)
next
  case (expire time n ec r t s)
  then show ?thesis using svc.StartTimerTask_effect [OF ok expire(2,4,5), of ec] by auto
next
  case (expire_task time n ec r tt t s)
  then show ?thesis using svc.StartTimerTask_effect [OF ok expire_task(2,4,5), of ec] by auto
next
  case (return r c t u s)
  then show ?thesis using OnTaskCancel_ret [OF ok return(2,3,5)] by simp
next
  case (task_cancel r b t)
  then show ?thesis using OnTaskCancel_done(1) [OF ok task_cancel(2,3)] by auto
qed (auto simp: Run_begin_def Reschedule_def split: if_splits)

lemma cancelled_tasks:
  assumes ok: "timer_ok phase ok z" and c: "tm_state (z_t z) = Timer_Cancelled" and r: "r \<in> z_mine z"
  shows "z_pc z r \<noteq> T_handler" "z_pc z r \<noteq> T_done b" "z_pc z r = T_start \<Longrightarrow> phase (z_s z) r = Running True"
  using timer_okD(2) [OF ok r] c by (auto simp: task_ok_def)

lemma cancelled_step:
  assumes st: "tm_steps z z'" and ok: "timer_ok phase_of svc_ok z" and c: "tm_state (z_t z) = Timer_Cancelled"
    and n: "tm_seq_no (z_t z') = tm_seq_no (z_t z)"
  shows "tm_state (z_t z') = Timer_Cancelled \<and> z_calls z' = z_calls z"
  using st
proof cases
  case (start ec time h eh b t w)
  then show ?thesis using Timer_Start_cancelled(2) [OF start(4,3)] n c by simp
next
  case (cancel b t s)
  then show ?thesis using svc.cancel_ok_step(4,5) [OF ok cancel(3)] c by simp
next
  case (restart r ec b t w)
  then show ?thesis using Timer_Start_cancelled(2) [OF restart(5,4)] n c by simp
next
  case (run_delete r d d' t s)
  then have "tm_state t = Timer_Cancelled" using c svc.cancel_ok_step(4,5) [OF ok] by (cases d) (auto split: bind_splits)
  then show ?thesis using run_delete(1) by simp
next
  case (delete d d' t s)
  then have "tm_state t = Timer_Cancelled" using c svc.cancel_ok_step(4,5) [OF ok] by (cases d) (auto split: bind_splits)
  then show ?thesis using delete(1) by simp
next
  case (expire time n ec r t s)
  then show ?thesis using c by (simp add: StartTimerTask_def)
next
  case (expire_task time n ec r tt t s)
  then show ?thesis using c by (simp add: StartTimerTask_def)
next
  case (return r c' t u s)
  then show ?thesis using OnTaskCancel_ret [OF ok return(2,3,5)] c by simp
next
  case (run r c' b tt t)
  then show ?thesis using cancelled_tasks(3) [OF ok c run(2,4)] c by (simp add: Run_begin_def)
next
  case (task_cancel r b t)
  then show ?thesis using cancelled_tasks(2) [OF ok c task_cancel(2)] by simp
qed (use cancelled_tasks(1) [OF ok c] c in \<open>auto\<close>)

text \<open>
  C16. \<open>Cancel\<close> keeps its promise: after it has returned true no handler is called until the timer is started again, even
  if the task of the timer was already running or its wait had already completed. It returns false only for a timer that
  has fired.
\<close>

theorem timer_cancel_silences:
  assumes "tm_reach z" "Timer_Cancel TaskScheduler (z_t z) (z_s z) = Some (b, t, s)"
  shows "b = (tm_state (z_t z) \<noteq> Timer_Fired) \<and> (b \<longrightarrow> (\<forall>z'. tm_steps\<^sup>*\<^sup>* (z\<lparr>z_t := t, z_s := s, z_mine := {r \<in> z_mine z. phase_of s r \<noteq> Gone}\<rparr>) z' \<longrightarrow>
    tm_seq_no (z_t z') = tm_seq_no (z_t z) \<longrightarrow> z_calls z' = z_calls z))"
proof -
  have ok: "timer_ok phase_of svc_ok z" by (rule tmi.holds [OF assms(1)])
  note e = svc.cancel_ok_step [OF ok assms(2)]
  define z1 where "z1 = z\<lparr>z_t := t, z_s := s, z_mine := {r \<in> z_mine z. phase_of s r \<noteq> Gone}\<rparr>"
  have z1: "timer_ok phase_of svc_ok z1" "tm_seq_no (z_t z1) = tm_seq_no (z_t z)" "z_calls z1 = z_calls z" "b \<Longrightarrow> tm_state (z_t z1) = Timer_Cancelled"
    using e(1,2,5) by (simp_all add: z1_def same_timer_def)
  have "timer_ok phase_of svc_ok z' \<and> tm_seq_no (z_t z) \<le> tm_seq_no (z_t z') \<and>
      (tm_seq_no (z_t z') = tm_seq_no (z_t z) \<longrightarrow> tm_state (z_t z') = Timer_Cancelled \<and> z_calls z' = z_calls z)"
    if "tm_steps\<^sup>*\<^sup>* z1 z'" b for z'
    using that(1)
  proof (induction rule: rtranclp_induct)
    case base
    show ?case using z1 that(2) by simp
  next
    case (step x y)
    then have x: "timer_ok phase_of svc_ok x" "tm_seq_no (z_t z) \<le> tm_seq_no (z_t x)"
      "tm_seq_no (z_t x) = tm_seq_no (z_t z) \<Longrightarrow> tm_state (z_t x) = Timer_Cancelled \<and> z_calls x = z_calls z" by blast+
    show ?case using seq_mono [OF step(2) x(1)] cancelled_step [OF step(2) x(1)] svc.tm_step_ok [OF step(2) x(1)] x(2,3) by fastforce
  qed
  then show ?thesis using e(4) unfolding z1_def by blast
qed

text \<open>
  C18. A cancellation can be undone by the timer's own task. When the handler asks for a restart the task first resets the
  timer and then starts it, under two separate locks. A \<open>Cancel\<close> by another thread in between returns true, which means that no handler will be
  called, and yet the task then starts the timer: it runs with the same handler and its wait is pending.
\<close>

theorem timer_cancel_overridden:
  assumes "tm_reach z" "r \<in> z_mine z" "z_pc z r = T_after True" "z_ref z" "tm_state (z_t z) \<noteq> Timer_Fired" "0 \<le> tm_time (z_t z)"
    "tm_seq_no (z_t z) + 1 < 2 ^ 32"
  shows "\<exists>t s z1 z2. Timer_Cancel TaskScheduler (z_t z) (z_s z) = Some (True, t, s) \<and> tm_steps z z1 \<and> z_t z1 = t \<and> tm_steps z1 z2 \<and>
    tm_state (z_t z2) = Timer_Running \<and> tm_handler (z_t z2) = tm_handler (z_t z) \<and>
    (tm_time (z_t z), tm_seq_no (z_t z2)) \<in> set (z_waits z2)"
proof -
  have ok: "timer_ok phase_of svc_ok z" by (rule tmi.holds [OF assms(1)])
  obtain t s where c: "Timer_Cancel TaskScheduler (z_t z) (z_s z) = Some (True, t, s)" using svc.Timer_Cancel_effect [OF ok] assms(5) by auto
  note e = svc.cancel_ok_step [OF ok c]
  have k: "tm_timer_task (z_t z) \<noteq> Some r" "phase_of (z_s z) r = Running False" using timer_okD(2) [OF ok assms(2)] assms(3) by (simp_all add: task_ok_def)
  have t: "tm_time t = tm_time (z_t z)" "tm_handler t = tm_handler (z_t z)" "tm_seq_no t = tm_seq_no (z_t z)" "tm_state t = Timer_Cancelled"
    using c assms(5) e(2,5) by (auto simp: Timer_Cancel_def same_timer_def split: option.splits bind_splits)
  define z1 where "z1 = z\<lparr>z_t := t, z_s := s, z_mine := {r \<in> z_mine z. phase_of s r \<noteq> Gone}\<rparr>"
  have s1: "tm_steps z z1" unfolding z1_def by (rule tm_step.cancel [OF assms(4) c])
  have r1: "r \<in> z_mine z1" using e(3) [OF assms(2) k(1)] k(2) assms(2) by (simp add: z1_def)
  define u where "u = t\<lparr>tm_seq_no := tm_seq_no t + 1, tm_state := Timer_Running\<rparr>"
  have st: "Timer_Start False (tm_time t) (tm_handler t) (tm_error_handler t) t = (True, u, Some (tm_time t, tm_seq_no u))"
    using t assms(6,7) by (simp add: Timer_Start_def Let_def u_def)
  define z2 where "z2 = z1\<lparr>z_t := u, z_waits := z_waits z1 @ armed (Some (tm_time t, tm_seq_no u)), z_pc := (z_pc z1)(r := T_ret)\<rparr>"
  have "tm_steps z1 z2" unfolding z2_def
    by (rule tm_step.restart [OF r1]) (use st assms(3,7) t(3) in \<open>simp_all add: z1_def\<close>)
  moreover have "tm_state (z_t z2) = Timer_Running" "tm_handler (z_t z2) = tm_handler (z_t z)" "(tm_time (z_t z), tm_seq_no (z_t z2)) \<in> set (z_waits z2)"
    using t by (simp_all add: z2_def u_def armed_def)
  moreover have "z_t z1 = t" by (simp add: z1_def)
  ultimately show ?thesis using c s1 by blast
qed

section \<open>A run of the timer\<close>

text \<open>
  A new timer is started, its wait completes, the task runs at once and the handler asks for a restart; the task is
  between \<open>OnTaskCancel\<close> and \<open>Start\<close>.
\<close>

definition tm_demo :: "sched tms" where
  "tm_demo = \<lparr>z_t = mk_Timer 1 0 False, z_s = mk_TaskScheduler, z_waits = [], z_mine = {}, z_task = (\<lambda>_. \<lparr>tt_timer = False, tt_ec = Success\<rparr>),
     z_pc = (\<lambda>_. T_ret), z_delete = None, z_ref = True, z_calls = []\<rparr>"

definition tm_started :: "sched tms" where
  "tm_started = tm_demo\<lparr>z_t := (z_t tm_demo)\<lparr>tm_time := 100, tm_handler := Some 7, tm_seq_no := 1, tm_error_handler := None,
     tm_state := Timer_Running\<rparr>, z_waits := [(100, 1)]\<rparr>"

lemma tm_started_reach: "tm_reach tm_started"
proof -
  have "tm_init tm_demo" unfolding tm_init_def tm_demo_def
    by (intro conjI exI [of _ 1] exI [of _ 0] exI [of _ False]) (simp_all add: reachable.initial)
  then have r: "tm_reach tm_demo" by (rule initial)
  have "Timer_Start False 100 (Some 7) None (z_t tm_demo) = (True, z_t tm_started, Some (100, 1))"
    by (simp add: Timer_Start_def Let_def tm_demo_def tm_started_def mk_Timer_def)
  then have "tm_steps tm_demo (tm_demo\<lparr>z_t := z_t tm_started, z_waits := z_waits tm_demo @ armed (Some (100, 1))\<rparr>)"
    by (intro tm_step.start [where b = True]) (simp_all add: tm_demo_def mk_Timer_def)
  then show ?thesis using later [OF r] by (simp add: tm_started_def tm_demo_def armed_def)
qed

lemma tm_demo_run:
  "\<exists>z. tm_reach z \<and> z_mine z = {0} \<and> z_pc z 0 = T_after True \<and> z_ref z \<and> tm_state (z_t z) = Timer_Init \<and> tm_time (z_t z) = 100 \<and>
     tm_seq_no (z_t z) = 1 \<and> tm_handler (z_t z) = Some 7 \<and> z_calls z = [(False, Some 7)]"
proof -
  obtain s where s: "Enqueue 0 (new_Task 0 1 0 mk_TaskScheduler) = Some s" "phase_of s = (\<lambda>_. Gone)(0 := Running False)"
    using first_runs [of 1 0 0] by auto
  define t1 where "t1 = (z_t tm_started)\<lparr>tm_timer_task := Some 0\<rparr>"
  define tt where "tt = \<lparr>tt_timer = True, tt_ec = Success\<rparr>"
  define z1 where "z1 = tm_started\<lparr>z_t := t1, z_s := s, z_waits := [], z_mine := {0}, z_task := (z_task tm_started)(0 := tt), z_pc := (z_pc tm_started)(0 := T_start)\<rparr>"
  have st: "StartTimerTask TaskScheduler 0 100 1 Success (z_t tm_started) (z_s tm_started) = Some (Some tt, t1, s)"
    using s(1) by (simp add: StartTimerTask_def tm_started_def tm_demo_def mk_Timer_def TaskScheduler_def cpp_assert_def t1_def tt_def)
  have "tm_steps tm_started (tm_started\<lparr>z_t := t1, z_s := s, z_waits := remove1 (100, 1) (z_waits tm_started),
      z_mine := insert 0 (z_mine tm_started), z_task := (z_task tm_started)(0 := tt), z_pc := (z_pc tm_started)(0 := T_start)\<rparr>)"
    by (rule tm_step.expire_task [OF _ _ _ _ st]) (simp_all add: tm_started_def tm_demo_def seq_room_def phase_of_def mk_TaskScheduler_def)
  then have r1: "tm_reach z1" using later [OF tm_started_reach] by (simp add: z1_def tm_started_def tm_demo_def)
  define z2 where "z2 = z1\<lparr>z_t := t1\<lparr>tm_state := Timer_Fired\<rparr>, z_task := (z_task z1)(0 := tt), z_pc := (z_pc z1)(0 := T_handler)\<rparr>"
  have "tm_steps z1 z2" using tm_step.run [of 0 z1 phase_of False True tt "t1\<lparr>tm_state := Timer_Fired\<rparr>" TaskScheduler seq_room sched_step] s(2)
    by (simp add: z1_def z2_def Run_begin_def)
  then have r2: "tm_reach z2" by (rule later [OF r1])
  define z3 where "z3 = z2\<lparr>z_calls := z_calls z2 @ [(False, Some 7)], z_pc := (z_pc z2)(0 := T_done True)\<rparr>"
  have "tm_steps z2 z3" unfolding z3_def
    by (rule tm_step.handler) (simp_all add: z2_def z1_def tt_def t1_def tm_started_def Run_handler_def)
  then have r3: "tm_reach z3" by (rule later [OF r2])
  define z4 where "z4 = z3\<lparr>z_t := (z_t z3)\<lparr>tm_timer_task := None, tm_state := Timer_Init\<rparr>, z_pc := (z_pc z3)(0 := T_after True)\<rparr>"
  have "tm_steps z3 z4" unfolding z4_def
    by (rule tm_step.task_cancel) (simp_all add: OnTaskCancel_def z3_def z2_def z1_def tt_def t1_def)
  then have "tm_reach z4" by (rule later [OF r3])
  then show ?thesis by (intro exI [of _ z4]) (simp add: z4_def z3_def z2_def z1_def t1_def tm_started_def tm_demo_def)
qed

theorem timer_never_aborts_witness:
  "\<exists>z. tm_reach z \<and> z_pc z 0 = T_after True \<and> Timer_Cancel TaskScheduler (z_t z) (z_s z) \<noteq> None \<and> tt_timer (z_task z 0)"
proof -
  obtain z where z: "tm_reach z" "z_mine z = {0}" "z_pc z 0 = T_after True" using tm_demo_run by blast
  then show ?thesis using timer_never_aborts [OF z(1)] by (intro exI [of _ z]) simp
qed

theorem timer_running_expires_witness:
  "\<exists>t s. StartTimerTask TaskScheduler 0 100 1 Success (z_t tm_started) (z_s tm_started) = Some (Some \<lparr>tt_timer = True, tt_ec = Success\<rparr>, t, s) \<and>
     Run_handler \<lparr>tt_timer = True, tt_ec = Success\<rparr> t = (False, Some 7)"
proof -
  have z: "tm_state (z_t tm_started) = Timer_Running" "z_mine tm_started = {}" "z_waits tm_started = [(100, 1)]" "tm_seq_no (z_t tm_started) = 1"
    "seq_room (z_s tm_started)" "phase_of (z_s tm_started) 0 = Gone" "tm_handler (z_t tm_started) = Some 7"
    by (simp_all add: tm_started_def tm_demo_def seq_room_def phase_of_def mk_TaskScheduler_def)
  note e = timer_running_expires [OF tm_started_reach z(1), unfolded z(2-4) bex_empty simp_thms]
  from e obtain time where t: "(time, 1) \<in> set [(100 :: int, 1 :: nat)]" and a: "\<forall>ec r. ec \<noteq> Operation_aborted \<longrightarrow> seq_room (z_s tm_started) \<longrightarrow>
    phase_of (z_s tm_started) r = Gone \<longrightarrow>
    (\<exists>t s. StartTimerTask TaskScheduler r time 1 ec (z_t tm_started) (z_s tm_started) = Some (Some \<lparr>tt_timer = True, tt_ec = ec\<rparr>, t, s) \<and>
       tm_timer_task t = Some r \<and> (phase_of s r = Waiting \<or> phase_of s r = Running False) \<and>
       Run_handler \<lparr>tt_timer = True, tt_ec = ec\<rparr> t =
         (if ec \<noteq> Success \<and> tm_error_handler (z_t tm_started) \<noteq> None then (True, tm_error_handler (z_t tm_started)) else (False, tm_handler (z_t tm_started))))"
    by (elim exE conjE)
  have "time = 100" using t by simp
  with a [rule_format, of Success 0] z(5,6) obtain t s where
    "StartTimerTask TaskScheduler 0 100 1 Success (z_t tm_started) (z_s tm_started) = Some (Some \<lparr>tt_timer = True, tt_ec = Success\<rparr>, t, s)"
    "Run_handler \<lparr>tt_timer = True, tt_ec = Success\<rparr> t = (False, tm_handler (z_t tm_started))" by auto
  then show ?thesis using z(7) by (intro exI [of _ t] exI [of _ s]) simp
qed

theorem timer_cancel_silences_witness:
  "\<exists>t s z'. Timer_Cancel TaskScheduler (z_t tm_started) (z_s tm_started) = Some (True, t, s) \<and> tm_state t = Timer_Cancelled \<and>
     z' = tm_started\<lparr>z_t := t, z_s := s, z_mine := {}\<rparr> \<and> z_calls z' = z_calls tm_started"
proof -
  define t where "t = (z_t tm_started)\<lparr>tm_state := Timer_Cancelled\<rparr>"
  have c: "Timer_Cancel TaskScheduler (z_t tm_started) (z_s tm_started) = Some (True, t, z_s tm_started)"
    by (simp add: Timer_Cancel_def t_def tm_started_def tm_demo_def mk_Timer_def)
  define z' where "z' = tm_started\<lparr>z_t := t, z_s := z_s tm_started, z_mine := {r \<in> z_mine tm_started. phase_of (z_s tm_started) r \<noteq> Gone}\<rparr>"
  have "tm_seq_no (z_t z') = tm_seq_no (z_t tm_started)" by (simp add: z'_def t_def)
  then have "z_calls z' = z_calls tm_started" using timer_cancel_silences [OF tm_started_reach c, folded z'_def] by blast
  moreover have "z' = tm_started\<lparr>z_t := t, z_s := z_s tm_started, z_mine := {}\<rparr>" by (simp add: z'_def tm_started_def tm_demo_def)
  ultimately show ?thesis using c by (intro exI [of _ t] exI [of _ "z_s tm_started"] exI [of _ z']) (simp add: t_def)
qed

theorem timer_cancel_overridden_witness:
  "\<exists>z z2. tm_reach z \<and> z_calls z = [(False, Some 7)] \<and> tm_steps\<^sup>*\<^sup>* z z2 \<and> tm_state (z_t z2) = Timer_Running \<and> tm_handler (z_t z2) = Some 7"
proof -
  obtain z where z: "tm_reach z" "z_mine z = {0}" "z_pc z 0 = T_after True" "z_ref z" "tm_state (z_t z) = Timer_Init" "tm_time (z_t z) = 100"
    "tm_seq_no (z_t z) = 1" "tm_handler (z_t z) = Some 7" "z_calls z = [(False, Some 7)]" using tm_demo_run by blast
  from timer_cancel_overridden [OF z(1) _ z(3,4)] z(2,5-7) obtain z1 z2 where s: "tm_steps z z1" "tm_steps z1 z2" "tm_state (z_t z2) = Timer_Running"
    "tm_handler (z_t z2) = tm_handler (z_t z)" by auto
  moreover have "tm_steps\<^sup>*\<^sup>* z z2" by (rule rtranclp.rtrancl_into_rtrancl [of tm_steps, OF r_into_rtranclp [of tm_steps, OF s(1)] s(2)])
  ultimately show ?thesis using z(1,8,9) by auto
qed

end
