(* ===== verification/Thrift_Transport.thy ===== *)
theory Thrift_Transport
  imports Prelude
begin

text \<open>
  The transports of the C library under \<open>src/sandesh/library/c/transport\<close>: the memory buffer
  and the fake transport that only counts.  Every operation is an \<open>option\<close>: \<open>None\<close> where the code
  reads or writes outside an allocation, uses a null pointer or never returns.  The locales
  \<open>sink\<close>, \<open>source\<close> and \<open>channel\<close> are what the protocol relies on; the memory buffer is interpreted
  as a channel and the fake transport as a sink.  Logging has no effect on the state and is
  left out.
\<close>

subsection \<open>Memory\<close>

text \<open>
  The allocator is an argument: asked for \<open>n\<close> bytes it fails or hands out a block whose first
  contents are arbitrary.  \<open>os_malloc\<close> and \<open>os_realloc\<close> give a block of exactly \<open>n\<close> bytes;
  reallocation keeps the old contents and shrinking a block to nothing is undefined.  \<open>peek\<close>
  and \<open>poke\<close> are \<open>memcpy\<close> out of and into a block, undefined outside it.
\<close>

type_synonym byte = "8 word"
type_synonym int32 = "32 word"
type_synonym heap = "nat \<Rightarrow> byte list option"

definition os_malloc :: "heap \<Rightarrow> nat \<Rightarrow> byte list option" where
  "os_malloc mem n = map_option (\<lambda>b. take n (b @ replicate n 0)) (mem n)"

definition contents :: "byte list option \<Rightarrow> byte list" where
  "contents p = (case p of None \<Rightarrow> [] | Some b \<Rightarrow> b)"

definition os_realloc :: "heap \<Rightarrow> byte list option \<Rightarrow> nat \<Rightarrow> byte list option option" where
  "os_realloc mem p n =
     (if n = 0 then None
      else Some (map_option (\<lambda>b. take n (contents p) @ drop (length (contents p)) b)
                            (os_malloc mem n)))"

definition peek :: "byte list \<Rightarrow> nat \<Rightarrow> nat \<Rightarrow> byte list option" where
  "peek b i n = (if i + n \<le> length b then Some (take n (drop i b)) else None)"

definition poke :: "byte list \<Rightarrow> nat \<Rightarrow> byte list \<Rightarrow> byte list option" where
  "poke b i xs = (if i + length xs \<le> length b
                  then Some (take i b @ xs @ drop (i + length xs) b) else None)"

definition provides :: "heap \<Rightarrow> bool" where
  "provides mem = (\<forall>n. mem n \<noteq> None)"

lemma length_os_malloc: "os_malloc mem n = Some b \<Longrightarrow> length b = n"
  by (auto simp: os_malloc_def)

lemma os_malloc_provides: "provides mem \<Longrightarrow> \<exists>b. os_malloc mem n = Some b \<and> length b = n"
proof -
  assume "provides mem"
  then obtain b where "mem n = Some b"
    unfolding provides_def by (meson not_Some_eq)
  then show ?thesis
    by (simp add: os_malloc_def)
qed

lemma length_poke: "poke b i xs = Some b' \<Longrightarrow> length b' = length b"
  by (auto simp: poke_def split: if_splits)

subsection \<open>The transport interface\<close>

text \<open>
  \<open>*error\<close> is written by the transports and the protocol and read by neither; it travels with
  the transport.  A transport is its two operations.
\<close>

abbreviation (input) THRIFT_TRANSPORT_ERROR_SEND :: int32 where
  "THRIFT_TRANSPORT_ERROR_SEND \<equiv> 4"

abbreviation (input) THRIFT_TRANSPORT_ERROR_RECEIVE :: int32 where
  "THRIFT_TRANSPORT_ERROR_RECEIVE \<equiv> 5"

record 't io =
  dev :: 't
  err :: int32

record 't ThriftTransport =
  t_read :: "uint32 \<Rightarrow> 't io \<Rightarrow> (int32 \<times> byte list \<times> 't io) option"
  t_write :: "byte list \<Rightarrow> uint32 \<Rightarrow> 't io \<Rightarrow> (byte \<times> 't io) option"

definition thrift_transport_read ::
    "'t ThriftTransport \<Rightarrow> uint32 \<Rightarrow> 't io \<Rightarrow> (int32 \<times> byte list \<times> 't io) option" where
  "thrift_transport_read tr len w = t_read tr len w"

definition thrift_transport_write ::
    "'t ThriftTransport \<Rightarrow> byte list \<Rightarrow> uint32 \<Rightarrow> 't io \<Rightarrow> (byte \<times> 't io) option" where
  "thrift_transport_write tr bs len w = t_write tr bs len w"

subsection \<open>The memory buffer\<close>

record ThriftMemoryBuffer =
  buf :: "byte list option"
  buf_roffset :: uint32
  buf_woffset :: uint32
  buf_size :: uint32
  owner :: bool

abbreviation (input) ENOMEM :: int32 where
  "ENOMEM \<equiv> 12"

definition available_read :: "ThriftMemoryBuffer \<Rightarrow> uint32" where
  "available_read t = buf_woffset t - buf_roffset t"

definition available_write :: "ThriftMemoryBuffer \<Rightarrow> uint32" where
  "available_write t = buf_size t - buf_woffset t"

partial_function (option) grow :: "ThriftMemoryBuffer \<Rightarrow> uint32 \<Rightarrow> uint32 \<Rightarrow> uint32 \<Rightarrow> uint32 option" where
  "grow t len new_size avail =
     (if len > avail
      then let new_size = (if new_size > 0 then new_size * 2 else 1);
               avail = available_write t + (new_size - buf_size t)
           in grow t len new_size avail
      else Some new_size)"

definition ensure_can_write ::
    "heap \<Rightarrow> ThriftMemoryBuffer \<Rightarrow> uint32 \<Rightarrow> (int32 \<times> ThriftMemoryBuffer) option" where
  "ensure_can_write mem t len =
     (if \<not> owner t then Some (ENOMEM, t)
      else do {
        new_size \<leftarrow> grow t len (buf_size t) (available_write t);
        new_buf \<leftarrow> os_realloc mem (buf t) (unat new_size);
        case new_buf of
          None \<Rightarrow> Some (ENOMEM, t)
        | Some b \<Rightarrow> Some (0, t\<lparr>buf_size := new_size, buf := Some b\<rparr>)
      })"

definition thrift_memory_buffer_wrote_bytes ::
    "ThriftMemoryBuffer \<Rightarrow> uint32 \<Rightarrow> int32 \<times> ThriftMemoryBuffer" where
  "thrift_memory_buffer_wrote_bytes t len =
     (if len > available_write t then (ENOMEM, t)
      else (0, t\<lparr>buf_woffset := buf_woffset t + len\<rparr>))"

definition thrift_memory_buffer_read ::
    "uint32 \<Rightarrow> ThriftMemoryBuffer io \<Rightarrow> (int32 \<times> byte list \<times> ThriftMemoryBuffer io) option" where
  "thrift_memory_buffer_read len w =
     (let t = dev w in
      if available_read t < len
      then Some (-1, [], w\<lparr>err := THRIFT_TRANSPORT_ERROR_RECEIVE\<rparr>)
      else do {
        b \<leftarrow> buf t;
        bs \<leftarrow> peek b (unat (buf_roffset t)) (unat len);
        let t = t\<lparr>buf_roffset := buf_roffset t + len\<rparr>;
        let t = (if buf_roffset t = buf_woffset t
                 then t\<lparr>buf_roffset := 0, buf_woffset := 0\<rparr> else t);
        Some (len, bs, w\<lparr>dev := t\<rparr>)
      })"

definition thrift_memory_buffer_read_end :: "ThriftMemoryBuffer io \<Rightarrow> byte" where
  "thrift_memory_buffer_read_end w = 1"

definition thrift_memory_buffer_write ::
    "heap \<Rightarrow> byte list \<Rightarrow> uint32 \<Rightarrow> ThriftMemoryBuffer io \<Rightarrow> (byte \<times> ThriftMemoryBuffer io) option" where
  "thrift_memory_buffer_write mem src len w =
     do {
       (e, t) \<leftarrow> (if len > available_write (dev w) then ensure_can_write mem (dev w) len
                   else Some (0, dev w));
       if e \<noteq> 0 then Some (0, w\<lparr>dev := t, err := THRIFT_TRANSPORT_ERROR_SEND\<rparr>)
       else do {
         bs \<leftarrow> peek src 0 (unat len);
         b \<leftarrow> buf t;
         b \<leftarrow> poke b (unat (buf_woffset t)) bs;
         Some (1, w\<lparr>dev := t\<lparr>buf := Some b, buf_woffset := buf_woffset t + len\<rparr>\<rparr>)
       }
     }"

definition thrift_memory_buffer_transport_init :: "heap \<Rightarrow> ThriftMemoryBuffer ThriftTransport" where
  "thrift_memory_buffer_transport_init mem =
     \<lparr>t_read = thrift_memory_buffer_read, t_write = thrift_memory_buffer_write mem\<rparr>"

definition thrift_memory_buffer_init ::
    "heap \<Rightarrow> byte list option \<Rightarrow> uint32 \<Rightarrow> ThriftMemoryBuffer" where
  "thrift_memory_buffer_init mem b len =
     (case b of
        None \<Rightarrow> \<lparr>buf = os_malloc mem (unat len), buf_roffset = 0, buf_woffset = 0,
                 buf_size = len, owner = True\<rparr>
      | Some b \<Rightarrow> \<lparr>buf = Some b, buf_roffset = 0, buf_woffset = 0,
                   buf_size = len, owner = False\<rparr>)"

definition thrift_memory_buffer_finalize :: "ThriftMemoryBuffer \<Rightarrow> ThriftMemoryBuffer" where
  "thrift_memory_buffer_finalize t =
     t\<lparr>buf := None, buf_size := 0, buf_roffset := 0, buf_woffset := 0\<rparr>"

subsection \<open>The fake transport\<close>

text \<open>It keeps nothing, so its state is the unit type.\<close>

definition thrift_fake_transport_read :: "uint32 \<Rightarrow> unit io \<Rightarrow> (int32 \<times> byte list \<times> unit io) option" where
  "thrift_fake_transport_read len w = Some (-1, [], w)"

definition thrift_fake_transport_write :: "byte list \<Rightarrow> uint32 \<Rightarrow> unit io \<Rightarrow> (byte \<times> unit io) option" where
  "thrift_fake_transport_write src len w = Some (1, w)"

definition thrift_fake_transport_init :: "unit ThriftTransport" where
  "thrift_fake_transport_init =
     \<lparr>t_read = thrift_fake_transport_read, t_write = thrift_fake_transport_write\<rparr>"

subsection \<open>What a transport promises\<close>

text \<open>
  A sink accepts bytes: while there is room for them a write succeeds, reports nothing and
  leaves room for the rest.  \<open>wrote t bs t'\<close> records what was sent between two states.  A source
  hands out the bytes \<open>pending\<close> in it, in order, and reports when it has too few.  A channel is
  both, and what is sent is appended to what is pending.
\<close>

locale sink =
  fixes tr :: "'t ThriftTransport"
    and ok :: "'t \<Rightarrow> bool"
    and room :: "'t \<Rightarrow> nat \<Rightarrow> bool"
    and wrote :: "'t \<Rightarrow> byte list \<Rightarrow> 't \<Rightarrow> bool"
  assumes put: "ok t \<Longrightarrow> room t (length bs) \<Longrightarrow> length bs < 2 ^ 31 \<Longrightarrow>
      \<exists>t'. t_write tr bs (word_of_nat (length bs)) \<lparr>dev = t, err = e\<rparr> = Some (1, \<lparr>dev = t', err = e\<rparr>) \<and>
           ok t' \<and> wrote t bs t' \<and> (\<forall>n. room t (length bs + n) \<longrightarrow> room t' n)"
    and wrote_nil: "ok t \<Longrightarrow> wrote t [] t"
    and wrote_append: "wrote t as t' \<Longrightarrow> wrote t' bs t'' \<Longrightarrow> wrote t (as @ bs) t''"
    and room_less: "room t n \<Longrightarrow> m \<le> n \<Longrightarrow> room t m"

locale source =
  fixes tr :: "'t ThriftTransport"
    and ok :: "'t \<Rightarrow> bool"
    and pending :: "'t \<Rightarrow> byte list"
  assumes get: "ok t \<Longrightarrow> pending t = bs @ rest \<Longrightarrow> length bs < 2 ^ 31 \<Longrightarrow>
      \<exists>t'. t_read tr (word_of_nat (length bs)) \<lparr>dev = t, err = e\<rparr> =
             Some (word_of_nat (length bs), bs, \<lparr>dev = t', err = e\<rparr>) \<and> ok t' \<and> pending t' = rest"
    and short: "ok t \<Longrightarrow> length (pending t) < unat len \<Longrightarrow>
      t_read tr len \<lparr>dev = t, err = e\<rparr> =
        Some (-1, [], \<lparr>dev = t, err = THRIFT_TRANSPORT_ERROR_RECEIVE\<rparr>)"

locale channel = sink tr ok room "\<lambda>t bs t'. pending t' = pending t @ bs" + source tr ok pending
  for tr :: "'t ThriftTransport" and ok room pending

subsection \<open>The memory buffer is a channel\<close>

definition mb_ok :: "ThriftMemoryBuffer \<Rightarrow> bool" where
  "mb_ok t = (unat (buf_size t) \<le> length (contents (buf t)) \<and> buf t \<noteq> None \<and>
              (owner t \<longrightarrow> length (contents (buf t)) = unat (buf_size t)) \<and>
              buf_roffset t \<le> buf_woffset t \<and> buf_woffset t \<le> buf_size t)"

definition mb_pending :: "ThriftMemoryBuffer \<Rightarrow> byte list" where
  "mb_pending t = drop (unat (buf_roffset t)) (take (unat (buf_woffset t)) (contents (buf t)))"

definition mb_room :: "heap \<Rightarrow> ThriftMemoryBuffer \<Rightarrow> nat \<Rightarrow> bool" where
  "mb_room mem t n =
     (unat (buf_woffset t) + n \<le> unat (buf_size t) \<or>
      owner t \<and> provides mem \<and> unat (buf_woffset t) + n \<le> 2 ^ 31)"

lemma unat_lt_u32: "unat (a :: uint32) < 2 ^ 32"
  using unsigned_less [of a] by simp

lemma unat_len: "n < 2 ^ 32 \<Longrightarrow> unat (word_of_nat n :: uint32) = n"
  by (simp add: unsigned_of_nat take_bit_nat_eq_self)

lemma unat_diff_le: "(a :: uint32) \<le> b \<Longrightarrow> unat (b - a) = unat b - unat a"
  by (simp add: unat_sub)

lemma unat_add_small: "unat (a :: uint32) + unat b < 2 ^ 32 \<Longrightarrow> unat (a + b) = unat a + unat b"
  by (rule unat_add_lem [THEN iffD1]) simp

lemma length_mb_pending: "mb_ok t \<Longrightarrow> length (mb_pending t) = unat (available_read t)"
  by (auto simp: mb_ok_def mb_pending_def available_read_def unat_diff_le word_le_nat_alt)

lemma unat_available_write:
  assumes "mb_ok t"
  shows "unat (buf_woffset t) + unat (available_write t) = unat (buf_size t)"
  using assms by (simp add: mb_ok_def available_write_def unat_diff_le word_le_nat_alt)

lemma avail_grow: "available_write t + (s - buf_size t) = s - buf_woffset t"
  by (simp add: available_write_def)

lemma grow_finds:
  assumes "unat (buf_woffset t) + unat len \<le> 2 ^ 31" and "buf_woffset t \<le> s"
  shows "\<exists>s'. grow t len s (s - buf_woffset t) = Some s' \<and> s \<le> s' \<and>
              unat (buf_woffset t) + unat len \<le> unat s'"
  using assms(2)
proof (induction "2 ^ 32 - unat s" arbitrary: s rule: less_induct)
  case less
  show ?case
  proof (cases "len > s - buf_woffset t")
    case False
    then have "unat len \<le> unat s - unat (buf_woffset t)"
      using less.prems by (simp add: word_le_nat_alt not_less unat_diff_le)
    then show ?thesis
      using False less.prems by (subst grow.simps) (simp add: word_le_nat_alt)
  next
    case True
    define s1 where "s1 = (if s > 0 then s * 2 else 1)"
    have lt: "unat s < 2 ^ 31"
      using True less.prems assms(1) by (simp add: word_less_nat_alt unat_diff_le word_le_nat_alt)
    have dbl: "unat (s * 2) = unat s * 2"
      using lt unat_mult_lem [of s 2] by simp
    have up: "unat s < unat s1"
      using dbl by (auto simp: s1_def word_less_nat_alt)
    then have le: "s < s1"
      by (simp add: word_less_nat_alt)
    have "2 ^ 32 - unat s1 < 2 ^ 32 - unat s"
      using up lt by (intro diff_less_mono2) simp_all
    moreover have "buf_woffset t \<le> s1"
      using le less.prems by simp
    ultimately obtain s' where s': "grow t len s1 (s1 - buf_woffset t) = Some s'" "s1 \<le> s'"
        "unat (buf_woffset t) + unat len \<le> unat s'"
      using less.hyps [of s1] by blast
    have "grow t len s (s - buf_woffset t) = grow t len s1 (s1 - buf_woffset t)"
      using True by (subst grow.simps) (simp add: s1_def avail_grow Let_def)
    then show ?thesis
      using s' le by auto
  qed
qed

lemma ensure_cases:
  assumes "mb_ok t" and "unat (buf_woffset t) + unat len \<le> 2 ^ 31" and "len > available_write t"
  shows "(\<exists>t'. ensure_can_write mem t len = Some (0, t') \<and> mb_ok t' \<and> mb_pending t' = mb_pending t \<and>
               owner t' \<and> buf_woffset t' = buf_woffset t \<and>
               unat (buf_woffset t) + unat len \<le> unat (buf_size t')) \<or>
         ensure_can_write mem t len = Some (ENOMEM, t) \<and> \<not> (owner t \<and> provides mem)"
proof (cases "owner t")
  case False
  then show ?thesis
    by (simp add: ensure_can_write_def)
next
  case True
  obtain s where s: "grow t len (buf_size t) (available_write t) = Some s" "buf_size t \<le> s"
      "unat (buf_woffset t) + unat len \<le> unat s"
    using grow_finds [of t len "buf_size t"] assms(1,2) by (auto simp: mb_ok_def available_write_def)
  have "0 < unat len"
    using assms(3) by (simp add: word_less_nat_alt)
  then have pos: "0 < unat s"
    using s(3) by simp
  have le: "length (contents (buf t)) \<le> unat s"
    using s(2) assms(1) True by (simp add: mb_ok_def word_le_nat_alt)
  show ?thesis
  proof (cases "os_malloc mem (unat s)")
    case None
    then have "\<not> provides mem"
      using os_malloc_provides [of mem "unat s"] by auto
    then show ?thesis
      using None s(1) pos True by (simp add: ensure_can_write_def os_realloc_def)
  next
    case (Some b)
    define b' where "b' = contents (buf t) @ drop (length (contents (buf t))) b"
    have "os_realloc mem (buf t) (unat s) = Some (Some b')"
      using Some pos le by (simp add: os_realloc_def b'_def)
    moreover have "length b' = unat s"
      using length_os_malloc [OF Some] le by (simp add: b'_def)
    moreover have "take (unat (buf_woffset t)) b' = take (unat (buf_woffset t)) (contents (buf t))"
      using assms(1) by (auto simp: b'_def mb_ok_def word_le_nat_alt)
    ultimately show ?thesis
      using s assms(1) True
      by (auto simp: ensure_can_write_def mb_ok_def mb_pending_def contents_def)
  qed
qed

lemma write_fits:
  assumes "mb_ok t" and "unat (buf_woffset t) + length bs \<le> unat (buf_size t)"
  shows "\<exists>b'. thrift_memory_buffer_write mem bs (word_of_nat (length bs)) \<lparr>dev = t, err = e\<rparr> =
               Some (1, \<lparr>dev = t\<lparr>buf := Some b', buf_woffset := buf_woffset t + word_of_nat (length bs)\<rparr>,
                         err = e\<rparr>) \<and>
             poke (contents (buf t)) (unat (buf_woffset t)) bs = Some b'"
proof -
  have "length bs < 2 ^ 32"
    using assms(2) unat_lt_u32 [of "buf_size t"] by simp
  then have n: "unat (word_of_nat (length bs) :: uint32) = length bs"
    by (rule unat_len)
  have "\<not> word_of_nat (length bs) > available_write t"
    using assms n by (simp add: available_write_def word_less_nat_alt unat_diff_le mb_ok_def)
  moreover obtain b where "buf t = Some b"
    using assms(1) by (auto simp: mb_ok_def)
  moreover have "unat (buf_woffset t) + length bs \<le> length (contents (buf t))"
    using assms by (simp add: mb_ok_def)
  ultimately show ?thesis
    using n by (simp add: thrift_memory_buffer_write_def peek_def poke_def contents_def)
qed

lemma poke_pending:
  assumes "mb_ok t" and "unat (buf_woffset t) + length bs \<le> unat (buf_size t)"
    and "poke (contents (buf t)) (unat (buf_woffset t)) bs = Some b'"
  defines "t' \<equiv> t\<lparr>buf := Some b', buf_woffset := buf_woffset t + word_of_nat (length bs)\<rparr>"
  shows "mb_ok t'" and "mb_pending t' = mb_pending t @ bs"
    and "unat (buf_woffset t') = unat (buf_woffset t) + length bs"
proof -
  have "length bs < 2 ^ 32"
    using assms(2) unat_lt_u32 [of "buf_size t"] by simp
  then have n: "unat (word_of_nat (length bs) :: uint32) = length bs"
    by (rule unat_len)
  have "unat (buf_woffset t) + length bs < 2 ^ 32"
    using assms(2) unat_lt_u32 [of "buf_size t"] by simp
  then have w: "unat (buf_woffset t + word_of_nat (length bs)) = unat (buf_woffset t) + length bs"
    using n by (simp add: unat_add_small)
  then show "unat (buf_woffset t') = unat (buf_woffset t) + length bs"
    by (simp add: t'_def)
  show "mb_ok t'"
    using assms(1-3) w length_poke [OF assms(3)]
    by (simp add: mb_ok_def t'_def word_le_nat_alt contents_def)
  have "take (unat (buf_woffset t) + length bs) b' = take (unat (buf_woffset t)) (contents (buf t)) @ bs"
    using assms(3) by (auto simp: poke_def split: if_splits)
  moreover have "unat (buf_roffset t) \<le> length (take (unat (buf_woffset t)) (contents (buf t)))"
    using assms(1) by (auto simp: mb_ok_def word_le_nat_alt)
  ultimately show "mb_pending t' = mb_pending t @ bs"
    using w by (simp add: mb_pending_def t'_def contents_def)
qed

lemma mb_put:
  assumes "mb_ok t" and "mb_room mem t (length bs)" and "length bs < 2 ^ 31"
  shows "\<exists>t'. thrift_memory_buffer_write mem bs (word_of_nat (length bs)) \<lparr>dev = t, err = e\<rparr> =
                Some (1, \<lparr>dev = t', err = e\<rparr>) \<and>
              mb_ok t' \<and> mb_pending t' = mb_pending t @ bs \<and>
              (\<forall>n. mb_room mem t (length bs + n) \<longrightarrow> mb_room mem t' n)"
proof (cases "unat (buf_woffset t) + length bs \<le> unat (buf_size t)")
  case True
  obtain b' where b': "thrift_memory_buffer_write mem bs (word_of_nat (length bs)) \<lparr>dev = t, err = e\<rparr> =
        Some (1, \<lparr>dev = t\<lparr>buf := Some b', buf_woffset := buf_woffset t + word_of_nat (length bs)\<rparr>, err = e\<rparr>)"
      "poke (contents (buf t)) (unat (buf_woffset t)) bs = Some b'"
    using write_fits [OF assms(1) True] by blast
  note p = poke_pending [OF assms(1) True b'(2)]
  show ?thesis
    using b' p length_poke [OF b'(2)] by (auto simp: mb_room_def contents_def)
next
  case False
  have n: "unat (word_of_nat (length bs) :: uint32) = length bs"
    using assms(3) by (intro unat_len) simp
  have o: "owner t" "provides mem" "unat (buf_woffset t) + length bs \<le> 2 ^ 31"
    using assms(2) False by (auto simp: mb_room_def)
  have more: "word_of_nat (length bs) > available_write t"
    using False n unat_available_write [OF assms(1)] by (simp add: word_less_nat_alt)
  obtain t1 where t1: "ensure_can_write mem t (word_of_nat (length bs)) = Some (0, t1)" "mb_ok t1"
      "mb_pending t1 = mb_pending t" "owner t1"
      "buf_woffset t1 = buf_woffset t" "unat (buf_woffset t) + length bs \<le> unat (buf_size t1)"
    using ensure_cases [OF assms(1) _ more, of mem] o n by auto
  then have fits: "unat (buf_woffset t1) + length bs \<le> unat (buf_size t1)"
    by simp
  obtain b' where b': "thrift_memory_buffer_write mem bs (word_of_nat (length bs)) \<lparr>dev = t1, err = e\<rparr> =
        Some (1, \<lparr>dev = t1\<lparr>buf := Some b', buf_woffset := buf_woffset t1 + word_of_nat (length bs)\<rparr>, err = e\<rparr>)"
      "poke (contents (buf t1)) (unat (buf_woffset t1)) bs = Some b'"
    using write_fits [OF t1(2) fits] by blast
  note p = poke_pending [OF t1(2) fits b'(2)]
  have "\<not> word_of_nat (length bs) > available_write t1"
    using fits n t1(2) by (simp add: available_write_def word_less_nat_alt unat_diff_le mb_ok_def)
  then have "thrift_memory_buffer_write mem bs (word_of_nat (length bs)) \<lparr>dev = t, err = e\<rparr> =
      thrift_memory_buffer_write mem bs (word_of_nat (length bs)) \<lparr>dev = t1, err = e\<rparr>"
    using more t1(1) by (simp add: thrift_memory_buffer_write_def)
  moreover have "mb_room mem (t1\<lparr>buf := Some b', buf_woffset := buf_woffset t1 + word_of_nat (length bs)\<rparr>) k"
    if "mb_room mem t (length bs + k)" for k
    using that False p(3) t1 o length_poke [OF b'(2)] by (auto simp: mb_room_def contents_def)
  ultimately show ?thesis
    using b' p t1 by auto
qed

lemma mb_get:
  assumes "mb_ok t" and "mb_pending t = bs @ rest" and "length bs < 2 ^ 31"
  shows "\<exists>t'. thrift_memory_buffer_read (word_of_nat (length bs)) \<lparr>dev = t, err = e\<rparr> =
                Some (word_of_nat (length bs), bs, \<lparr>dev = t', err = e\<rparr>) \<and>
              mb_ok t' \<and> mb_pending t' = rest"
proof -
  have n: "unat (word_of_nat (length bs) :: uint32) = length bs"
    using assms(3) by (intro unat_len) simp
  have len: "length bs + length rest = unat (buf_woffset t) - unat (buf_roffset t)"
    using length_mb_pending [OF assms(1)] assms(1,2)
    by (simp add: available_read_def unat_diff_le mb_ok_def)
  obtain b where b: "buf t = Some b"
    using assms(1) by (auto simp: mb_ok_def)
  have le: "unat (buf_roffset t) \<le> unat (buf_woffset t)" "unat (buf_woffset t) \<le> length b"
    using assms(1) b by (auto simp: mb_ok_def contents_def word_le_nat_alt)
  have enough: "\<not> available_read t < word_of_nat (length bs)"
    using n len assms(1) by (simp add: available_read_def word_less_nat_alt unat_diff_le mb_ok_def)
  have off: "unat (buf_roffset t) + length bs \<le> unat (buf_woffset t)"
    using len le by linarith
  then have r: "unat (buf_roffset t + word_of_nat (length bs)) = unat (buf_roffset t) + length bs"
    using n unat_lt_u32 [of "buf_woffset t"] by (simp add: unat_add_small)
  have pend: "drop (unat (buf_roffset t)) (take (unat (buf_woffset t)) b) = bs @ rest"
    using assms(2) b by (simp add: mb_pending_def contents_def)
  have "length bs \<le> unat (buf_woffset t) - unat (buf_roffset t)"
    using off by linarith
  then have "take (length bs) (drop (unat (buf_roffset t)) b) =
      take (length bs) (drop (unat (buf_roffset t)) (take (unat (buf_woffset t)) b))"
    by (simp add: drop_take)
  also have "\<dots> = bs"
    by (simp add: pend)
  finally have "take (length bs) (drop (unat (buf_roffset t)) b) = bs" .
  then have pk: "peek b (unat (buf_roffset t)) (length bs) = Some bs"
    using off le by (simp add: peek_def)
  have rest: "drop (unat (buf_roffset t) + length bs) (take (unat (buf_woffset t)) b) = rest"
    using arg_cong [OF pend, of "drop (length bs)"] by (simp add: add.commute)
  show ?thesis
  proof (cases "buf_roffset t + word_of_nat (length bs) = buf_woffset t")
    case True
    then have "rest = []"
      using rest r by simp
    then show ?thesis
      using True n b enough pk assms(1)
      by (simp add: thrift_memory_buffer_read_def mb_ok_def mb_pending_def contents_def Let_def)
  next
    case False
    then show ?thesis
      using n b enough pk assms(1) rest r off
      by (simp add: thrift_memory_buffer_read_def mb_ok_def mb_pending_def contents_def Let_def word_le_nat_alt)
  qed
qed

lemma mb_short:
  assumes "mb_ok t" and "length (mb_pending t) < unat len"
  shows "thrift_memory_buffer_read len \<lparr>dev = t, err = e\<rparr> =
           Some (-1, [], \<lparr>dev = t, err = THRIFT_TRANSPORT_ERROR_RECEIVE\<rparr>)"
  using assms length_mb_pending [OF assms(1)]
  by (simp add: thrift_memory_buffer_read_def word_less_nat_alt)

interpretation mb: channel "thrift_memory_buffer_transport_init mem" mb_ok "mb_room mem" mb_pending
  for mem
  by unfold_locales
    (auto simp: thrift_memory_buffer_transport_init_def mb_put mb_get mb_short, auto simp: mb_room_def)

interpretation fake: sink thrift_fake_transport_init "\<lambda>_. True" "\<lambda>_ _. True" "\<lambda>_ _ _. True"
  by unfold_locales (simp_all add: thrift_fake_transport_init_def thrift_fake_transport_write_def)

lemma mb_write_cases:
  assumes "mb_ok t" and "unat (buf_woffset t) + length bs \<le> 2 ^ 31" and "length bs < 2 ^ 31"
  shows "(\<exists>t'. thrift_memory_buffer_write mem bs (word_of_nat (length bs)) \<lparr>dev = t, err = e\<rparr> =
               Some (1, \<lparr>dev = t', err = e\<rparr>) \<and> mb_ok t' \<and> mb_pending t' = mb_pending t @ bs) \<or>
         thrift_memory_buffer_write mem bs (word_of_nat (length bs)) \<lparr>dev = t, err = e\<rparr> =
           Some (0, \<lparr>dev = t, err = THRIFT_TRANSPORT_ERROR_SEND\<rparr>) \<and>
         \<not> mb_room mem t (length bs)"
proof (cases "mb_room mem t (length bs)")
  case True
  then show ?thesis
    using mb_put [OF assms(1) True assms(3)] by blast
next
  case False
  have n: "unat (word_of_nat (length bs) :: uint32) = length bs"
    using assms(3) by (intro unat_len) simp
  have no: "\<not> unat (buf_woffset t) + length bs \<le> unat (buf_size t)"
    using False by (simp add: mb_room_def)
  then have more: "word_of_nat (length bs) > available_write t"
    using n unat_available_write [OF assms(1)] by (simp add: word_less_nat_alt)
  show ?thesis
  proof (cases "\<exists>t1. ensure_can_write mem t (word_of_nat (length bs)) = Some (0, t1)")
    case True
    then obtain t1 where t1: "ensure_can_write mem t (word_of_nat (length bs)) = Some (0, t1)" "mb_ok t1"
        "mb_pending t1 = mb_pending t" "unat (buf_woffset t1) + length bs \<le> unat (buf_size t1)"
      using ensure_cases [OF assms(1) _ more, of mem] assms(2) n by auto
    have "\<not> word_of_nat (length bs) > available_write t1"
      using n unat_available_write [OF t1(2)] t1(4) by (simp add: word_less_nat_alt)
    then have "thrift_memory_buffer_write mem bs (word_of_nat (length bs)) \<lparr>dev = t, err = e\<rparr> =
        thrift_memory_buffer_write mem bs (word_of_nat (length bs)) \<lparr>dev = t1, err = e\<rparr>"
      using more t1(1) by (simp add: thrift_memory_buffer_write_def)
    then show ?thesis
      using write_fits [OF t1(2,4), of mem e] poke_pending [OF t1(2,4)] t1(3) by auto
  next
    case other: False
    then have "ensure_can_write mem t (word_of_nat (length bs)) = Some (ENOMEM, t)"
      using ensure_cases [OF assms(1) _ more, of mem] assms(2) n by auto
    then show ?thesis
      using more False by (simp add: thrift_memory_buffer_write_def)
  qed
qed

text \<open>
  C26. The memory buffer keeps its shape.  On a well-formed buffer no operation leaves its
  allocation.  A write that ends below 2 GiB appends its bytes or, only when it finds no
  room, returns 0, reports a send error and changes nothing.  A read hands out the next bytes
  pending or, when there are too few, returns -1, reports a receive error and changes nothing.
  The buffer is well formed after each.\<close>

theorem memory_buffer_shape:
  assumes "mb_ok t" and "unat (buf_woffset t) + length bs \<le> 2 ^ 31" and "length bs < 2 ^ 31" and "n < 2 ^ 31"
  shows "\<exists>r t' e' s t'' e''.
     thrift_memory_buffer_write mem bs (word_of_nat (length bs)) \<lparr>dev = t, err = e\<rparr> =
       Some (r, \<lparr>dev = t', err = e'\<rparr>) \<and> mb_ok t' \<and>
     (if r = 0 then t' = t \<and> e' = THRIFT_TRANSPORT_ERROR_SEND \<and> \<not> mb_room mem t (length bs)
      else mb_pending t' = mb_pending t @ bs \<and> e' = e) \<and>
     thrift_memory_buffer_read (word_of_nat n) \<lparr>dev = t, err = e\<rparr> =
       Some (s, if n \<le> length (mb_pending t) then take n (mb_pending t) else [], \<lparr>dev = t'', err = e''\<rparr>) \<and>
     mb_ok t'' \<and>
     (if n \<le> length (mb_pending t) then s = word_of_nat n \<and> mb_pending t'' = drop n (mb_pending t) \<and> e'' = e
      else s = -1 \<and> t'' = t \<and> e'' = THRIFT_TRANSPORT_ERROR_RECEIVE)"
proof -
  have wr: "\<exists>r t' e'. thrift_memory_buffer_write mem bs (word_of_nat (length bs)) \<lparr>dev = t, err = e\<rparr> =
       Some (r, \<lparr>dev = t', err = e'\<rparr>) \<and> mb_ok t' \<and>
     (if r = 0 then t' = t \<and> e' = THRIFT_TRANSPORT_ERROR_SEND \<and> \<not> mb_room mem t (length bs)
      else mb_pending t' = mb_pending t @ bs \<and> e' = e)"
    using mb_write_cases [OF assms(1-3), of mem e] assms(1) by (auto intro: exI [of _ "1 :: byte"])
  have rd: "\<exists>s t'' e''. thrift_memory_buffer_read (word_of_nat n) \<lparr>dev = t, err = e\<rparr> =
       Some (s, if n \<le> length (mb_pending t) then take n (mb_pending t) else [], \<lparr>dev = t'', err = e''\<rparr>) \<and>
     mb_ok t'' \<and>
     (if n \<le> length (mb_pending t) then s = word_of_nat n \<and> mb_pending t'' = drop n (mb_pending t) \<and> e'' = e
      else s = -1 \<and> t'' = t \<and> e'' = THRIFT_TRANSPORT_ERROR_RECEIVE)"
  proof (cases "n \<le> length (mb_pending t)")
    case True
    then show ?thesis
      using mb_get [OF assms(1), of "take n (mb_pending t)" "drop n (mb_pending t)" e] assms(4)
      by (auto simp: min_absorb2)
  next
    case False
    have "unat (word_of_nat n :: uint32) = n"
      using assms(4) by (intro unat_len) simp
    then show ?thesis
      using mb_short [OF assms(1), of "word_of_nat n" e] False assms(1) by simp
  qed
  from wr rd show ?thesis
    by blast
qed

subsection \<open>An empty buffer that grows\<close>

definition demo_heap :: heap where
  "demo_heap n = Some []"

definition demo_buffer :: ThriftMemoryBuffer where
  "demo_buffer = thrift_memory_buffer_init demo_heap None 0"

lemma demo_heap_provides: "provides demo_heap"
  by (simp add: provides_def demo_heap_def)

lemma demo_buffer_ok: "mb_ok demo_buffer" "mb_pending demo_buffer = []" "mb_room demo_heap demo_buffer 8"
  by (simp_all add: demo_buffer_def thrift_memory_buffer_init_def mb_ok_def mb_pending_def mb_room_def
      os_malloc_def demo_heap_def contents_def demo_heap_provides)

theorem memory_buffer_shape_witness:
  "mb_ok demo_buffer \<and>
   (\<exists>r t'. thrift_memory_buffer_write demo_heap [1, 2, 3] 3 \<lparr>dev = demo_buffer, err = 0\<rparr> =
      Some (r, \<lparr>dev = t', err = 0\<rparr>) \<and> r \<noteq> 0 \<and> mb_ok t' \<and> mb_pending t' = [1, 2, 3]) \<and>
   thrift_memory_buffer_read 1 \<lparr>dev = demo_buffer, err = 0\<rparr> =
     Some (-1, [], \<lparr>dev = demo_buffer, err = THRIFT_TRANSPORT_ERROR_RECEIVE\<rparr>)"
proof -
  have "unat (buf_woffset demo_buffer) + length [1, 2, 3 :: byte] \<le> 2 ^ 31"
    by (simp add: demo_buffer_def thrift_memory_buffer_init_def)
  moreover have "mb_room demo_heap demo_buffer (length [1, 2, 3 :: byte])"
    using mb.room_less [OF demo_buffer_ok(3)] by simp
  ultimately show ?thesis
    using memory_buffer_shape [OF demo_buffer_ok(1), of "[1, 2, 3]" 1 demo_heap 0] demo_buffer_ok(1,2)
    by (fastforce split: if_splits)
qed

end
