(* ===== verification/Thrift_Binary.thy ===== *)
theory Thrift_Binary
  imports Thrift_Transport
begin

text \<open>
  The binary protocol of \<open>src/sandesh/library/c/protocol\<close>, one definition per function, over an
  arbitrary transport.  A function returns its \<open>int32_t\<close> result and the variables it
  stores through its pointers, \<open>None\<close> for a variable it leaves unassigned.
\<close>

unbundle bit_operations_syntax

subsection \<open>Byte order\<close>

text \<open>
  \<open>be_bytes n v\<close> are the low \<open>n\<close> bytes of \<open>v\<close>, most significant first: the object
  representation of \<open>htons v\<close> and \<open>htonl v\<close>.  \<open>be_value\<close> is \<open>ntohs\<close> and \<open>ntohl\<close> on such a
  representation.
\<close>

definition be_bytes :: "nat \<Rightarrow> 'a :: len word \<Rightarrow> byte list" where
  "be_bytes n v = map (\<lambda>i. ucast (drop_bit ((n - (i + 1)) * 8) v)) [0 ..< n]"

definition be_value :: "byte list \<Rightarrow> 'a :: len word" where
  "be_value bs = foldl (\<lambda>v b. push_bit 8 v + ucast b) 0 bs"

definition os_put_value64 :: "uint64 \<Rightarrow> byte list" where
  "os_put_value64 v = map (\<lambda>i. ucast (drop_bit ((8 - (i + 1)) * 8) v AND 0xff)) [0 ..< 8]"

definition os_get_value64 :: "byte list \<Rightarrow> uint64" where
  "os_get_value64 data = foldl (\<lambda>v i. (if i \<noteq> 0 then push_bit 8 v else v) + ucast (data ! i)) 0 [0 ..< 8]"

lemma ucast_byte_mask: "(ucast (ucast (x :: 'a :: len word) :: byte) :: 'a word) = take_bit 8 x"
  by (rule bit_word_eqI) (simp add: bit_simps)

lemma byte_and_ff: "(ucast ((x :: uint64) AND 0xff) :: byte) = ucast x"
proof -
  have "(ucast (x AND mask 8) :: byte) = ucast x"
    by (rule bit_word_eqI) (simp add: bit_simps)
  then show ?thesis
    by (simp add: mask_eq_exp_minus_1)
qed

lemma length_be_bytes [simp]: "length (be_bytes n v) = n"
  by (simp add: be_bytes_def)

lemma be_value_upto:
  assumes "LENGTH('a) \<le> n * 8" and "k \<le> n"
  shows "foldl (\<lambda>v b. push_bit 8 v + ucast b) 0
           (map (\<lambda>i. ucast (drop_bit ((n - (i + 1)) * 8) v) :: byte) [0 ..< k]) =
         drop_bit ((n - k) * 8) (v :: 'a :: len word)"
  using assms(2)
proof (induction k)
  case 0
  show ?case
    using assms(1) by (intro bit_word_eqI) (simp add: bit_simps)
next
  case (Suc k)
  define x where "x = drop_bit ((n - Suc k) * 8) v"
  have "(n - k) * 8 = 8 + (n - Suc k) * 8"
    using Suc.prems by simp
  then have "drop_bit ((n - k) * 8) v = drop_bit 8 x"
    unfolding x_def by (simp add: drop_bit_drop_bit)
  then show ?case
    using Suc bits_ident [of 8 x] by (simp add: ucast_byte_mask x_def)
qed

lemma be_value_bytes: "LENGTH('a) \<le> n * 8 \<Longrightarrow> be_value (be_bytes n v) = (v :: 'a :: len word)"
  unfolding be_value_def be_bytes_def by (subst be_value_upto) simp_all

lemma os_put_value64_be: "os_put_value64 v = be_bytes 8 v"
  by (simp add: os_put_value64_def be_bytes_def byte_and_ff)

lemma os_get_value64_be: "length bs = 8 \<Longrightarrow> os_get_value64 bs = be_value bs"
proof -
  assume "length bs = 8"
  moreover have "foldl (\<lambda>v i. (if i \<noteq> 0 then push_bit 8 v else v) + ucast (bs ! i)) (0 :: uint64) [0 ..< k] =
      foldl (\<lambda>v b. push_bit 8 v + ucast b) 0 (take k bs)" if "k \<le> length bs" for k
    using that by (induction k) (auto simp: take_Suc_conv_app_nth)
  ultimately show ?thesis
    by (simp add: os_get_value64_def be_value_def)
qed

subsection \<open>Types of the protocol\<close>

type_synonym ThriftType = uint32

abbreviation (input) T_STOP :: ThriftType where "T_STOP \<equiv> 0"
abbreviation (input) T_BOOL :: ThriftType where "T_BOOL \<equiv> 2"
abbreviation (input) T_BYTE :: ThriftType where "T_BYTE \<equiv> 3"
abbreviation (input) T_DOUBLE :: ThriftType where "T_DOUBLE \<equiv> 4"
abbreviation (input) T_I16 :: ThriftType where "T_I16 \<equiv> 6"
abbreviation (input) T_I32 :: ThriftType where "T_I32 \<equiv> 8"
abbreviation (input) T_U64 :: ThriftType where "T_U64 \<equiv> 9"
abbreviation (input) T_I64 :: ThriftType where "T_I64 \<equiv> 10"
abbreviation (input) T_STRING :: ThriftType where "T_STRING \<equiv> 11"
abbreviation (input) T_STRUCT :: ThriftType where "T_STRUCT \<equiv> 12"
abbreviation (input) T_LIST :: ThriftType where "T_LIST \<equiv> 15"
abbreviation (input) T_U16 :: ThriftType where "T_U16 \<equiv> 19"
abbreviation (input) T_U32 :: ThriftType where "T_U32 \<equiv> 20"
abbreviation (input) T_XML :: ThriftType where "T_XML \<equiv> 21"
abbreviation (input) T_IPV4 :: ThriftType where "T_IPV4 \<equiv> 22"
abbreviation (input) T_UUID :: ThriftType where "T_UUID \<equiv> 23"
abbreviation (input) T_IPADDR :: ThriftType where "T_IPADDR \<equiv> 24"

abbreviation (input) THRIFT_PROTOCOL_ERROR_NEGATIVE_SIZE :: int32 where
  "THRIFT_PROTOCOL_ERROR_NEGATIVE_SIZE \<equiv> 2"

abbreviation (input) AF_INET :: byte where "AF_INET \<equiv> 2"
abbreviation (input) AF_INET6 :: byte where "AF_INET6 \<equiv> 10"

record ipaddr_t =
  iptype :: byte
  ip_bytes :: "byte list"

definition negative :: "int32 \<Rightarrow> bool" where
  "negative r = (sint r < 0)"

type_synonym 't writer = "'t io \<Rightarrow> (int32 \<times> 't io) option"
type_synonym ('v, 't) reader = "'t io \<Rightarrow> (int32 \<times> 'v \<times> 't io) option"

definition checked :: "'t writer \<Rightarrow> int32 \<Rightarrow> (int32 \<Rightarrow> 't writer) \<Rightarrow> 't writer" where
  "checked f xfer k w =
     do { (ret, w) \<leftarrow> f w; if negative ret then Some (-1, w) else k (xfer + ret) w }"

subsection \<open>Writing\<close>

definition thrift_binary_protocol_write_byte :: "'t ThriftTransport \<Rightarrow> byte \<Rightarrow> 't writer" where
  "thrift_binary_protocol_write_byte tr value w =
     do { (n, w) \<leftarrow> thrift_transport_write tr [value] 1 w;
          Some (if n \<noteq> 0 then 1 else -1, w) }"

definition thrift_binary_protocol_write_i16 :: "'t ThriftTransport \<Rightarrow> 16 word \<Rightarrow> 't writer" where
  "thrift_binary_protocol_write_i16 tr value w =
     do { (n, w) \<leftarrow> thrift_transport_write tr (be_bytes 2 value) 2 w;
          Some (if n \<noteq> 0 then 2 else -1, w) }"

definition thrift_binary_protocol_write_u16 :: "'t ThriftTransport \<Rightarrow> 16 word \<Rightarrow> 't writer" where
  "thrift_binary_protocol_write_u16 tr value w =
     do { (n, w) \<leftarrow> thrift_transport_write tr (be_bytes 2 value) 2 w;
          Some (if n \<noteq> 0 then 2 else -1, w) }"

definition thrift_binary_protocol_write_i32 :: "'t ThriftTransport \<Rightarrow> int32 \<Rightarrow> 't writer" where
  "thrift_binary_protocol_write_i32 tr value w =
     do { (n, w) \<leftarrow> thrift_transport_write tr (be_bytes 4 value) 4 w;
          Some (if n \<noteq> 0 then 4 else -1, w) }"

definition thrift_binary_protocol_write_u32 :: "'t ThriftTransport \<Rightarrow> uint32 \<Rightarrow> 't writer" where
  "thrift_binary_protocol_write_u32 tr value w =
     do { (n, w) \<leftarrow> thrift_transport_write tr (be_bytes 4 value) 4 w;
          Some (if n \<noteq> 0 then 4 else -1, w) }"

definition thrift_binary_protocol_write_i64 :: "'t ThriftTransport \<Rightarrow> uint64 \<Rightarrow> 't writer" where
  "thrift_binary_protocol_write_i64 tr value w =
     do { (n, w) \<leftarrow> thrift_transport_write tr (os_put_value64 value) 8 w;
          Some (if n \<noteq> 0 then 8 else -1, w) }"

definition thrift_binary_protocol_write_u64 :: "'t ThriftTransport \<Rightarrow> uint64 \<Rightarrow> 't writer" where
  "thrift_binary_protocol_write_u64 tr value w =
     do { (n, w) \<leftarrow> thrift_transport_write tr (os_put_value64 value) 8 w;
          Some (if n \<noteq> 0 then 8 else -1, w) }"

definition thrift_binary_protocol_write_bool :: "'t ThriftTransport \<Rightarrow> byte \<Rightarrow> 't writer" where
  "thrift_binary_protocol_write_bool tr value w =
     thrift_binary_protocol_write_byte tr (if value \<noteq> 0 then 1 else 0) w"

definition thrift_binary_protocol_write_binary ::
    "'t ThriftTransport \<Rightarrow> byte list option \<Rightarrow> uint32 \<Rightarrow> 't writer" where
  "thrift_binary_protocol_write_binary tr b len =
     checked (thrift_binary_protocol_write_i32 tr len) 0 (\<lambda>xfer w.
       if len > 0
       then do {
         bs \<leftarrow> b;
         (n, w) \<leftarrow> thrift_transport_write tr bs len w;
         if n = 0 then Some (-1, w) else Some (xfer + len, w)
       }
       else Some (xfer, w))"

definition c_strlen :: "byte list \<Rightarrow> nat" where
  "c_strlen s = length (takeWhile (\<lambda>c. c \<noteq> 0) s)"

definition thrift_binary_protocol_write_string ::
    "'t ThriftTransport \<Rightarrow> byte list option \<Rightarrow> 't writer" where
  "thrift_binary_protocol_write_string tr str =
     (let len = (case str of Some s \<Rightarrow> word_of_nat (c_strlen s) | None \<Rightarrow> 0)
      in thrift_binary_protocol_write_binary tr str len)"

definition thrift_binary_protocol_write_sandesh_begin ::
    "'t ThriftTransport \<Rightarrow> byte list option \<Rightarrow> 't writer" where
  "thrift_binary_protocol_write_sandesh_begin tr name =
     checked (thrift_binary_protocol_write_string tr name) 0 (\<lambda>xfer w. Some (xfer, w))"

definition thrift_binary_protocol_write_sandesh_end :: "'t writer" where
  "thrift_binary_protocol_write_sandesh_end w = Some (0, w)"

definition thrift_binary_protocol_write_struct_begin :: "byte list option \<Rightarrow> 't writer" where
  "thrift_binary_protocol_write_struct_begin name w = Some (0, w)"

definition thrift_binary_protocol_write_struct_end :: "'t writer" where
  "thrift_binary_protocol_write_struct_end w = Some (0, w)"

definition thrift_binary_protocol_write_field_begin ::
    "'t ThriftTransport \<Rightarrow> byte list option \<Rightarrow> ThriftType \<Rightarrow> 16 word \<Rightarrow> 't writer" where
  "thrift_binary_protocol_write_field_begin tr name field_type field_id =
     checked (thrift_binary_protocol_write_byte tr (ucast field_type)) 0 (\<lambda>xfer.
     checked (thrift_binary_protocol_write_i16 tr field_id) xfer (\<lambda>xfer w. Some (xfer, w)))"

definition thrift_binary_protocol_write_field_end :: "'t writer" where
  "thrift_binary_protocol_write_field_end w = Some (0, w)"

definition thrift_binary_protocol_write_field_stop :: "'t ThriftTransport \<Rightarrow> 't writer" where
  "thrift_binary_protocol_write_field_stop tr = thrift_binary_protocol_write_byte tr (ucast T_STOP)"

definition thrift_binary_protocol_write_list_begin ::
    "'t ThriftTransport \<Rightarrow> ThriftType \<Rightarrow> uint32 \<Rightarrow> 't writer" where
  "thrift_binary_protocol_write_list_begin tr element_type sz =
     checked (thrift_binary_protocol_write_byte tr (ucast element_type)) 0 (\<lambda>xfer.
     checked (thrift_binary_protocol_write_i32 tr sz) xfer (\<lambda>xfer w. Some (xfer, w)))"

definition thrift_binary_protocol_write_list_end :: "'t writer" where
  "thrift_binary_protocol_write_list_end w = Some (0, w)"

definition thrift_binary_protocol_write_ipv4 :: "'t ThriftTransport \<Rightarrow> uint32 \<Rightarrow> 't writer" where
  "thrift_binary_protocol_write_ipv4 tr value = thrift_binary_protocol_write_u32 tr value"

definition thrift_binary_protocol_write_ipaddr :: "'t ThriftTransport \<Rightarrow> ipaddr_t \<Rightarrow> 't writer" where
  "thrift_binary_protocol_write_ipaddr tr value w =
     (if iptype value = AF_INET
      then checked (thrift_binary_protocol_write_byte tr AF_INET) 0 (\<lambda>xfer w. do {
             ipv4 \<leftarrow> peek (ip_bytes value) 0 4;
             (n, w) \<leftarrow> thrift_transport_write tr ipv4 4 w;
             Some (if n \<noteq> 0 then xfer + 4 else -1, w) }) w
      else if iptype value = AF_INET6
      then checked (thrift_binary_protocol_write_byte tr AF_INET6) 0 (\<lambda>xfer w. do {
             ipv6 \<leftarrow> peek (ip_bytes value) 0 16;
             (n, w) \<leftarrow> thrift_transport_write tr ipv6 16 w;
             Some (if n \<noteq> 0 then xfer + 16 else -1, w) }) w
      else Some (-1, w))"

definition thrift_binary_protocol_write_uuid_t :: "'t ThriftTransport \<Rightarrow> byte list \<Rightarrow> 't writer" where
  "thrift_binary_protocol_write_uuid_t tr value w =
     do { (n, w) \<leftarrow> thrift_transport_write tr value 16 w;
          Some (if n \<noteq> 0 then 16 else -1, w) }"

text \<open>A double is its 64 bits, stored by a little-endian host without a change of byte order.\<close>

definition host_bytes :: "uint64 \<Rightarrow> byte list" where
  "host_bytes bits = rev (be_bytes 8 bits)"

definition host_value :: "byte list \<Rightarrow> uint64" where
  "host_value bs = be_value (rev bs)"

definition thrift_binary_protocol_write_double :: "'t ThriftTransport \<Rightarrow> uint64 \<Rightarrow> 't writer" where
  "thrift_binary_protocol_write_double tr bits w =
     do { (n, w) \<leftarrow> thrift_transport_write tr (host_bytes bits) 8 w;
          Some (if n \<noteq> 0 then 8 else -1, w) }"

subsection \<open>Reading\<close>

definition fixed :: "'t ThriftTransport \<Rightarrow> uint32 \<Rightarrow> (byte list \<Rightarrow> 'v) \<Rightarrow> ('v option, 't) reader" where
  "fixed tr n value w =
     do { (ret, b, w) \<leftarrow> thrift_transport_read tr n w;
          Some (if negative ret then (-1, None, w) else (ret, Some (value b), w)) }"

definition thrift_binary_protocol_read_bool :: "'t ThriftTransport \<Rightarrow> (byte option, 't) reader" where
  "thrift_binary_protocol_read_bool tr = fixed tr 1 (\<lambda>b. if b ! 0 \<noteq> 0 then 1 else 0)"

definition thrift_binary_protocol_read_byte :: "'t ThriftTransport \<Rightarrow> (byte option, 't) reader" where
  "thrift_binary_protocol_read_byte tr = fixed tr 1 (\<lambda>b. b ! 0)"

definition thrift_binary_protocol_read_i16 :: "'t ThriftTransport \<Rightarrow> (16 word option, 't) reader" where
  "thrift_binary_protocol_read_i16 tr = fixed tr 2 be_value"

definition thrift_binary_protocol_read_i32 :: "'t ThriftTransport \<Rightarrow> (int32 option, 't) reader" where
  "thrift_binary_protocol_read_i32 tr = fixed tr 4 be_value"

definition thrift_binary_protocol_read_i64 :: "'t ThriftTransport \<Rightarrow> (uint64 option, 't) reader" where
  "thrift_binary_protocol_read_i64 tr = fixed tr 8 os_get_value64"

definition thrift_binary_protocol_read_u16 :: "'t ThriftTransport \<Rightarrow> (16 word option, 't) reader" where
  "thrift_binary_protocol_read_u16 tr = fixed tr 2 be_value"

definition thrift_binary_protocol_read_u32 :: "'t ThriftTransport \<Rightarrow> (uint32 option, 't) reader" where
  "thrift_binary_protocol_read_u32 tr = fixed tr 4 be_value"

definition thrift_binary_protocol_read_u64 :: "'t ThriftTransport \<Rightarrow> (uint64 option, 't) reader" where
  "thrift_binary_protocol_read_u64 tr = fixed tr 8 os_get_value64"

definition thrift_binary_protocol_read_ipv4 :: "'t ThriftTransport \<Rightarrow> (uint32 option, 't) reader" where
  "thrift_binary_protocol_read_ipv4 tr = thrift_binary_protocol_read_u32 tr"

definition thrift_binary_protocol_read_uuid_t :: "'t ThriftTransport \<Rightarrow> (byte list option, 't) reader" where
  "thrift_binary_protocol_read_uuid_t tr = fixed tr 16 (\<lambda>b. b)"

definition thrift_binary_protocol_read_double :: "'t ThriftTransport \<Rightarrow> (uint64 option, 't) reader" where
  "thrift_binary_protocol_read_double tr = fixed tr 8 host_value"

definition thrift_binary_protocol_read_ipaddr ::
    "'t ThriftTransport \<Rightarrow> ipaddr_t \<Rightarrow> (ipaddr_t, 't) reader" where
  "thrift_binary_protocol_read_ipaddr tr value w =
     do {
       (ret, ty, w) \<leftarrow> thrift_binary_protocol_read_byte tr w;
       case ty of
         None \<Rightarrow> Some (-1, value, w)
       | Some ty \<Rightarrow>
           let value = value\<lparr>iptype := ty\<rparr>; xfer = ret
           in if iptype value = AF_INET \<or> iptype value = AF_INET6
              then do {
                (ret, bs, w) \<leftarrow> thrift_transport_read tr (if iptype value = AF_INET then 4 else 16) w;
                if negative ret then Some (-1, value, w)
                else Some (xfer + ret, value\<lparr>ip_bytes := bs @ drop (length bs) (ip_bytes value)\<rparr>, w)
              }
              else Some (-1, value, w)
     }"

definition thrift_binary_protocol_read_string ::
    "heap \<Rightarrow> 't ThriftTransport \<Rightarrow> (byte list option option, 't) reader" where
  "thrift_binary_protocol_read_string mem tr w =
     do {
       (ret, read_len, w) \<leftarrow> thrift_binary_protocol_read_i32 tr w;
       case read_len of
         None \<Rightarrow> Some (-1, None, w)
       | Some read_len \<Rightarrow>
           let xfer = ret
           in if sint read_len > 0
              then do {
                str \<leftarrow> os_malloc mem (unat (read_len + 1));
                (ret, bs, w) \<leftarrow> thrift_transport_read tr read_len w;
                if negative ret then Some (-1, Some None, w)
                else Some (xfer + ret, Some (Some bs), w)
              }
              else Some (xfer, Some None, w)
     }"

definition thrift_binary_protocol_read_binary ::
    "heap \<Rightarrow> 't ThriftTransport \<Rightarrow> (byte list option option \<times> uint32 option, 't) reader" where
  "thrift_binary_protocol_read_binary mem tr w =
     do {
       (ret, read_len, w) \<leftarrow> thrift_binary_protocol_read_i32 tr w;
       case read_len of
         None \<Rightarrow> Some (-1, (None, None), w)
       | Some read_len \<Rightarrow>
           let xfer = ret
           in if sint read_len > 0
              then do {
                b \<leftarrow> os_malloc mem (unat read_len);
                (ret, bs, w) \<leftarrow> thrift_transport_read tr read_len w;
                if negative ret then Some (-1, (Some None, Some 0), w)
                else Some (xfer + ret, (Some (Some bs), Some read_len), w)
              }
              else Some (xfer, (Some None, None), w)
     }"

definition thrift_binary_protocol_read_sandesh_begin ::
    "heap \<Rightarrow> 't ThriftTransport \<Rightarrow> (byte list option option, 't) reader" where
  "thrift_binary_protocol_read_sandesh_begin mem tr w =
     do { (ret, name, w) \<leftarrow> thrift_binary_protocol_read_string mem tr w;
          if negative ret then Some (-1, name, w) else Some (ret, name, w) }"

definition thrift_binary_protocol_read_sandesh_end :: "'t writer" where
  "thrift_binary_protocol_read_sandesh_end w = Some (0, w)"

definition thrift_binary_protocol_read_struct_begin :: "(byte list option, 't) reader" where
  "thrift_binary_protocol_read_struct_begin w = Some (0, None, w)"

definition thrift_binary_protocol_read_struct_end :: "'t writer" where
  "thrift_binary_protocol_read_struct_end w = Some (0, w)"

definition thrift_binary_protocol_read_field_begin ::
    "'t ThriftTransport \<Rightarrow> (ThriftType option \<times> 16 word option, 't) reader" where
  "thrift_binary_protocol_read_field_begin tr w =
     do {
       (ret, ty, w) \<leftarrow> thrift_binary_protocol_read_byte tr w;
       case ty of
         None \<Rightarrow> Some (-1, (None, None), w)
       | Some ty \<Rightarrow>
           let xfer = ret; field_type = scast ty
           in if field_type = T_STOP then Some (xfer, (Some field_type, Some 0), w)
              else do {
                (ret, field_id, w) \<leftarrow> thrift_binary_protocol_read_i16 tr w;
                if negative ret then Some (-1, (Some field_type, field_id), w)
                else Some (xfer + ret, (Some field_type, field_id), w)
              }
     }"

definition thrift_binary_protocol_read_field_end :: "'t writer" where
  "thrift_binary_protocol_read_field_end w = Some (0, w)"

definition thrift_binary_protocol_read_list_begin ::
    "'t ThriftTransport \<Rightarrow> (ThriftType option \<times> uint32 option, 't) reader" where
  "thrift_binary_protocol_read_list_begin tr w =
     do {
       (ret, ty, w) \<leftarrow> thrift_binary_protocol_read_byte tr w;
       case ty of
         None \<Rightarrow> Some (-1, (None, None), w)
       | Some ty \<Rightarrow>
           do {
             let xfer = ret;
             let element_type = scast ty;
             (ret, sizei, w) \<leftarrow> thrift_binary_protocol_read_i32 tr w;
             case sizei of
               None \<Rightarrow> Some (-1, (Some element_type, None), w)
             | Some sizei \<Rightarrow>
                 if negative sizei
                 then Some (-1, (Some element_type, None),
                            w\<lparr>err := THRIFT_PROTOCOL_ERROR_NEGATIVE_SIZE\<rparr>)
                 else Some (xfer + ret, (Some element_type, Some sizei), w)
           }
     }"

definition thrift_binary_protocol_read_list_end :: "'t writer" where
  "thrift_binary_protocol_read_list_end w = Some (0, w)"

subsection \<open>The protocol interface\<close>

text \<open>
  A protocol is its function pointers.  The transport pointer of the structure is bound when
  the binary protocol is set up, so that each operation takes only its transport's state.  The
  pointers that the XML protocol installs are an argument.
\<close>

datatype ThriftProtocolType = T_PROTOCOL_BINARY | T_PROTOCOL_XML

record 't ThriftProtocol =
  ptype :: ThriftProtocolType
  write_sandesh_begin :: "(byte list option) \<Rightarrow> 't writer"
  write_sandesh_end :: "'t writer"
  write_struct_begin :: "(byte list option) \<Rightarrow> 't writer"
  write_struct_end :: "'t writer"
  write_field_begin :: "(byte list option) \<Rightarrow> ThriftType \<Rightarrow> (16 word) \<Rightarrow> 't writer"
  write_field_end :: "'t writer"
  write_field_stop :: "'t writer"
  write_list_begin :: "ThriftType \<Rightarrow> uint32 \<Rightarrow> 't writer"
  write_list_end :: "'t writer"
  write_bool :: "byte \<Rightarrow> 't writer"
  write_byte :: "byte \<Rightarrow> 't writer"
  write_i16 :: "(16 word) \<Rightarrow> 't writer"
  write_i32 :: "int32 \<Rightarrow> 't writer"
  write_i64 :: "uint64 \<Rightarrow> 't writer"
  write_u16 :: "(16 word) \<Rightarrow> 't writer"
  write_u32 :: "uint32 \<Rightarrow> 't writer"
  write_u64 :: "uint64 \<Rightarrow> 't writer"
  write_ipv4 :: "uint32 \<Rightarrow> 't writer"
  write_ipaddr :: "ipaddr_t \<Rightarrow> 't writer"
  write_double :: "uint64 \<Rightarrow> 't writer"
  write_string :: "(byte list option) \<Rightarrow> 't writer"
  write_binary :: "(byte list option) \<Rightarrow> uint32 \<Rightarrow> 't writer"
  write_xml :: "(byte list option) \<Rightarrow> 't writer"
  write_uuid_t :: "(byte list) \<Rightarrow> 't writer"
  read_sandesh_begin :: "(byte list option option, 't) reader"
  read_sandesh_end :: "'t writer"
  read_struct_begin :: "(byte list option, 't) reader"
  read_struct_end :: "'t writer"
  read_field_begin :: "(ThriftType option \<times> 16 word option, 't) reader"
  read_field_end :: "'t writer"
  read_list_begin :: "(ThriftType option \<times> uint32 option, 't) reader"
  read_list_end :: "'t writer"
  read_bool :: "(byte option, 't) reader"
  read_byte :: "(byte option, 't) reader"
  read_i16 :: "(16 word option, 't) reader"
  read_i32 :: "(int32 option, 't) reader"
  read_i64 :: "(uint64 option, 't) reader"
  read_u16 :: "(16 word option, 't) reader"
  read_u32 :: "(uint32 option, 't) reader"
  read_u64 :: "(uint64 option, 't) reader"
  read_ipv4 :: "(uint32 option, 't) reader"
  read_ipaddr :: "ipaddr_t \<Rightarrow> (ipaddr_t, 't) reader"
  read_double :: "(uint64 option, 't) reader"
  read_string :: "(byte list option option, 't) reader"
  read_binary :: "(byte list option option \<times> uint32 option, 't) reader"
  read_xml :: "(byte list option option, 't) reader"
  read_uuid_t :: "(byte list option, 't) reader"

subsection \<open>Dispatch\<close>

named_theorems dispatch \<open>the operations of a protocol select its function pointers\<close>

definition thrift_protocol_write_sandesh_begin :: "'t ThriftProtocol \<Rightarrow> (byte list option) \<Rightarrow> 't writer" where
  [dispatch]: "thrift_protocol_write_sandesh_begin p = write_sandesh_begin p"

definition thrift_protocol_write_sandesh_end :: "'t ThriftProtocol \<Rightarrow> 't writer" where
  [dispatch]: "thrift_protocol_write_sandesh_end p = write_sandesh_end p"

definition thrift_protocol_write_struct_begin :: "'t ThriftProtocol \<Rightarrow> (byte list option) \<Rightarrow> 't writer" where
  [dispatch]: "thrift_protocol_write_struct_begin p = write_struct_begin p"

definition thrift_protocol_write_struct_end :: "'t ThriftProtocol \<Rightarrow> 't writer" where
  [dispatch]: "thrift_protocol_write_struct_end p = write_struct_end p"

definition thrift_protocol_write_field_begin :: "'t ThriftProtocol \<Rightarrow> (byte list option) \<Rightarrow> ThriftType \<Rightarrow> (16 word) \<Rightarrow> 't writer" where
  [dispatch]: "thrift_protocol_write_field_begin p = write_field_begin p"

definition thrift_protocol_write_field_end :: "'t ThriftProtocol \<Rightarrow> 't writer" where
  [dispatch]: "thrift_protocol_write_field_end p = write_field_end p"

definition thrift_protocol_write_field_stop :: "'t ThriftProtocol \<Rightarrow> 't writer" where
  [dispatch]: "thrift_protocol_write_field_stop p = write_field_stop p"

definition thrift_protocol_write_list_begin :: "'t ThriftProtocol \<Rightarrow> ThriftType \<Rightarrow> uint32 \<Rightarrow> 't writer" where
  [dispatch]: "thrift_protocol_write_list_begin p = write_list_begin p"

definition thrift_protocol_write_list_end :: "'t ThriftProtocol \<Rightarrow> 't writer" where
  [dispatch]: "thrift_protocol_write_list_end p = write_list_end p"

definition thrift_protocol_write_bool :: "'t ThriftProtocol \<Rightarrow> byte \<Rightarrow> 't writer" where
  [dispatch]: "thrift_protocol_write_bool p = write_bool p"

definition thrift_protocol_write_byte :: "'t ThriftProtocol \<Rightarrow> byte \<Rightarrow> 't writer" where
  [dispatch]: "thrift_protocol_write_byte p = write_byte p"

definition thrift_protocol_write_i16 :: "'t ThriftProtocol \<Rightarrow> (16 word) \<Rightarrow> 't writer" where
  [dispatch]: "thrift_protocol_write_i16 p = write_i16 p"

definition thrift_protocol_write_i32 :: "'t ThriftProtocol \<Rightarrow> int32 \<Rightarrow> 't writer" where
  [dispatch]: "thrift_protocol_write_i32 p = write_i32 p"

definition thrift_protocol_write_i64 :: "'t ThriftProtocol \<Rightarrow> uint64 \<Rightarrow> 't writer" where
  [dispatch]: "thrift_protocol_write_i64 p = write_i64 p"

definition thrift_protocol_write_u16 :: "'t ThriftProtocol \<Rightarrow> (16 word) \<Rightarrow> 't writer" where
  [dispatch]: "thrift_protocol_write_u16 p = write_u16 p"

definition thrift_protocol_write_u32 :: "'t ThriftProtocol \<Rightarrow> uint32 \<Rightarrow> 't writer" where
  [dispatch]: "thrift_protocol_write_u32 p = write_u32 p"

definition thrift_protocol_write_u64 :: "'t ThriftProtocol \<Rightarrow> uint64 \<Rightarrow> 't writer" where
  [dispatch]: "thrift_protocol_write_u64 p = write_u64 p"

definition thrift_protocol_write_ipv4 :: "'t ThriftProtocol \<Rightarrow> uint32 \<Rightarrow> 't writer" where
  [dispatch]: "thrift_protocol_write_ipv4 p = write_ipv4 p"

definition thrift_protocol_write_ipaddr :: "'t ThriftProtocol \<Rightarrow> ipaddr_t \<Rightarrow> 't writer" where
  [dispatch]: "thrift_protocol_write_ipaddr p = write_ipaddr p"

definition thrift_protocol_write_double :: "'t ThriftProtocol \<Rightarrow> uint64 \<Rightarrow> 't writer" where
  [dispatch]: "thrift_protocol_write_double p = write_double p"

definition thrift_protocol_write_string :: "'t ThriftProtocol \<Rightarrow> (byte list option) \<Rightarrow> 't writer" where
  [dispatch]: "thrift_protocol_write_string p = write_string p"

definition thrift_protocol_write_binary :: "'t ThriftProtocol \<Rightarrow> (byte list option) \<Rightarrow> uint32 \<Rightarrow> 't writer" where
  [dispatch]: "thrift_protocol_write_binary p = write_binary p"

definition thrift_protocol_write_xml :: "'t ThriftProtocol \<Rightarrow> (byte list option) \<Rightarrow> 't writer" where
  [dispatch]: "thrift_protocol_write_xml p = write_xml p"

definition thrift_protocol_write_uuid_t :: "'t ThriftProtocol \<Rightarrow> (byte list) \<Rightarrow> 't writer" where
  [dispatch]: "thrift_protocol_write_uuid_t p = write_uuid_t p"

definition thrift_protocol_read_sandesh_begin :: "'t ThriftProtocol \<Rightarrow> (byte list option option, 't) reader" where
  [dispatch]: "thrift_protocol_read_sandesh_begin p = read_sandesh_begin p"

definition thrift_protocol_read_sandesh_end :: "'t ThriftProtocol \<Rightarrow> 't writer" where
  [dispatch]: "thrift_protocol_read_sandesh_end p = read_sandesh_end p"

definition thrift_protocol_read_struct_begin :: "'t ThriftProtocol \<Rightarrow> (byte list option, 't) reader" where
  [dispatch]: "thrift_protocol_read_struct_begin p = read_struct_begin p"

definition thrift_protocol_read_struct_end :: "'t ThriftProtocol \<Rightarrow> 't writer" where
  [dispatch]: "thrift_protocol_read_struct_end p = read_struct_end p"

definition thrift_protocol_read_field_begin :: "'t ThriftProtocol \<Rightarrow> (ThriftType option \<times> 16 word option, 't) reader" where
  [dispatch]: "thrift_protocol_read_field_begin p = read_field_begin p"

definition thrift_protocol_read_field_end :: "'t ThriftProtocol \<Rightarrow> 't writer" where
  [dispatch]: "thrift_protocol_read_field_end p = read_field_end p"

definition thrift_protocol_read_list_begin :: "'t ThriftProtocol \<Rightarrow> (ThriftType option \<times> uint32 option, 't) reader" where
  [dispatch]: "thrift_protocol_read_list_begin p = read_list_begin p"

definition thrift_protocol_read_list_end :: "'t ThriftProtocol \<Rightarrow> 't writer" where
  [dispatch]: "thrift_protocol_read_list_end p = read_list_end p"

definition thrift_protocol_read_bool :: "'t ThriftProtocol \<Rightarrow> (byte option, 't) reader" where
  [dispatch]: "thrift_protocol_read_bool p = read_bool p"

definition thrift_protocol_read_byte :: "'t ThriftProtocol \<Rightarrow> (byte option, 't) reader" where
  [dispatch]: "thrift_protocol_read_byte p = read_byte p"

definition thrift_protocol_read_i16 :: "'t ThriftProtocol \<Rightarrow> (16 word option, 't) reader" where
  [dispatch]: "thrift_protocol_read_i16 p = read_i16 p"

definition thrift_protocol_read_i32 :: "'t ThriftProtocol \<Rightarrow> (int32 option, 't) reader" where
  [dispatch]: "thrift_protocol_read_i32 p = read_i32 p"

definition thrift_protocol_read_i64 :: "'t ThriftProtocol \<Rightarrow> (uint64 option, 't) reader" where
  [dispatch]: "thrift_protocol_read_i64 p = read_i64 p"

definition thrift_protocol_read_u16 :: "'t ThriftProtocol \<Rightarrow> (16 word option, 't) reader" where
  [dispatch]: "thrift_protocol_read_u16 p = read_u16 p"

definition thrift_protocol_read_u32 :: "'t ThriftProtocol \<Rightarrow> (uint32 option, 't) reader" where
  [dispatch]: "thrift_protocol_read_u32 p = read_u32 p"

definition thrift_protocol_read_u64 :: "'t ThriftProtocol \<Rightarrow> (uint64 option, 't) reader" where
  [dispatch]: "thrift_protocol_read_u64 p = read_u64 p"

definition thrift_protocol_read_ipv4 :: "'t ThriftProtocol \<Rightarrow> (uint32 option, 't) reader" where
  [dispatch]: "thrift_protocol_read_ipv4 p = read_ipv4 p"

definition thrift_protocol_read_ipaddr :: "'t ThriftProtocol \<Rightarrow> ipaddr_t \<Rightarrow> (ipaddr_t, 't) reader" where
  [dispatch]: "thrift_protocol_read_ipaddr p = read_ipaddr p"

definition thrift_protocol_read_double :: "'t ThriftProtocol \<Rightarrow> (uint64 option, 't) reader" where
  [dispatch]: "thrift_protocol_read_double p = read_double p"

definition thrift_protocol_read_string :: "'t ThriftProtocol \<Rightarrow> (byte list option option, 't) reader" where
  [dispatch]: "thrift_protocol_read_string p = read_string p"

definition thrift_protocol_read_binary :: "'t ThriftProtocol \<Rightarrow> (byte list option option \<times> uint32 option, 't) reader" where
  [dispatch]: "thrift_protocol_read_binary p = read_binary p"

definition thrift_protocol_read_xml :: "'t ThriftProtocol \<Rightarrow> (byte list option option, 't) reader" where
  [dispatch]: "thrift_protocol_read_xml p = read_xml p"

definition thrift_protocol_read_uuid_t :: "'t ThriftProtocol \<Rightarrow> (byte list option, 't) reader" where
  [dispatch]: "thrift_protocol_read_uuid_t p = read_uuid_t p"

definition thrift_binary_protocol_init :: "heap \<Rightarrow> 't ThriftTransport \<Rightarrow> 't ThriftProtocol" where
  [dispatch]: "thrift_binary_protocol_init mem tr =
    \<lparr>ptype = T_PROTOCOL_BINARY,
     write_sandesh_begin = thrift_binary_protocol_write_sandesh_begin tr,
     write_sandesh_end = thrift_binary_protocol_write_sandesh_end,
     write_struct_begin = thrift_binary_protocol_write_struct_begin,
     write_struct_end = thrift_binary_protocol_write_struct_end,
     write_field_begin = thrift_binary_protocol_write_field_begin tr,
     write_field_end = thrift_binary_protocol_write_field_end,
     write_field_stop = thrift_binary_protocol_write_field_stop tr,
     write_list_begin = thrift_binary_protocol_write_list_begin tr,
     write_list_end = thrift_binary_protocol_write_list_end,
     write_bool = thrift_binary_protocol_write_bool tr,
     write_byte = thrift_binary_protocol_write_byte tr,
     write_i16 = thrift_binary_protocol_write_i16 tr,
     write_i32 = thrift_binary_protocol_write_i32 tr,
     write_i64 = thrift_binary_protocol_write_i64 tr,
     write_u16 = thrift_binary_protocol_write_u16 tr,
     write_u32 = thrift_binary_protocol_write_u32 tr,
     write_u64 = thrift_binary_protocol_write_u64 tr,
     write_ipv4 = thrift_binary_protocol_write_ipv4 tr,
     write_ipaddr = thrift_binary_protocol_write_ipaddr tr,
     write_double = thrift_binary_protocol_write_double tr,
     write_string = thrift_binary_protocol_write_string tr,
     write_binary = thrift_binary_protocol_write_binary tr,
     write_xml = thrift_binary_protocol_write_string tr,
     write_uuid_t = thrift_binary_protocol_write_uuid_t tr,
     read_sandesh_begin = thrift_binary_protocol_read_sandesh_begin mem tr,
     read_sandesh_end = thrift_binary_protocol_read_sandesh_end,
     read_struct_begin = thrift_binary_protocol_read_struct_begin,
     read_struct_end = thrift_binary_protocol_read_struct_end,
     read_field_begin = thrift_binary_protocol_read_field_begin tr,
     read_field_end = thrift_binary_protocol_read_field_end,
     read_list_begin = thrift_binary_protocol_read_list_begin tr,
     read_list_end = thrift_binary_protocol_read_list_end,
     read_bool = thrift_binary_protocol_read_bool tr,
     read_byte = thrift_binary_protocol_read_byte tr,
     read_i16 = thrift_binary_protocol_read_i16 tr,
     read_i32 = thrift_binary_protocol_read_i32 tr,
     read_i64 = thrift_binary_protocol_read_i64 tr,
     read_u16 = thrift_binary_protocol_read_u16 tr,
     read_u32 = thrift_binary_protocol_read_u32 tr,
     read_u64 = thrift_binary_protocol_read_u64 tr,
     read_ipv4 = thrift_binary_protocol_read_ipv4 tr,
     read_ipaddr = thrift_binary_protocol_read_ipaddr tr,
     read_double = thrift_binary_protocol_read_double tr,
     read_string = thrift_binary_protocol_read_string mem tr,
     read_binary = thrift_binary_protocol_read_binary mem tr,
     read_xml = thrift_binary_protocol_read_string mem tr,
     read_uuid_t = thrift_binary_protocol_read_uuid_t tr\<rparr>"

definition thrift_protocol_init ::
    "heap \<Rightarrow> 't ThriftProtocol \<Rightarrow> ThriftProtocolType \<Rightarrow> 't ThriftTransport \<Rightarrow> 't ThriftProtocol" where
  [dispatch]: "thrift_protocol_init mem xml pt tr =
     (case pt of
        T_PROTOCOL_BINARY \<Rightarrow> thrift_binary_protocol_init mem tr
      | T_PROTOCOL_XML \<Rightarrow> xml)"

end
