(* ===== verification/Thrift_Messages.thy ===== *)
theory Thrift_Messages
  imports Thrift_Binary
begin

text \<open>
  What the binary protocol sends and takes.  The lemmas are proved once from the laws of a sink
  and of a source, for each call and then for messages, sequences of calls; the properties
  are their instances for the memory buffer.
\<close>

subsection \<open>What the writers send\<close>

lemma negative_m1 [simp]: "negative (-1)"
  by (simp add: negative_def)

lemma negative_nat: "n < 2 ^ 31 \<Longrightarrow> \<not> negative (word_of_nat n)"
  by (simp add: negative_def sint_uint unsigned_of_nat signed_take_bit_int_eq_self take_bit_nat_eq_self
      flip: of_nat_take_bit)

text \<open>
  \<open>emits x f bs\<close>: with room for them, the writer \<open>f\<close> sends exactly the bytes \<open>bs\<close>, reports no
  error and returns \<open>x\<close> plus their number.
\<close>

context sink
begin

definition emits :: "int32 \<Rightarrow> 't writer \<Rightarrow> byte list \<Rightarrow> bool" where
  "emits x f bs = (length bs < 2 ^ 31 \<longrightarrow> (\<forall>t e. ok t \<longrightarrow> room t (length bs) \<longrightarrow>
     (\<exists>t'. f \<lparr>dev = t, err = e\<rparr> = Some (x + word_of_nat (length bs), \<lparr>dev = t', err = e\<rparr>) \<and> ok t' \<and>
           wrote t bs t' \<and> (\<forall>n. room t (length bs + n) \<longrightarrow> room t' n))))"

lemma emitsE:
  assumes "emits x f bs" and "length bs < 2 ^ 31" and "ok t" and "room t (length bs)"
  obtains t' where "f \<lparr>dev = t, err = e\<rparr> = Some (x + word_of_nat (length bs), \<lparr>dev = t', err = e\<rparr>)"
    and "ok t'" and "wrote t bs t'" and "\<And>n. room t (length bs + n) \<Longrightarrow> room t' n"
  using assms unfolding emits_def by blast

lemma emits_raw:
  assumes "n = word_of_nat (length bs)" and "m = x + n"
  shows "emits x (\<lambda>w. do { (r, w) \<leftarrow> thrift_transport_write tr bs n w;
                            Some (if r \<noteq> 0 then m else -1, w) }) bs"
  unfolding emits_def
proof (intro impI allI)
  fix t e assume "length bs < 2 ^ 31" and "ok t" and "room t (length bs)"
  then show "\<exists>t'. (do { (r, w) \<leftarrow> thrift_transport_write tr bs n \<lparr>dev = t, err = e\<rparr>;
                        Some (if r \<noteq> 0 then m else -1, w) }) =
      Some (x + word_of_nat (length bs), \<lparr>dev = t', err = e\<rparr>) \<and> ok t' \<and> wrote t bs t' \<and>
      (\<forall>n. room t (length bs + n) \<longrightarrow> room t' n)"
    using put [of t bs e] assms by (auto simp: thrift_transport_write_def)
qed

lemma emits_nil: "emits x (\<lambda>w. Some (x, w)) []"
  by (auto simp: emits_def wrote_nil)

lemma emits_checked:
  assumes f: "emits 0 f as" and g: "emits (x + word_of_nat (length as)) (k (x + word_of_nat (length as))) bs"
  shows "emits x (checked f x k) (as @ bs)"
  unfolding emits_def
proof (intro impI allI)
  fix t e assume len: "length (as @ bs) < 2 ^ 31" and t: "ok t" "room t (length (as @ bs))"
  have la: "length as < 2 ^ 31" and lb: "length bs < 2 ^ 31" and ra: "room t (length as)"
    using len room_less [OF t(2), of "length as"] by simp_all
  obtain t1 where t1: "f \<lparr>dev = t, err = e\<rparr> = Some (0 + word_of_nat (length as), \<lparr>dev = t1, err = e\<rparr>)"
      "ok t1" "wrote t as t1" "\<And>n. room t (length as + n) \<Longrightarrow> room t1 n"
    using emitsE [OF f la t(1) ra] by blast
  have rb: "room t1 (length bs)"
    using t1(4) t(2) by simp
  obtain t2 where t2: "k (x + word_of_nat (length as)) \<lparr>dev = t1, err = e\<rparr> =
        Some (x + word_of_nat (length as) + word_of_nat (length bs), \<lparr>dev = t2, err = e\<rparr>)"
      "ok t2" "wrote t1 bs t2" "\<And>n. room t1 (length bs + n) \<Longrightarrow> room t2 n"
    using emitsE [OF g lb t1(2) rb] by blast
  have "checked f x k \<lparr>dev = t, err = e\<rparr> =
      Some (x + word_of_nat (length (as @ bs)), \<lparr>dev = t2, err = e\<rparr>)"
    using t1(1) t2(1) negative_nat [OF la] by (simp add: checked_def add.assoc)
  moreover have "\<forall>n. room t (length (as @ bs) + n) \<longrightarrow> room t2 n"
    using t1(4) t2(4) by (simp add: add.assoc)
  ultimately show "\<exists>t'. checked f x k \<lparr>dev = t, err = e\<rparr> =
      Some (x + word_of_nat (length (as @ bs)), \<lparr>dev = t', err = e\<rparr>) \<and> ok t' \<and> wrote t (as @ bs) t' \<and>
      (\<forall>n. room t (length (as @ bs) + n) \<longrightarrow> room t' n)"
    using t2(2) wrote_append [OF t1(3) t2(3)] by blast
qed

lemma emits_last: "emits 0 f as \<Longrightarrow> emits x (checked f x (\<lambda>xfer w. Some (xfer, w))) as"
  using emits_checked [where k = "\<lambda>xfer w. Some (xfer, w)" and bs = "[]", OF _ emits_nil] by simp

lemma emits_byte: "emits 0 (thrift_binary_protocol_write_byte tr v) [v]"
  unfolding thrift_binary_protocol_write_byte_def by (rule emits_raw) simp_all

lemma emits_16:
  "emits 0 (thrift_binary_protocol_write_i16 tr v) (be_bytes 2 v)"
  "emits 0 (thrift_binary_protocol_write_u16 tr v) (be_bytes 2 v)"
  unfolding thrift_binary_protocol_write_i16_def thrift_binary_protocol_write_u16_def
  by (rule emits_raw; simp)+

lemma emits_32:
  "emits 0 (thrift_binary_protocol_write_i32 tr v) (be_bytes 4 v)"
  "emits 0 (thrift_binary_protocol_write_u32 tr v) (be_bytes 4 v)"
  "emits 0 (thrift_binary_protocol_write_ipv4 tr v) (be_bytes 4 v)"
  unfolding thrift_binary_protocol_write_i32_def thrift_binary_protocol_write_u32_def
    thrift_binary_protocol_write_ipv4_def
  by (rule emits_raw; simp)+

lemma emits_64:
  "emits 0 (thrift_binary_protocol_write_i64 tr v) (be_bytes 8 v)"
  "emits 0 (thrift_binary_protocol_write_u64 tr v) (be_bytes 8 v)"
  "emits 0 (thrift_binary_protocol_write_double tr v) (host_bytes v)"
  unfolding thrift_binary_protocol_write_i64_def thrift_binary_protocol_write_u64_def
    thrift_binary_protocol_write_double_def os_put_value64_be host_bytes_def
  by (rule emits_raw; simp)+

lemma emits_bool: "emits 0 (thrift_binary_protocol_write_bool tr v) [if v \<noteq> 0 then 1 else 0]"
  unfolding thrift_binary_protocol_write_bool_def by (rule emits_byte)

lemma emits_uuid: "length v = 16 \<Longrightarrow> emits 0 (thrift_binary_protocol_write_uuid_t tr v) v"
  unfolding thrift_binary_protocol_write_uuid_t_def by (rule emits_raw) simp_all

lemma emits_field_begin:
  "emits 0 (thrift_binary_protocol_write_field_begin tr name ty i) ([ucast ty] @ be_bytes 2 i)"
  unfolding thrift_binary_protocol_write_field_begin_def
  by (intro emits_checked emits_byte emits_last emits_16)

lemma emits_list_begin:
  "emits 0 (thrift_binary_protocol_write_list_begin tr ty n) ([ucast ty] @ be_bytes 4 n)"
  unfolding thrift_binary_protocol_write_list_begin_def
  by (intro emits_checked emits_byte emits_last emits_32)

lemma emits_field_stop: "emits 0 (thrift_binary_protocol_write_field_stop tr) [0]"
  unfolding thrift_binary_protocol_write_field_stop_def using emits_byte [of 0] by simp

lemma emits_binary:
  assumes "b = Some bs \<or> bs = []" and "length bs < 2 ^ 31"
  shows "emits 0 (thrift_binary_protocol_write_binary tr b (word_of_nat (length bs)))
           (be_bytes 4 (word_of_nat (length bs) :: uint32) @ bs)"
proof (cases "bs = []")
  case True
  then show ?thesis
    unfolding thrift_binary_protocol_write_binary_def by (simp add: emits_last emits_32)
next
  case False
  have "unat (word_of_nat (length bs) :: uint32) = length bs"
    using assms(2) by (intro unat_len) simp
  then have pos: "(word_of_nat (length bs) :: uint32) > 0"
    using False by (simp add: word_less_nat_alt)
  have swap: "(\<lambda>(n, w). if n = 0 then Some (-1, w) else Some (x, w)) =
      (\<lambda>(r, w). Some (if r \<noteq> 0 then x else -1, w))" for x :: int32
    by (auto simp: fun_eq_iff)
  have "emits 4 (\<lambda>w. do { (n, w) \<leftarrow> thrift_transport_write tr bs (word_of_nat (length bs)) w;
                           if n = 0 then Some (-1, w) else Some (4 + word_of_nat (length bs), w) }) bs"
    using emits_raw [of "word_of_nat (length bs)" bs "4 + word_of_nat (length bs)" 4]
    by (simp add: swap cong: bind_option_cong)
  then show ?thesis
    unfolding thrift_binary_protocol_write_binary_def using assms(1) False pos
    by (intro emits_checked emits_32) (simp cong: if_cong)
qed

lemma emits_string:
  assumes "0 \<notin> set (contents s)" and "length (contents s) < 2 ^ 31"
  shows "emits 0 (thrift_binary_protocol_write_string tr s)
           (be_bytes 4 (word_of_nat (length (contents s)) :: uint32) @ contents s)"
proof -
  have "takeWhile (\<lambda>c. c \<noteq> 0) (contents s) = contents s"
    using assms(1) by (simp add: takeWhile_eq_all_conv) metis
  then have "(case s of Some s \<Rightarrow> word_of_nat (c_strlen s) | None \<Rightarrow> 0) =
      (word_of_nat (length (contents s)) :: uint32)"
    by (cases s) (simp_all add: contents_def c_strlen_def del: takeWhile_eq_all_conv)
  moreover have "s = Some (contents s) \<or> contents s = []"
    by (cases s) (simp_all add: contents_def)
  ultimately show ?thesis
    unfolding thrift_binary_protocol_write_string_def Let_def
    using emits_binary [OF _ assms(2)] by simp
qed

lemma emits_sandesh_begin:
  assumes "0 \<notin> set (contents s)" and "length (contents s) < 2 ^ 31"
  shows "emits 0 (thrift_binary_protocol_write_sandesh_begin tr s)
           (be_bytes 4 (word_of_nat (length (contents s)) :: uint32) @ contents s)"
  unfolding thrift_binary_protocol_write_sandesh_begin_def
  by (rule emits_last [OF emits_string [OF assms]])

lemma emits_ipaddr:
  assumes "iptype v = AF_INET \<and> n = 4 \<or> iptype v = AF_INET6 \<and> n = 16" and "n \<le> length (ip_bytes v)"
  shows "emits 0 (thrift_binary_protocol_write_ipaddr tr v) ([iptype v] @ take n (ip_bytes v))"
proof -
  define x :: int32 where "x = 0 + word_of_nat (length [iptype v])"
  have "emits x (\<lambda>w. do { ip \<leftarrow> peek (ip_bytes v) 0 n;
                           (r, w) \<leftarrow> thrift_transport_write tr ip (word_of_nat n) w;
                           Some (if r \<noteq> 0 then x + word_of_nat n else -1, w) }) (take n (ip_bytes v))"
    using emits_raw [of "word_of_nat n" "take n (ip_bytes v)" "x + word_of_nat n" x] assms(2)
    by (simp add: peek_def)
  from emits_checked [where k = "\<lambda>x w. do { ip \<leftarrow> peek (ip_bytes v) 0 n;
                           (r, w) \<leftarrow> thrift_transport_write tr ip (word_of_nat n) w;
                           Some (if r \<noteq> 0 then x + word_of_nat n else -1, w) }",
      OF emits_byte [of "iptype v"] this [unfolded x_def]]
  show ?thesis
    using assms(1) unfolding thrift_binary_protocol_write_ipaddr_def by (auto cong: if_cong)
qed

end

subsection \<open>What the readers take\<close>

text \<open>
  \<open>takes x f bs v\<close>: the reader \<open>f\<close> consumes the bytes \<open>bs\<close> at the front of its source, returns
  \<open>x\<close> plus their number and stores \<open>v\<close>.  \<open>starves f bs\<close>: on a source that ends before the last of these
  bytes it returns \<open>-1\<close> and reports a receive error.
\<close>

lemma cut_append:
  assumes "p @ ys = as @ bs"
  shows "length p < length as \<or> (\<exists>q. p = as @ q \<and> q @ ys = bs)"
  using assms by (auto simp: append_eq_append_conv2)

context source
begin

definition takes :: "int32 \<Rightarrow> ('v, 't) reader \<Rightarrow> byte list \<Rightarrow> 'v \<Rightarrow> bool" where
  "takes x f bs v = (length bs < 2 ^ 31 \<longrightarrow> (\<forall>t e rest. ok t \<longrightarrow> pending t = bs @ rest \<longrightarrow>
     (\<exists>t'. f \<lparr>dev = t, err = e\<rparr> = Some (x + word_of_nat (length bs), v, \<lparr>dev = t', err = e\<rparr>) \<and>
           ok t' \<and> pending t' = rest)))"

definition starves :: "('v, 't) reader \<Rightarrow> byte list \<Rightarrow> bool" where
  "starves f bs = (length bs < 2 ^ 31 \<longrightarrow> (\<forall>t e ys. ok t \<longrightarrow> pending t @ ys = bs \<longrightarrow> ys \<noteq> [] \<longrightarrow>
     (\<exists>v t'. f \<lparr>dev = t, err = e\<rparr> = Some (-1, v, \<lparr>dev = t', err = THRIFT_TRANSPORT_ERROR_RECEIVE\<rparr>) \<and>
             ok t')))"

lemma takesE:
  assumes "takes x f bs v" and "length bs < 2 ^ 31" and "ok t" and "pending t = bs @ rest"
  obtains t' where "f \<lparr>dev = t, err = e\<rparr> = Some (x + word_of_nat (length bs), v, \<lparr>dev = t', err = e\<rparr>)"
    and "ok t'" and "pending t' = rest"
  using assms unfolding takes_def by blast

lemma takes_raw:
  assumes "ok t" and "pending t = bs @ rest" and "n = word_of_nat (length bs)" and "length bs < 2 ^ 31"
  obtains t' where "thrift_transport_read tr n \<lparr>dev = t, err = e\<rparr> = Some (n, bs, \<lparr>dev = t', err = e\<rparr>)"
    and "ok t'" and "pending t' = rest"
  using get [of t bs rest e] assms unfolding thrift_transport_read_def by blast

lemma raw_short:
  "ok t \<Longrightarrow> length (pending t) < unat n \<Longrightarrow>
   thrift_transport_read tr n \<lparr>dev = t, err = e\<rparr> =
     Some (-1, [], \<lparr>dev = t, err = THRIFT_TRANSPORT_ERROR_RECEIVE\<rparr>)"
  unfolding thrift_transport_read_def by (rule short)

lemma takes_fixed:
  assumes "n = word_of_nat (length bs)" and "v = Some (value bs)"
  shows "takes 0 (fixed tr n value) bs v"
  unfolding takes_def
proof (intro impI allI)
  fix t e rest assume len: "length bs < 2 ^ 31" and t: "ok t" "pending t = bs @ rest"
  obtain t' where "thrift_transport_read tr n \<lparr>dev = t, err = e\<rparr> = Some (n, bs, \<lparr>dev = t', err = e\<rparr>)"
      "ok t'" "pending t' = rest"
    using takes_raw [OF t assms(1) len] by blast
  then show "\<exists>t'. fixed tr n value \<lparr>dev = t, err = e\<rparr> =
      Some (0 + word_of_nat (length bs), v, \<lparr>dev = t', err = e\<rparr>) \<and> ok t' \<and> pending t' = rest"
    using assms negative_nat [OF len] by (simp add: fixed_def)
qed

lemma fixed_short:
  "ok t \<Longrightarrow> length (pending t) < unat n \<Longrightarrow>
   fixed tr n value \<lparr>dev = t, err = e\<rparr> = Some (-1, None, \<lparr>dev = t, err = THRIFT_TRANSPORT_ERROR_RECEIVE\<rparr>)"
  by (simp add: fixed_def raw_short)

lemma starves_fixed: "length bs = unat n \<Longrightarrow> starves (fixed tr n value) bs"
  unfolding starves_def
proof (intro impI allI)
  fix t e ys assume "length bs = unat n" and "ok t" and "pending t @ ys = bs" and "ys \<noteq> []"
  moreover from this have "length (pending t) < unat n"
    by (metis length_append length_greater_0_conv less_add_same_cancel1)
  ultimately show "\<exists>v t'. fixed tr n value \<lparr>dev = t, err = e\<rparr> =
      Some (-1, v, \<lparr>dev = t', err = THRIFT_TRANSPORT_ERROR_RECEIVE\<rparr>) \<and> ok t'"
    by (simp add: fixed_short)
qed

lemmas fixed_defs =
  thrift_binary_protocol_read_bool_def thrift_binary_protocol_read_byte_def
  thrift_binary_protocol_read_i16_def thrift_binary_protocol_read_u16_def
  thrift_binary_protocol_read_i32_def thrift_binary_protocol_read_u32_def
  thrift_binary_protocol_read_i64_def thrift_binary_protocol_read_u64_def
  thrift_binary_protocol_read_ipv4_def thrift_binary_protocol_read_uuid_t_def
  thrift_binary_protocol_read_double_def

lemma takes_byte: "takes 0 (thrift_binary_protocol_read_byte tr) [v] (Some v)"
  unfolding fixed_defs by (rule takes_fixed) simp_all

lemma takes_bool: "takes 0 (thrift_binary_protocol_read_bool tr) [v] (Some (if v \<noteq> 0 then 1 else 0))"
  unfolding fixed_defs by (rule takes_fixed) simp_all

lemma takes_16:
  "takes 0 (thrift_binary_protocol_read_i16 tr) (be_bytes 2 v) (Some v)"
  "takes 0 (thrift_binary_protocol_read_u16 tr) (be_bytes 2 v) (Some v)"
  unfolding fixed_defs by (rule takes_fixed; simp add: be_value_bytes)+

lemma takes_32:
  "takes 0 (thrift_binary_protocol_read_i32 tr) (be_bytes 4 v) (Some v)"
  "takes 0 (thrift_binary_protocol_read_u32 tr) (be_bytes 4 v) (Some v)"
  "takes 0 (thrift_binary_protocol_read_ipv4 tr) (be_bytes 4 v) (Some v)"
  unfolding fixed_defs by (rule takes_fixed; simp add: be_value_bytes)+

lemma takes_64:
  "takes 0 (thrift_binary_protocol_read_i64 tr) (be_bytes 8 v) (Some v)"
  "takes 0 (thrift_binary_protocol_read_u64 tr) (be_bytes 8 v) (Some v)"
  "takes 0 (thrift_binary_protocol_read_double tr) (host_bytes v) (Some v)"
  unfolding fixed_defs
  by (rule takes_fixed; simp add: be_value_bytes os_get_value64_be host_bytes_def host_value_def)+

lemma takes_uuid: "length v = 16 \<Longrightarrow> takes 0 (thrift_binary_protocol_read_uuid_t tr) v (Some v)"
  unfolding fixed_defs by (rule takes_fixed) simp_all

lemma starves_scalars:
  "length bs = 1 \<Longrightarrow> starves (thrift_binary_protocol_read_bool tr) bs"
  "length bs = 1 \<Longrightarrow> starves (thrift_binary_protocol_read_byte tr) bs"
  "length bs = 2 \<Longrightarrow> starves (thrift_binary_protocol_read_i16 tr) bs"
  "length bs = 2 \<Longrightarrow> starves (thrift_binary_protocol_read_u16 tr) bs"
  "length bs = 4 \<Longrightarrow> starves (thrift_binary_protocol_read_i32 tr) bs"
  "length bs = 4 \<Longrightarrow> starves (thrift_binary_protocol_read_u32 tr) bs"
  "length bs = 4 \<Longrightarrow> starves (thrift_binary_protocol_read_ipv4 tr) bs"
  "length bs = 8 \<Longrightarrow> starves (thrift_binary_protocol_read_i64 tr) bs"
  "length bs = 8 \<Longrightarrow> starves (thrift_binary_protocol_read_u64 tr) bs"
  "length bs = 8 \<Longrightarrow> starves (thrift_binary_protocol_read_double tr) bs"
  "length bs = 16 \<Longrightarrow> starves (thrift_binary_protocol_read_uuid_t tr) bs"
  unfolding fixed_defs by (rule starves_fixed; simp)+

lemma takes_seq:
  assumes f: "takes 0 f as (Some v)"
    and g: "takes (word_of_nat (length as)) (g (word_of_nat (length as)) v) bs u"
  shows "takes 0 (\<lambda>w. do { (ret, x, w) \<leftarrow> f w;
                            case x of None \<Rightarrow> Some (-1, a, w) | Some v \<Rightarrow> g ret v w }) (as @ bs) u"
  unfolding takes_def
proof (intro impI allI)
  fix t e rest assume len: "length (as @ bs) < 2 ^ 31" and t: "ok t" "pending t = (as @ bs) @ rest"
  have la: "length as < 2 ^ 31" and lb: "length bs < 2 ^ 31" and pa: "pending t = as @ (bs @ rest)"
    using len t by simp_all
  obtain t1 where t1: "f \<lparr>dev = t, err = e\<rparr> = Some (0 + word_of_nat (length as), Some v, \<lparr>dev = t1, err = e\<rparr>)"
      "ok t1" "pending t1 = bs @ rest"
    using takesE [OF f la t(1) pa] by blast
  obtain t2 where "g (word_of_nat (length as)) v \<lparr>dev = t1, err = e\<rparr> =
        Some (word_of_nat (length as) + word_of_nat (length bs), u, \<lparr>dev = t2, err = e\<rparr>)"
      "ok t2" "pending t2 = rest"
    using takesE [OF g lb t1(2,3)] by blast
  then show "\<exists>t'. (do { (ret, x, w) \<leftarrow> f \<lparr>dev = t, err = e\<rparr>;
                        case x of None \<Rightarrow> Some (-1, a, w) | Some v \<Rightarrow> g ret v w }) =
      Some (0 + word_of_nat (length (as @ bs)), u, \<lparr>dev = t', err = e\<rparr>) \<and> ok t' \<and> pending t' = rest"
    using t1(1) by simp
qed

lemma starves_seq:
  assumes f: "takes 0 (fixed tr n value) as (Some v)" and n: "unat n = length as"
    and g: "starves (g (word_of_nat (length as)) v) bs"
  shows "starves (\<lambda>w. do { (ret, x, w) \<leftarrow> fixed tr n value w;
                            case x of None \<Rightarrow> Some (-1, a, w) | Some v \<Rightarrow> g ret v w }) (as @ bs)"
  unfolding starves_def
proof (intro impI allI)
  fix t e ys assume len: "length (as @ bs) < 2 ^ 31" and t: "ok t" "pending t @ ys = as @ bs" "ys \<noteq> []"
  have la: "length as < 2 ^ 31" and lb: "length bs < 2 ^ 31"
    using len by simp_all
  show "\<exists>u t'. (do { (ret, x, w) \<leftarrow> fixed tr n value \<lparr>dev = t, err = e\<rparr>;
                     case x of None \<Rightarrow> Some (-1, a, w) | Some v \<Rightarrow> g ret v w }) =
      Some (-1, u, \<lparr>dev = t', err = THRIFT_TRANSPORT_ERROR_RECEIVE\<rparr>) \<and> ok t'"
  proof (cases "length (pending t) < length as")
    case True
    then show ?thesis
      using n t(1) by (simp add: fixed_short)
  next
    case False
    then obtain q where q: "pending t = as @ q" "q @ ys = bs"
      using cut_append [OF t(2)] by blast
    obtain t1 where t1: "fixed tr n value \<lparr>dev = t, err = e\<rparr> =
          Some (0 + word_of_nat (length as), Some v, \<lparr>dev = t1, err = e\<rparr>)" "ok t1" "pending t1 = q"
      using takesE [OF f la t(1) q(1)] by blast
    then show ?thesis
      using g lb t(3) q(2) unfolding starves_def by fastforce
  qed
qed

lemma takes_nil: "v = u \<Longrightarrow> y = x \<Longrightarrow> takes x (\<lambda>w. Some (y, v, w)) [] u"
  by (auto simp: takes_def)

lemma starves_nil: "starves f []"
  by (simp add: starves_def)

lemma takes_read:
  assumes "n = word_of_nat (length bs)" and "v = h bs"
  shows "takes x (\<lambda>w. do { (ret, bs, w) \<leftarrow> thrift_transport_read tr n w;
                            if negative ret then Some (-1, a, w) else Some (x + ret, h bs, w) }) bs v"
  unfolding takes_def
proof (intro impI allI)
  fix t e rest assume len: "length bs < 2 ^ 31" and t: "ok t" "pending t = bs @ rest"
  obtain t' where "thrift_transport_read tr n \<lparr>dev = t, err = e\<rparr> = Some (n, bs, \<lparr>dev = t', err = e\<rparr>)"
      "ok t'" "pending t' = rest"
    using takes_raw [OF t assms(1) len] by blast
  then show "\<exists>t'. (do { (ret, bs, w) \<leftarrow> thrift_transport_read tr n \<lparr>dev = t, err = e\<rparr>;
                        if negative ret then Some (-1, a, w) else Some (x + ret, h bs, w) }) =
      Some (x + word_of_nat (length bs), v, \<lparr>dev = t', err = e\<rparr>) \<and> ok t' \<and> pending t' = rest"
    using assms negative_nat [OF len] by simp
qed

lemma starves_read:
  assumes "length bs = unat n"
  shows "starves (\<lambda>w. do { (ret, bs, w) \<leftarrow> thrift_transport_read tr n w;
                            if negative ret then Some (-1, a, w) else k ret bs w }) bs"
  unfolding starves_def
proof (intro impI allI)
  fix t e ys assume "ok t" and "pending t @ ys = bs" and "ys \<noteq> []"
  moreover from this have "length (pending t) < unat n"
    using assms by (metis length_append length_greater_0_conv less_add_same_cancel1)
  ultimately show "\<exists>v t'. (do { (ret, bs, w) \<leftarrow> thrift_transport_read tr n \<lparr>dev = t, err = e\<rparr>;
        if negative ret then Some (-1, a, w) else k ret bs w }) =
      Some (-1, v, \<lparr>dev = t', err = THRIFT_TRANSPORT_ERROR_RECEIVE\<rparr>) \<and> ok t'"
    by (simp add: raw_short)
qed

end

subsection \<open>Headers, strings and addresses\<close>

lemma scast_type: "unat ty < 128 \<Longrightarrow> (scast (ucast (ty :: uint32) :: byte) :: uint32) = ty"
proof -
  assume "unat ty < 128"
  then have "ty = word_of_nat (unat ty)" and "unat ty < 2 ^ 7"
    by simp_all
  then obtain n where "ty = word_of_nat n" "n < 2 ^ 7"
    by blast
  then have "take_bit 7 ty = ty"
    by (simp add: take_bit_of_nat take_bit_nat_eq_self)
  then have "7 \<le> n \<Longrightarrow> \<not> bit ty n" for n
    by (metis bit_take_bit_iff not_less)
  then show ?thesis
    by (intro bit_word_eqI) (auto simp: bit_simps min_def)
qed

lemma scast_byte_zero: "(scast (b :: byte) :: uint32) = 0 \<longleftrightarrow> b = 0"
proof
  assume zero: "(scast b :: uint32) = 0"
  have "\<not> bit b n" if "n < 8" for n
  proof -
    have "min 7 n = n"
      using that by simp
    moreover have "\<not> bit (scast b :: uint32) n"
      using zero by simp
    ultimately show ?thesis
      using that by (simp add: bit_simps)
  qed
  then show "b = 0"
    by (intro bit_word_eqI) simp
qed simp

lemma sint_len: "n < 2 ^ 31 \<Longrightarrow> sint (word_of_nat n :: int32) = int n"
  by (simp add: sint_uint unsigned_of_nat signed_take_bit_int_eq_self take_bit_nat_eq_self
      flip: of_nat_take_bit)

context source
begin

lemma takes_map:
  assumes f: "takes 0 f bs v"
    and k: "\<And>w. length bs < 2 ^ 31 \<Longrightarrow> k (word_of_nat (length bs)) v w = Some (x + word_of_nat (length bs), u, w)"
  shows "takes x (\<lambda>w. do { (ret, v, w) \<leftarrow> f w; k ret v w }) bs u"
  unfolding takes_def
proof (intro impI allI)
  fix t e rest assume len: "length bs < 2 ^ 31" and t: "ok t" "pending t = bs @ rest"
  obtain t' where "f \<lparr>dev = t, err = e\<rparr> = Some (0 + word_of_nat (length bs), v, \<lparr>dev = t', err = e\<rparr>)"
      "ok t'" "pending t' = rest"
    using takesE [OF f len t] by blast
  then show "\<exists>t'. (do { (ret, v, w) \<leftarrow> f \<lparr>dev = t, err = e\<rparr>; k ret v w }) =
      Some (x + word_of_nat (length bs), u, \<lparr>dev = t', err = e\<rparr>) \<and> ok t' \<and> pending t' = rest"
    using k [OF len] by simp
qed

lemma starves_map:
  assumes n: "length bs = unat n" and k: "\<And>w. \<exists>u. k (-1) None w = Some (-1, u, w)"
  shows "starves (\<lambda>w. do { (ret, v, w) \<leftarrow> fixed tr n value w; k ret v w }) bs"
  unfolding starves_def
proof (intro impI allI)
  fix t e ys assume "ok t" and "pending t @ ys = bs" and "ys \<noteq> []"
  moreover from this have "length (pending t) < unat n"
    using n by (metis length_append length_greater_0_conv less_add_same_cancel1)
  ultimately show "\<exists>v t'. (do { (ret, v, w) \<leftarrow> fixed tr n value \<lparr>dev = t, err = e\<rparr>; k ret v w }) =
      Some (-1, v, \<lparr>dev = t', err = THRIFT_TRANSPORT_ERROR_RECEIVE\<rparr>) \<and> ok t'"
    using k [of "\<lparr>dev = t, err = THRIFT_TRANSPORT_ERROR_RECEIVE\<rparr>"] by (auto simp: fixed_short)
qed

lemma starves_after:
  assumes f: "starves f bs" and k: "\<And>v w. \<exists>u. k (-1) v w = Some (-1, u, w)"
  shows "starves (\<lambda>w. do { (ret, v, w) \<leftarrow> f w; k ret v w }) bs"
  unfolding starves_def
proof (intro impI allI)
  fix t e ys assume "length bs < 2 ^ 31" and "ok t" and "pending t @ ys = bs" and "ys \<noteq> []"
  then obtain v t' where "f \<lparr>dev = t, err = e\<rparr> =
      Some (-1, v, \<lparr>dev = t', err = THRIFT_TRANSPORT_ERROR_RECEIVE\<rparr>)" "ok t'"
    using f unfolding starves_def by blast
  then show "\<exists>v t'. (do { (ret, v, w) \<leftarrow> f \<lparr>dev = t, err = e\<rparr>; k ret v w }) =
      Some (-1, v, \<lparr>dev = t', err = THRIFT_TRANSPORT_ERROR_RECEIVE\<rparr>) \<and> ok t'"
    using k [of v "\<lparr>dev = t', err = THRIFT_TRANSPORT_ERROR_RECEIVE\<rparr>"] by auto
qed

lemma takes_field_stop: "takes 0 (thrift_binary_protocol_read_field_begin tr) [0] (Some 0, Some 0)"
  unfolding thrift_binary_protocol_read_field_begin_def
  by (rule takes_map [OF takes_byte]) simp

lemma takes_field_begin:
  "ty \<noteq> 0 \<Longrightarrow>
   takes 0 (thrift_binary_protocol_read_field_begin tr) ([ty] @ be_bytes 2 i) (Some (scast ty), Some i)"
  unfolding thrift_binary_protocol_read_field_begin_def
  by (rule takes_seq [OF takes_byte])
    (simp add: Let_def scast_byte_zero, rule takes_map [OF takes_16(1)], simp add: negative_def)

lemma starves_field_begin:
  assumes "ty \<noteq> 0 \<and> bs = be_bytes 2 i \<or> ty = 0 \<and> bs = []"
  shows "starves (thrift_binary_protocol_read_field_begin tr) ([ty] @ bs)"
  unfolding thrift_binary_protocol_read_field_begin_def thrift_binary_protocol_read_byte_def
  by (rule starves_seq [OF takes_byte [unfolded thrift_binary_protocol_read_byte_def]])
    (use assms in \<open>auto simp: Let_def scast_byte_zero starves_nil fixed_defs intro!: starves_map\<close>)

lemma takes_list_begin:
  "\<not> negative n \<Longrightarrow>
   takes 0 (thrift_binary_protocol_read_list_begin tr) ([ty] @ be_bytes 4 n) (Some (scast ty), Some n)"
  unfolding thrift_binary_protocol_read_list_begin_def
  by (rule takes_seq [OF takes_byte])
    (simp add: Let_def, rule takes_map [OF takes_32(1)], simp)

lemma starves_list_begin:
  "starves (thrift_binary_protocol_read_list_begin tr) ([ty] @ be_bytes 4 (n :: uint32))"
  unfolding thrift_binary_protocol_read_list_begin_def thrift_binary_protocol_read_byte_def
  by (rule starves_seq [OF takes_byte [unfolded thrift_binary_protocol_read_byte_def]])
    (auto simp: Let_def fixed_defs intro!: starves_map)

lemma takes_string:
  assumes "provides mem" and "length s < 2 ^ 31"
  shows "takes 0 (thrift_binary_protocol_read_string mem tr)
           (be_bytes 4 (word_of_nat (length s) :: int32) @ s) (Some (if s = [] then None else Some s))"
  unfolding thrift_binary_protocol_read_string_def
proof (rule takes_seq [OF takes_32(1)], goal_cases)
  case 1
  obtain b where b: "os_malloc mem (unat (word_of_nat (length s) + 1 :: uint32)) = Some b"
    using os_malloc_provides [OF assms(1)] by blast
  show ?case
    using assms(2) b
    by (cases "s = []") (simp_all add: Let_def sint_len takes_nil takes_read)
qed

lemma starves_string:
  assumes "provides mem" and "length s < 2 ^ 31"
  shows "starves (thrift_binary_protocol_read_string mem tr)
           (be_bytes 4 (word_of_nat (length s) :: int32) @ s)"
  unfolding thrift_binary_protocol_read_string_def thrift_binary_protocol_read_i32_def
proof (rule starves_seq [OF takes_32(1) [unfolded thrift_binary_protocol_read_i32_def]], simp, goal_cases)
  case 1
  obtain b where b: "os_malloc mem (unat (word_of_nat (length s) + 1 :: uint32)) = Some b"
    using os_malloc_provides [OF assms(1)] by blast
  have "unat (word_of_nat (length s) :: uint32) = length s"
    using assms(2) by (intro unat_len) simp
  then show ?case
    using assms(2) b
    by (cases "s = []") (simp_all add: Let_def sint_len starves_nil starves_read)
qed

lemma takes_binary:
  assumes "provides mem" and "length s < 2 ^ 31"
  shows "takes 0 (thrift_binary_protocol_read_binary mem tr)
           (be_bytes 4 (word_of_nat (length s) :: int32) @ s)
           (if s = [] then (Some None, None) else (Some (Some s), Some (word_of_nat (length s))))"
  unfolding thrift_binary_protocol_read_binary_def
proof (rule takes_seq [OF takes_32(1)], goal_cases)
  case 1
  obtain b where b: "os_malloc mem (unat (word_of_nat (length s) :: uint32)) = Some b"
    using os_malloc_provides [OF assms(1)] by blast
  show ?case
    using assms(2) b
    by (cases "s = []") (simp_all add: Let_def sint_len takes_nil takes_read)
qed

lemma starves_binary:
  assumes "provides mem" and "length s < 2 ^ 31"
  shows "starves (thrift_binary_protocol_read_binary mem tr)
           (be_bytes 4 (word_of_nat (length s) :: int32) @ s)"
  unfolding thrift_binary_protocol_read_binary_def thrift_binary_protocol_read_i32_def
proof (rule starves_seq [OF takes_32(1) [unfolded thrift_binary_protocol_read_i32_def]], simp, goal_cases)
  case 1
  obtain b where b: "os_malloc mem (unat (word_of_nat (length s) :: uint32)) = Some b"
    using os_malloc_provides [OF assms(1)] by blast
  have "unat (word_of_nat (length s) :: uint32) = length s"
    using assms(2) by (intro unat_len) simp
  then show ?case
    using assms(2) b
    by (cases "s = []") (simp_all add: Let_def sint_len starves_nil starves_read)
qed

lemma takes_sandesh_begin:
  assumes "provides mem" and "length s < 2 ^ 31"
  shows "takes 0 (thrift_binary_protocol_read_sandesh_begin mem tr)
           (be_bytes 4 (word_of_nat (length s) :: int32) @ s) (Some (if s = [] then None else Some s))"
  unfolding thrift_binary_protocol_read_sandesh_begin_def
  by (rule takes_map [OF takes_string [OF assms]]) (simp add: negative_nat del: of_nat_add)

lemma starves_sandesh_begin:
  assumes "provides mem" and "length s < 2 ^ 31"
  shows "starves (thrift_binary_protocol_read_sandesh_begin mem tr)
           (be_bytes 4 (word_of_nat (length s) :: int32) @ s)"
  unfolding thrift_binary_protocol_read_sandesh_begin_def
  by (rule starves_after [OF starves_string [OF assms]]) simp

lemma takes_ipaddr:
  assumes "ty = AF_INET \<and> length ip = 4 \<or> ty = AF_INET6 \<and> length ip = 16"
  shows "takes 0 (thrift_binary_protocol_read_ipaddr tr v) ([ty] @ ip)
           (v\<lparr>iptype := ty, ip_bytes := ip @ drop (length ip) (ip_bytes v)\<rparr>)"
  unfolding thrift_binary_protocol_read_ipaddr_def
  by (rule takes_seq [OF takes_byte])
    (use assms in \<open>auto simp: Let_def intro!: takes_read\<close>)

lemma starves_ipaddr:
  assumes "ty = AF_INET \<and> length ip = 4 \<or> ty = AF_INET6 \<and> length ip = 16"
  shows "starves (thrift_binary_protocol_read_ipaddr tr v) ([ty] @ ip)"
  unfolding thrift_binary_protocol_read_ipaddr_def thrift_binary_protocol_read_byte_def
  by (rule starves_seq [OF takes_byte [unfolded thrift_binary_protocol_read_byte_def]])
    (use assms in \<open>auto simp: Let_def intro!: starves_read\<close>)

end

subsection \<open>Messages\<close>

text \<open>
  An \<open>item\<close> is one call of the protocol's interface.  \<open>write_item\<close> makes the call with its
  value; \<open>read_like\<close> makes the read call that answers it and rebuilds the item.  A message is
  a sequence of items.  \<open>enc\<close> is the wire format.
\<close>

datatype item =
    I_sandesh_begin "byte list option" | I_sandesh_end
  | I_struct_begin | I_struct_end
  | I_field_begin ThriftType "16 word" | I_field_end | I_field_stop
  | I_list_begin ThriftType uint32 | I_list_end
  | I_bool byte | I_byte byte | I_i16 "16 word" | I_i32 int32 | I_i64 uint64
  | I_u16 "16 word" | I_u32 uint32 | I_u64 uint64 | I_ipv4 uint32 | I_ipaddr ipaddr_t
  | I_double uint64 | I_string "byte list option" | I_binary "byte list" | I_xml "byte list option"
  | I_uuid "byte list"

fun write_item :: "'t ThriftProtocol \<Rightarrow> item \<Rightarrow> 't writer" where
  "write_item p (I_sandesh_begin s) = thrift_protocol_write_sandesh_begin p s"
| "write_item p I_sandesh_end = thrift_protocol_write_sandesh_end p"
| "write_item p I_struct_begin = thrift_protocol_write_struct_begin p None"
| "write_item p I_struct_end = thrift_protocol_write_struct_end p"
| "write_item p (I_field_begin ty i) = thrift_protocol_write_field_begin p None ty i"
| "write_item p I_field_end = thrift_protocol_write_field_end p"
| "write_item p I_field_stop = thrift_protocol_write_field_stop p"
| "write_item p (I_list_begin ty n) = thrift_protocol_write_list_begin p ty n"
| "write_item p I_list_end = thrift_protocol_write_list_end p"
| "write_item p (I_bool v) = thrift_protocol_write_bool p v"
| "write_item p (I_byte v) = thrift_protocol_write_byte p v"
| "write_item p (I_i16 v) = thrift_protocol_write_i16 p v"
| "write_item p (I_i32 v) = thrift_protocol_write_i32 p v"
| "write_item p (I_i64 v) = thrift_protocol_write_i64 p v"
| "write_item p (I_u16 v) = thrift_protocol_write_u16 p v"
| "write_item p (I_u32 v) = thrift_protocol_write_u32 p v"
| "write_item p (I_u64 v) = thrift_protocol_write_u64 p v"
| "write_item p (I_ipv4 v) = thrift_protocol_write_ipv4 p v"
| "write_item p (I_ipaddr v) = thrift_protocol_write_ipaddr p v"
| "write_item p (I_double v) = thrift_protocol_write_double p v"
| "write_item p (I_string s) = thrift_protocol_write_string p s"
| "write_item p (I_binary b) = thrift_protocol_write_binary p (Some b) (word_of_nat (length b))"
| "write_item p (I_xml s) = thrift_protocol_write_xml p s"
| "write_item p (I_uuid v) = thrift_protocol_write_uuid_t p v"

definition stored :: "('v, 't) reader \<Rightarrow> ('v \<Rightarrow> item) \<Rightarrow> (item, 't) reader" where
  "stored f c w = do { (ret, v, w) \<leftarrow> f w; Some (ret, c v, w) }"

definition nothing :: "'t writer \<Rightarrow> item \<Rightarrow> (item, 't) reader" where
  "nothing f i w = do { (ret, w) \<leftarrow> f w; Some (ret, i, w) }"

definition no_address :: ipaddr_t where
  "no_address = \<lparr>iptype = 0, ip_bytes = replicate 16 0\<rparr>"

fun read_like :: "'t ThriftProtocol \<Rightarrow> item \<Rightarrow> (item, 't) reader" where
  "read_like p (I_sandesh_begin s) = stored (thrift_protocol_read_sandesh_begin p) (I_sandesh_begin \<circ> the)"
| "read_like p I_sandesh_end = nothing (thrift_protocol_read_sandesh_end p) I_sandesh_end"
| "read_like p I_struct_begin = stored (thrift_protocol_read_struct_begin p) (\<lambda>_. I_struct_begin)"
| "read_like p I_struct_end = nothing (thrift_protocol_read_struct_end p) I_struct_end"
| "read_like p (I_field_begin ty i) =
     stored (thrift_protocol_read_field_begin p) (\<lambda>(ty, i). I_field_begin (the ty) (the i))"
| "read_like p I_field_end = nothing (thrift_protocol_read_field_end p) I_field_end"
| "read_like p I_field_stop =
     stored (thrift_protocol_read_field_begin p)
       (\<lambda>(ty, i). if the ty = T_STOP then I_field_stop else I_field_begin (the ty) (the i))"
| "read_like p (I_list_begin ty n) =
     stored (thrift_protocol_read_list_begin p) (\<lambda>(ty, n). I_list_begin (the ty) (the n))"
| "read_like p I_list_end = nothing (thrift_protocol_read_list_end p) I_list_end"
| "read_like p (I_bool v) = stored (thrift_protocol_read_bool p) (I_bool \<circ> the)"
| "read_like p (I_byte v) = stored (thrift_protocol_read_byte p) (I_byte \<circ> the)"
| "read_like p (I_i16 v) = stored (thrift_protocol_read_i16 p) (I_i16 \<circ> the)"
| "read_like p (I_i32 v) = stored (thrift_protocol_read_i32 p) (I_i32 \<circ> the)"
| "read_like p (I_i64 v) = stored (thrift_protocol_read_i64 p) (I_i64 \<circ> the)"
| "read_like p (I_u16 v) = stored (thrift_protocol_read_u16 p) (I_u16 \<circ> the)"
| "read_like p (I_u32 v) = stored (thrift_protocol_read_u32 p) (I_u32 \<circ> the)"
| "read_like p (I_u64 v) = stored (thrift_protocol_read_u64 p) (I_u64 \<circ> the)"
| "read_like p (I_ipv4 v) = stored (thrift_protocol_read_ipv4 p) (I_ipv4 \<circ> the)"
| "read_like p (I_ipaddr v) = stored (thrift_protocol_read_ipaddr p no_address) I_ipaddr"
| "read_like p (I_double v) = stored (thrift_protocol_read_double p) (I_double \<circ> the)"
| "read_like p (I_string s) = stored (thrift_protocol_read_string p) (I_string \<circ> the)"
| "read_like p (I_binary b) = stored (thrift_protocol_read_binary p) (\<lambda>(b, n). I_binary (contents (the b)))"
| "read_like p (I_xml s) = stored (thrift_protocol_read_xml p) (I_xml \<circ> the)"
| "read_like p (I_uuid v) = stored (thrift_protocol_read_uuid_t p) (I_uuid \<circ> the)"

fun write_items :: "'t ThriftProtocol \<Rightarrow> item list \<Rightarrow> 't writer" where
  "write_items p [] = (\<lambda>w. Some (0, w))"
| "write_items p (i # ms) =
     checked (write_item p i) 0 (\<lambda>xfer. checked (write_items p ms) xfer (\<lambda>xfer w. Some (xfer, w)))"

fun read_items :: "'t ThriftProtocol \<Rightarrow> item list \<Rightarrow> (item list, 't) reader" where
  "read_items p [] = (\<lambda>w. Some (0, [], w))"
| "read_items p (i # ms) = (\<lambda>w. do {
     (ret, v, w) \<leftarrow> read_like p i w;
     if negative ret then Some (-1, [], w)
     else do {
       (ret', vs, w) \<leftarrow> read_items p ms w;
       if negative ret' then Some (-1, v # vs, w) else Some (ret + ret', v # vs, w)
     } })"

definition enc_bytes :: "byte list \<Rightarrow> byte list" where
  "enc_bytes s = be_bytes 4 (word_of_nat (length s) :: uint32) @ s"

fun enc :: "item \<Rightarrow> byte list" where
  "enc (I_sandesh_begin s) = enc_bytes (contents s)"
| "enc (I_field_begin ty i) = [ucast ty] @ be_bytes 2 i"
| "enc I_field_stop = [0]"
| "enc (I_list_begin ty n) = [ucast ty] @ be_bytes 4 n"
| "enc (I_bool v) = [v]"
| "enc (I_byte v) = [v]"
| "enc (I_i16 v) = be_bytes 2 v"
| "enc (I_i32 v) = be_bytes 4 v"
| "enc (I_i64 v) = be_bytes 8 v"
| "enc (I_u16 v) = be_bytes 2 v"
| "enc (I_u32 v) = be_bytes 4 v"
| "enc (I_u64 v) = be_bytes 8 v"
| "enc (I_ipv4 v) = be_bytes 4 v"
| "enc (I_ipaddr v) = [iptype v] @ take (if iptype v = AF_INET then 4 else 16) (ip_bytes v)"
| "enc (I_double v) = host_bytes v"
| "enc (I_string s) = enc_bytes (contents s)"
| "enc (I_binary b) = enc_bytes b"
| "enc (I_xml s) = enc_bytes (contents s)"
| "enc (I_uuid v) = v"
| "enc _ = []"

text \<open>
  The values a caller may pass: Booleans are 0 or 1, addresses of a known family, type codes
  fit in a signed byte, sizes in a signed word, strings have no inner terminator and an empty
  string is the null pointer, as which it comes back.
\<close>

definition string_ok :: "byte list option \<Rightarrow> bool" where
  "string_ok s = (s \<noteq> Some [] \<and> 0 \<notin> set (contents s) \<and> length (contents s) < 2 ^ 31)"

fun item_ok :: "item \<Rightarrow> bool" where
  "item_ok (I_sandesh_begin s) = string_ok s"
| "item_ok (I_field_begin ty i) = (ty \<noteq> T_STOP \<and> unat ty < 128)"
| "item_ok (I_list_begin ty n) = (unat ty < 128 \<and> \<not> negative n)"
| "item_ok (I_bool v) = (v = 0 \<or> v = 1)"
| "item_ok (I_ipaddr v) =
     ((iptype v = AF_INET \<and> drop 4 (ip_bytes v) = replicate 12 0 \<or> iptype v = AF_INET6) \<and>
      length (ip_bytes v) = 16)"
| "item_ok (I_string s) = string_ok s"
| "item_ok (I_binary b) = (length b < 2 ^ 31)"
| "item_ok (I_xml s) = string_ok s"
| "item_ok (I_uuid v) = (length v = 16)"
| "item_ok _ = True"

context sink
begin

lemma emits_item:
  assumes "item_ok i"
  shows "emits 0 (write_item (thrift_protocol_init mem xml T_PROTOCOL_BINARY tr) i) (enc i)"
proof (cases i)
  case (I_bool v)
  then have "(if v \<noteq> 0 then 1 else 0) = v"
    using assms by auto
  then show ?thesis
    using emits_bool [of v] I_bool by (simp add: dispatch)
next
  case (I_ipaddr v)
  define n :: nat where "n = (if iptype v = AF_INET then 4 else 16)"
  have "iptype v = AF_INET \<and> n = 4 \<or> iptype v = AF_INET6 \<and> n = 16" and "n \<le> length (ip_bytes v)"
    using assms I_ipaddr by (auto simp: n_def)
  from emits_ipaddr [OF this] show ?thesis
    using I_ipaddr by (simp add: dispatch n_def)
qed (use assms in \<open>simp_all add: dispatch emits_byte emits_16 emits_32 emits_64 emits_uuid
    emits_field_begin [simplified] emits_list_begin [simplified] emits_field_stop emits_nil [of 0]
    emits_binary emits_string emits_sandesh_begin enc_bytes_def string_ok_def
    thrift_binary_protocol_write_sandesh_end_def [abs_def] thrift_binary_protocol_write_struct_begin_def [abs_def]
    thrift_binary_protocol_write_struct_end_def [abs_def] thrift_binary_protocol_write_field_end_def [abs_def]
    thrift_binary_protocol_write_list_end_def [abs_def]\<close>)

lemma emits_items:
  "list_all item_ok ms \<Longrightarrow>
   emits 0 (write_items (thrift_protocol_init mem xml T_PROTOCOL_BINARY tr) ms) (concat (map enc ms))"
  by (induction ms) (simp_all add: emits_nil emits_checked emits_last emits_item)

end

context source
begin

lemma takes_stored: "takes 0 f bs v \<Longrightarrow> c v = i \<Longrightarrow> takes 0 (stored f c) bs i"
  unfolding stored_def [abs_def] by (rule takes_map) simp_all

lemma starves_stored: "starves f bs \<Longrightarrow> starves (stored f c) bs"
  unfolding stored_def [abs_def] by (rule starves_after) simp_all

lemma takes_nothing: "f = (\<lambda>w. Some (0, w)) \<Longrightarrow> takes 0 (nothing f i) [] i"
  by (simp add: nothing_def [abs_def] takes_nil)

lemmas no_op_defs =
  thrift_binary_protocol_read_sandesh_end_def [abs_def] thrift_binary_protocol_read_struct_begin_def [abs_def]
  thrift_binary_protocol_read_struct_end_def [abs_def] thrift_binary_protocol_read_field_end_def [abs_def]
  thrift_binary_protocol_read_list_end_def [abs_def]

lemma string_read_back: "string_ok s \<Longrightarrow> (if contents s = [] then None else Some (contents s)) = s"
  by (cases s) (auto simp: string_ok_def contents_def)

lemma address_read_back:
  assumes "item_ok (I_ipaddr v)" and "n = (if iptype v = AF_INET then 4 else 16)"
  shows "no_address\<lparr>iptype := iptype v,
           ip_bytes := take n (ip_bytes v) @ drop n (ip_bytes no_address)\<rparr> = v"
proof -
  have "drop n (replicate 16 0) = drop n (ip_bytes v)"
    using assms by auto
  then have "take n (ip_bytes v) @ drop n (replicate 16 0) = ip_bytes v"
    by simp
  then show ?thesis
    by (cases v) (simp add: no_address_def)
qed

lemma takes_item:
  assumes "provides mem" and "item_ok i"
  shows "takes 0 (read_like (thrift_protocol_init mem xml T_PROTOCOL_BINARY tr) i) (enc i) i"
proof (cases i)
  case (I_ipaddr v)
  define n :: nat where "n = (if iptype v = AF_INET then 4 else 16)"
  have "iptype v = AF_INET \<and> length (take n (ip_bytes v)) = 4 \<or>
      iptype v = AF_INET6 \<and> length (take n (ip_bytes v)) = 16" and "length (take n (ip_bytes v)) = n"
    using assms(2) I_ipaddr by (auto simp: n_def)
  from takes_ipaddr [OF this(1), of no_address] this(2) show ?thesis
    using I_ipaddr address_read_back [of v n] assms(2) n_def
    by (auto simp: dispatch intro!: takes_stored)
next
  case (I_field_begin ty k)
  have "ucast ty \<noteq> (0 :: byte)"
    using assms(2) I_field_begin scast_type [of ty] by (auto simp: scast_byte_zero)
  from takes_field_begin [OF this, of k] show ?thesis
    using assms(2) I_field_begin scast_type [of ty] by (auto simp: dispatch intro!: takes_stored)
next
  case (I_list_begin ty n)
  then show ?thesis
    using assms(2) takes_list_begin [of n "ucast ty"] scast_type [of ty]
    by (auto simp: dispatch intro!: takes_stored)
next
  case (I_bool v)
  then have "I_bool (if v \<noteq> 0 then 1 else 0) = i"
    using assms(2) by auto
  then show ?thesis
    using takes_stored [OF takes_bool [of v], of "I_bool \<circ> the" i] I_bool by (simp add: dispatch)
next
  case (I_binary b)
  then have "length b < 2 ^ 31"
    using assms(2) by simp
  from takes_binary [OF assms(1) this] show ?thesis
    using I_binary by (auto simp: dispatch enc_bytes_def contents_def intro!: takes_stored)
next
  case (I_string s)
  then show ?thesis
    using takes_stored [OF takes_string, of mem "contents s" "I_string \<circ> the" i] assms string_read_back [of s]
    by (simp add: dispatch enc_bytes_def string_ok_def)
next
  case (I_xml s)
  then show ?thesis
    using takes_stored [OF takes_string, of mem "contents s" "I_xml \<circ> the" i] assms string_read_back [of s]
    by (simp add: dispatch enc_bytes_def string_ok_def)
next
  case (I_sandesh_begin s)
  then show ?thesis
    using takes_stored [OF takes_sandesh_begin, of mem "contents s" "I_sandesh_begin \<circ> the" i] assms
      string_read_back [of s]
    by (simp add: dispatch enc_bytes_def string_ok_def)
qed (use assms in \<open>auto simp: dispatch no_op_defs
    intro!: takes_stored [OF takes_byte] takes_stored [OF takes_16(1)] takes_stored [OF takes_16(2)]
      takes_stored [OF takes_32(1)] takes_stored [OF takes_32(2)] takes_stored [OF takes_32(3)]
      takes_stored [OF takes_64(1)] takes_stored [OF takes_64(2)] takes_stored [OF takes_64(3)]
      takes_stored [OF takes_uuid] takes_stored [OF takes_field_stop] takes_nothing
      takes_stored [OF takes_nil]\<close>)

lemma starves_item:
  assumes "provides mem" and "item_ok i"
  shows "starves (read_like (thrift_protocol_init mem xml T_PROTOCOL_BINARY tr) i) (enc i)"
proof (cases i)
  case (I_ipaddr v)
  define n :: nat where "n = (if iptype v = AF_INET then 4 else 16)"
  have "iptype v = AF_INET \<and> length (take n (ip_bytes v)) = 4 \<or>
      iptype v = AF_INET6 \<and> length (take n (ip_bytes v)) = 16"
    using assms(2) I_ipaddr by (auto simp: n_def)
  from starves_stored [OF starves_ipaddr [OF this, of no_address]] show ?thesis
    using I_ipaddr by (simp add: dispatch n_def)
next
  case (I_field_begin ty k)
  have "ucast ty \<noteq> (0 :: byte)"
    using assms(2) I_field_begin scast_type [of ty] by (auto simp: scast_byte_zero)
  then show ?thesis
    using starves_stored [OF starves_field_begin [of "ucast ty" "be_bytes 2 k" k]] I_field_begin
    by (simp add: dispatch)
next
  case I_field_stop
  then show ?thesis
    using starves_stored [OF starves_field_begin [of 0 "[]"]] by (simp add: dispatch)
next
  case (I_list_begin ty n)
  then show ?thesis
    using starves_stored [OF starves_list_begin [of "ucast ty" n]] by (simp add: dispatch)
qed (use assms in \<open>auto simp: dispatch starves_nil enc_bytes_def string_ok_def host_bytes_def
    intro!: starves_stored starves_scalars starves_string starves_binary starves_sandesh_begin\<close>)

lemma takes_items:
  fixes xml :: "'t ThriftProtocol"
  assumes "provides mem" and "list_all item_ok ms"
  defines "p \<equiv> thrift_protocol_init mem xml T_PROTOCOL_BINARY tr"
  shows "takes 0 (read_items p ms) (concat (map enc ms)) ms"
  using assms(2)
proof (induction ms)
  case Nil
  show ?case
    by (simp add: takes_nil)
next
  case (Cons i ms)
  have i: "takes 0 (read_like p i) (enc i) i" and rest: "takes 0 (read_items p ms) (concat (map enc ms)) ms"
    using Cons takes_item [OF assms(1)] by (simp_all add: p_def)
  show ?case
    unfolding takes_def
  proof (intro impI allI)
    fix t e rs
    assume len: "length (concat (map enc (i # ms))) < 2 ^ 31"
      and t: "ok t" "pending t = concat (map enc (i # ms)) @ rs"
    have la: "length (enc i) < 2 ^ 31" and lb: "length (concat (map enc ms)) < 2 ^ 31"
      and pa: "pending t = enc i @ (concat (map enc ms) @ rs)"
      using len t by simp_all
    obtain t1 where t1: "read_like p i \<lparr>dev = t, err = e\<rparr> =
          Some (0 + word_of_nat (length (enc i)), i, \<lparr>dev = t1, err = e\<rparr>)"
        "ok t1" "pending t1 = concat (map enc ms) @ rs"
      using takesE [OF i la t(1) pa] by blast
    obtain t2 where "read_items p ms \<lparr>dev = t1, err = e\<rparr> =
          Some (0 + word_of_nat (length (concat (map enc ms))), ms, \<lparr>dev = t2, err = e\<rparr>)"
        "ok t2" "pending t2 = rs"
      using takesE [OF rest lb t1(2,3)] by blast
    then show "\<exists>t'. read_items p (i # ms) \<lparr>dev = t, err = e\<rparr> =
        Some (0 + word_of_nat (length (concat (map enc (i # ms)))), i # ms, \<lparr>dev = t', err = e\<rparr>) \<and>
        ok t' \<and> pending t' = rs"
      using t1(1) negative_nat [OF la] negative_nat [OF lb] by simp
  qed
qed

lemma starves_items:
  fixes xml :: "'t ThriftProtocol"
  assumes "provides mem" and "list_all item_ok ms"
  defines "p \<equiv> thrift_protocol_init mem xml T_PROTOCOL_BINARY tr"
  shows "starves (read_items p ms) (concat (map enc ms))"
  using assms(2)
proof (induction ms)
  case Nil
  show ?case
    by (simp add: starves_nil)
next
  case (Cons i ms)
  have i: "takes 0 (read_like p i) (enc i) i" "starves (read_like p i) (enc i)"
    and rest: "starves (read_items p ms) (concat (map enc ms))"
    using Cons takes_item [OF assms(1)] starves_item [OF assms(1)] by (simp_all add: p_def)
  show ?case
    unfolding starves_def
  proof (intro impI allI)
    fix t e ys
    assume len: "length (concat (map enc (i # ms))) < 2 ^ 31"
      and t: "ok t" "pending t @ ys = concat (map enc (i # ms))" "ys \<noteq> []"
    have la: "length (enc i) < 2 ^ 31" and lb: "length (concat (map enc ms)) < 2 ^ 31"
      using len by simp_all
    show "\<exists>v t'. read_items p (i # ms) \<lparr>dev = t, err = e\<rparr> =
        Some (-1, v, \<lparr>dev = t', err = THRIFT_TRANSPORT_ERROR_RECEIVE\<rparr>) \<and> ok t'"
    proof (cases "length (pending t) < length (enc i)")
      case True
      then obtain zs where zs: "pending t @ zs = enc i"
        using t(2) by (auto simp: append_eq_append_conv2)
      then have "zs \<noteq> []"
        using True by auto
      then obtain v t2 where "read_like p i \<lparr>dev = t, err = e\<rparr> =
          Some (-1, v, \<lparr>dev = t2, err = THRIFT_TRANSPORT_ERROR_RECEIVE\<rparr>)" "ok t2"
        using i(2) la t(1) zs unfolding starves_def by blast
      then show ?thesis
        by simp
    next
      case False
      then obtain q where q: "pending t = enc i @ q" "q @ ys = concat (map enc ms)"
        using cut_append [of "pending t" ys "enc i" "concat (map enc ms)"] t(2) by auto
      obtain t1 where t1: "read_like p i \<lparr>dev = t, err = e\<rparr> =
            Some (0 + word_of_nat (length (enc i)), i, \<lparr>dev = t1, err = e\<rparr>)" "ok t1" "pending t1 = q"
        using takesE [OF i(1) la t(1) q(1)] by blast
      moreover obtain v t2 where "read_items p ms \<lparr>dev = t1, err = e\<rparr> =
          Some (-1, v, \<lparr>dev = t2, err = THRIFT_TRANSPORT_ERROR_RECEIVE\<rparr>)" "ok t2"
        using rest lb t1(2,3) q(2) t(3) unfolding starves_def by blast
      ultimately show ?thesis
        using negative_nat [OF la] by simp
    qed
  qed
qed

end

subsection \<open>The protocol over its transports\<close>

abbreviation memory_protocol :: "heap \<Rightarrow> ThriftMemoryBuffer ThriftProtocol \<Rightarrow> ThriftMemoryBuffer ThriftProtocol" where
  "memory_protocol mem xml \<equiv>
     thrift_protocol_init mem xml T_PROTOCOL_BINARY (thrift_memory_buffer_transport_init mem)"

abbreviation fake_protocol :: "heap \<Rightarrow> unit ThriftProtocol \<Rightarrow> unit ThriftProtocol" where
  "fake_protocol mem xml \<equiv> thrift_protocol_init mem xml T_PROTOCOL_BINARY thrift_fake_transport_init"

lemma mb_writes:
  assumes "list_all item_ok ms" and "length (concat (map enc ms)) < 2 ^ 31"
    and "mb_ok t" and "mb_room mem t (length (concat (map enc ms)))"
  obtains t' where "write_items (memory_protocol mem xml) ms \<lparr>dev = t, err = e\<rparr> =
      Some (word_of_nat (length (concat (map enc ms))), \<lparr>dev = t', err = e\<rparr>)"
    and "mb_ok t'" and "mb_pending t' = mb_pending t @ concat (map enc ms)"
  using mb.emits_items [OF assms(1), where xml = xml] assms(2-4) unfolding mb.emits_def
  by (metis add_0)

lemma mb_reads:
  assumes "provides mem" and "list_all item_ok ms" and "length (concat (map enc ms)) < 2 ^ 31"
    and "mb_ok t" and "mb_pending t = concat (map enc ms) @ rest"
  obtains t' where "read_items (memory_protocol mem xml) ms \<lparr>dev = t, err = e\<rparr> =
      Some (word_of_nat (length (concat (map enc ms))), ms, \<lparr>dev = t', err = e\<rparr>)"
    and "mb_ok t'" and "mb_pending t' = rest"
  using mb.takes_items [OF assms(1,2), where xml = xml] assms(3-5) unfolding mb.takes_def
  by (metis add_0)

lemma unat_message: "length (concat (map enc ms)) < 2 ^ 31 \<Longrightarrow>
    unat (word_of_nat (length (concat (map enc ms))) :: int32) = length (concat (map enc ms))"
  by (rule unat_len) simp

text \<open>
  C7. A message written through the binary protocol into an empty memory buffer with room for it
  is read back by the corresponding read calls: the reads return the items written, as many
  bytes are read as were written, no error is reported and the buffer is empty again.\<close>

theorem message_roundtrip:
  assumes "provides mem" and "list_all item_ok ms" and "length (concat (map enc ms)) < 2 ^ 31"
    and "mb_ok t" and "mb_pending t = []" and "mb_room mem t (length (concat (map enc ms)))"
  shows "\<exists>n t1 t2.
     write_items (memory_protocol mem xml) ms \<lparr>dev = t, err = e\<rparr> = Some (n, \<lparr>dev = t1, err = e\<rparr>) \<and>
     read_items (memory_protocol mem xml) ms \<lparr>dev = t1, err = e\<rparr> = Some (n, ms, \<lparr>dev = t2, err = e\<rparr>) \<and>
     unat n = length (concat (map enc ms)) \<and> mb_ok t2 \<and> mb_pending t2 = []"
proof -
  obtain t1 where t1: "write_items (memory_protocol mem xml) ms \<lparr>dev = t, err = e\<rparr> =
        Some (word_of_nat (length (concat (map enc ms))), \<lparr>dev = t1, err = e\<rparr>)"
      "mb_ok t1" "mb_pending t1 = concat (map enc ms) @ []"
    using mb_writes [OF assms(2-4,6)] assms(5) by (metis append_Nil append_Nil2)
  then show ?thesis
    using mb_reads [OF assms(1-3) t1(2,3)] unat_message [OF assms(3)] by metis
qed

text \<open>
  C23. A message cut anywhere before its end is rejected: reading it returns -1 and reports a
  receive error, and the buffer stays well formed.\<close>

theorem truncated_message:
  assumes "provides mem" and "list_all item_ok ms" and "length (concat (map enc ms)) < 2 ^ 31"
    and "mb_ok t" and "mb_pending t @ ys = concat (map enc ms)" and "ys \<noteq> []"
  shows "\<exists>vs t'. read_items (memory_protocol mem xml) ms \<lparr>dev = t, err = e\<rparr> =
           Some (-1, vs, \<lparr>dev = t', err = THRIFT_TRANSPORT_ERROR_RECEIVE\<rparr>) \<and> mb_ok t'"
  using mb.starves_items [OF assms(1,2), where xml = xml] assms(3-6) unfolding mb.starves_def by blast

lemma lengths_agree:
  assumes "list_all item_ok ms" and "length (concat (map enc ms)) < 2 ^ 31"
    and "mb_ok t" and "mb_room mem t (length (concat (map enc ms)))"
  shows "\<exists>n t'. write_items (fake_protocol mem' xml') ms \<lparr>dev = (), err = e\<rparr> = Some (n, \<lparr>dev = (), err = e\<rparr>) \<and>
     write_items (memory_protocol mem xml) ms \<lparr>dev = t, err = e\<rparr> = Some (n, \<lparr>dev = t', err = e\<rparr>) \<and>
     length (mb_pending t') = length (mb_pending t) + unat n \<and> \<not> negative n"
proof -
  have "write_items (fake_protocol mem' xml') ms \<lparr>dev = (), err = e\<rparr> =
      Some (word_of_nat (length (concat (map enc ms))), \<lparr>dev = (), err = e\<rparr>)"
    using fake.emits_items [OF assms(1), where mem = mem' and xml = xml'] assms(2) unfolding fake.emits_def
    by (metis (full_types) add_0 old.unit.exhaust)
  then show ?thesis
    using mb_writes [OF assms] unat_message [OF assms(2)] negative_nat [OF assms(2)] by (metis length_append)
qed

subsection \<open>A message on the wire\<close>

definition demo_cut :: ThriftMemoryBuffer where
  "demo_cut = snd (thrift_memory_buffer_wrote_bytes (thrift_memory_buffer_init demo_heap (Some [8, 0]) 2) 2)"

definition demo_message :: "item list" where
  "demo_message = [I_struct_begin, I_field_begin T_I32 1, I_i32 7, I_field_end, I_field_stop, I_struct_end]"

lemma demo_message_ok: "list_all item_ok demo_message" "length (concat (map enc demo_message)) = 8"
  by (simp_all add: demo_message_def)

lemma demo_message_bytes: "concat (map enc demo_message) = [8, 0, 1, 0, 0, 0, 7, 0]"
  by (simp add: demo_message_def be_bytes_def upt_conv_Cons)

lemma demo_cut_ok: "mb_ok demo_cut" "mb_pending demo_cut = [8, 0]"
  by (simp_all add: demo_cut_def thrift_memory_buffer_wrote_bytes_def thrift_memory_buffer_init_def
      available_write_def mb_ok_def mb_pending_def contents_def)

theorem message_roundtrip_witness:
  "provides demo_heap \<and> list_all item_ok demo_message \<and> mb_room demo_heap demo_buffer 8 \<and>
   (\<exists>n t1 t2.
     write_items (memory_protocol demo_heap (memory_protocol demo_heap undefined)) demo_message
       \<lparr>dev = demo_buffer, err = 0\<rparr> = Some (n, \<lparr>dev = t1, err = 0\<rparr>) \<and>
     read_items (memory_protocol demo_heap (memory_protocol demo_heap undefined)) demo_message
       \<lparr>dev = t1, err = 0\<rparr> = Some (n, demo_message, \<lparr>dev = t2, err = 0\<rparr>) \<and>
     unat n = 8 \<and> mb_ok t2 \<and> mb_pending t2 = [])"
  using message_roundtrip [of demo_heap demo_message demo_buffer "memory_protocol demo_heap undefined" 0]
    demo_heap_provides demo_message_ok demo_buffer_ok by simp

theorem truncated_message_witness:
  "mb_pending demo_cut @ [1, 0, 0, 0, 7, 0] = concat (map enc demo_message) \<and>
   (\<exists>vs t'. read_items (memory_protocol demo_heap (memory_protocol demo_heap undefined)) demo_message
      \<lparr>dev = demo_cut, err = 0\<rparr> = Some (-1, vs, \<lparr>dev = t', err = THRIFT_TRANSPORT_ERROR_RECEIVE\<rparr>) \<and> mb_ok t')"
  using truncated_message [of demo_heap demo_message demo_cut "[1, 0, 0, 0, 7, 0]"
      "memory_protocol demo_heap undefined" 0]
    demo_heap_provides demo_message_ok demo_cut_ok by (simp add: demo_message_bytes)

end
