(* ===== verification/Thrift_Skip.thy ===== *)
theory Thrift_Skip
  imports Thrift_Messages
begin

text \<open>
  Skipping a value of unknown meaning, through the protocol and in place in a buffer
  (\<open>src/sandesh/library/c/protocol/thrift_protocol.c\<close>).  Both loops may run for ever on malformed
  input, so they are partial functions; on well-formed values they are shown to return.
\<close>

subsection \<open>Skipping through a protocol\<close>

text \<open>
  One call of \<open>thrift_protocol_skip\<close>, its loop over the fields of a struct and its loop over the
  elements of a list.  A local variable the code has not assigned is \<open>None\<close>; using it is
  undefined.
\<close>

datatype skip_call =
    Skip ThriftType
  | Fields uint32 "ThriftType option"
  | Elems uint32 ThriftType uint32 uint32

definition only :: "('v, 't) reader \<Rightarrow> 't writer" where
  "only f w = do { (ret, _, w) \<leftarrow> f w; Some (ret, w) }"

partial_function (option) skip_run :: "'t ThriftProtocol \<Rightarrow> skip_call \<Rightarrow> 't io \<Rightarrow> (int32 \<times> 't io) option" where
  "skip_run p c w =
     (case c of
        Skip ty \<Rightarrow>
          if ty = T_BOOL then only (thrift_protocol_read_bool p) w
          else if ty = T_BYTE then only (thrift_protocol_read_byte p) w
          else if ty = T_I16 then only (thrift_protocol_read_i16 p) w
          else if ty = T_I32 then only (thrift_protocol_read_i32 p) w
          else if ty = T_I64 then only (thrift_protocol_read_i64 p) w
          else if ty = T_U16 then only (thrift_protocol_read_u16 p) w
          else if ty = T_U32 then only (thrift_protocol_read_u32 p) w
          else if ty = T_U64 then only (thrift_protocol_read_u64 p) w
          else if ty = T_IPV4 then only (thrift_protocol_read_ipv4 p) w
          else if ty = T_DOUBLE then only (thrift_protocol_read_double p) w
          else if ty = T_STRING \<or> ty = T_XML then do {
            (ret, d, w) \<leftarrow> thrift_protocol_read_binary p w;
            data \<leftarrow> fst d;
            Some (ret, w)
          }
          else if ty = T_UUID then only (thrift_protocol_read_uuid_t p) w
          else if ty = T_STRUCT then do {
            (ret, name, w) \<leftarrow> thrift_protocol_read_struct_begin p w;
            skip_run p (Fields ret None) w
          }
          else if ty = T_LIST then do {
            (ret, h, w) \<leftarrow> thrift_protocol_read_list_begin p w;
            sz \<leftarrow> snd h;
            elem_type \<leftarrow> fst h;
            skip_run p (Elems ret elem_type 0 sz) w
          }
          else Some (0, w)
      | Fields result ftype \<Rightarrow> do {
          (ret, h, w) \<leftarrow> thrift_protocol_read_field_begin p w;
          ftype \<leftarrow> (case fst h of None \<Rightarrow> ftype | Some ty \<Rightarrow> Some ty);
          if ftype = T_STOP then do {
            (ret', w) \<leftarrow> thrift_protocol_read_struct_end p w;
            Some (result + ret + ret', w)
          }
          else do {
            (ret', w) \<leftarrow> skip_run p (Skip ftype) w;
            (ret'', w) \<leftarrow> thrift_protocol_read_field_end p w;
            skip_run p (Fields (result + ret + ret' + ret'') (Some ftype)) w
          }
        }
      | Elems result elem_type i sz \<Rightarrow>
          if i < sz then do {
            (ret, w) \<leftarrow> skip_run p (Skip elem_type) w;
            skip_run p (Elems (result + ret) elem_type (i + 1) sz) w
          }
          else do {
            (ret, w) \<leftarrow> thrift_protocol_read_list_end p w;
            Some (result + ret, w)
          })"

definition thrift_protocol_skip :: "'t ThriftProtocol \<Rightarrow> ThriftType \<Rightarrow> 't writer" where
  "thrift_protocol_skip p ty w = skip_run p (Skip ty) w"

subsection \<open>Skipping in a buffer\<close>

text \<open>
  The code reads the four bytes of \<open>elem_type\<close> from an array into which it has copied one; the
  other three hold whatever the stack held, \<open>junk\<close>.
\<close>

datatype buffer_call =
    From ThriftType
  | From_fields uint32
  | From_elems uint32 ThriftType int32 int32

definition need :: "uint32 \<Rightarrow> uint32 \<Rightarrow> int32 \<Rightarrow> (int32 \<times> int32) option" where
  "need n buflen e = Some (if n > buflen then (-1, THRIFT_TRANSPORT_ERROR_RECEIVE) else (n, e))"

partial_function (option) skip_from ::
    "(byte list \<Rightarrow> uint32) \<Rightarrow> buffer_call \<Rightarrow> byte list \<Rightarrow> uint32 \<Rightarrow> int32 \<Rightarrow> (int32 \<times> int32) option" where
  "skip_from junk c base buflen e =
     (case c of
        From ty \<Rightarrow>
          if ty = T_BOOL \<or> ty = T_BYTE then need 1 buflen e
          else if ty = T_I16 \<or> ty = T_U16 then need 2 buflen e
          else if ty = T_I32 \<or> ty = T_U32 \<or> ty = T_IPV4 then need 4 buflen e
          else if ty = T_I64 \<or> ty = T_U64 \<or> ty = T_DOUBLE then need 8 buflen e
          else if ty = T_STRING \<or> ty = T_XML then
            if 4 > buflen then Some (-1, THRIFT_TRANSPORT_ERROR_RECEIVE)
            else do {
              bytes \<leftarrow> peek base 0 4;
              let read_len = (be_value bytes :: int32);
              if sint read_len > 0
              then if 4 + read_len > buflen then Some (-1, THRIFT_TRANSPORT_ERROR_RECEIVE)
                   else Some (4 + read_len, e)
              else Some (4, e)
            }
          else if ty = T_UUID then need 16 buflen e
          else if ty = T_STRUCT then skip_from junk (From_fields 0) base buflen e
          else if ty = T_LIST then
            if 1 > buflen then Some (-1, THRIFT_TRANSPORT_ERROR_RECEIVE)
            else do {
              b \<leftarrow> peek base 0 1;
              let elem_type = ucast (b ! 0) OR push_bit 8 (junk base);
              if 1 + 4 > buflen then Some (-1, THRIFT_TRANSPORT_ERROR_RECEIVE)
              else do {
                bytes \<leftarrow> peek base 1 4;
                let sz = (be_value bytes :: int32);
                if negative sz then Some (-1, THRIFT_PROTOCOL_ERROR_NEGATIVE_SIZE)
                else skip_from junk (From_elems (1 + 4) elem_type 0 sz) base buflen e
              }
            }
          else Some (0, e)
      | From_fields result \<Rightarrow>
          if 1 > buflen - result then Some (-1, THRIFT_TRANSPORT_ERROR_RECEIVE)
          else do {
            b \<leftarrow> peek base (unat result) 1;
            let result = result + 1;
            let ftype = scast (b ! 0);
            if ftype = T_STOP then Some (result, e)
            else if 2 > buflen - result then Some (-1, THRIFT_TRANSPORT_ERROR_RECEIVE)
            else do {
              let result = result + 2;
              (ret, e) \<leftarrow> skip_from junk (From ftype) (drop (unat result) base) (buflen - result) e;
              skip_from junk (From_fields (result + ret)) base buflen e
            }
          }
      | From_elems result elem_type i sz \<Rightarrow>
          if sint i < sint sz then do {
            (ret, e) \<leftarrow> skip_from junk (From elem_type) (drop (unat result) base) (buflen - result) e;
            skip_from junk (From_elems (result + ret) elem_type (i + 1) sz) base buflen e
          }
          else Some (result, e))"

definition thrift_binary_protocol_skip_from_buffer ::
    "(byte list \<Rightarrow> uint32) \<Rightarrow> byte list \<Rightarrow> uint32 \<Rightarrow> ThriftType \<Rightarrow> int32 \<Rightarrow> (int32 \<times> int32) option" where
  "thrift_binary_protocol_skip_from_buffer junk base buflen ty e = skip_from junk (From ty) base buflen e"

subsection \<open>Values\<close>

text \<open>
  A value as the generated code writes it: a leaf is one item, a list its header and its
  elements, a struct its fields and a stop.  \<open>tv_items\<close> is the message that carries it.  An address
  (\<open>I_ipaddr\<close>) is not a leaf: the protocol writes it, but the skip functions have no case for its type.
\<close>

datatype tval = Leaf item | Elements ThriftType "tval list" | Struct "(16 word \<times> tval) list"

fun leaf_type :: "item \<Rightarrow> ThriftType option" where
  "leaf_type (I_bool _) = Some T_BOOL"
| "leaf_type (I_byte _) = Some T_BYTE"
| "leaf_type (I_i16 _) = Some T_I16"
| "leaf_type (I_i32 _) = Some T_I32"
| "leaf_type (I_i64 _) = Some T_I64"
| "leaf_type (I_u16 _) = Some T_U16"
| "leaf_type (I_u32 _) = Some T_U32"
| "leaf_type (I_u64 _) = Some T_U64"
| "leaf_type (I_ipv4 _) = Some T_IPV4"
| "leaf_type (I_double _) = Some T_DOUBLE"
| "leaf_type (I_string _) = Some T_STRING"
| "leaf_type (I_binary _) = Some T_STRING"
| "leaf_type (I_xml _) = Some T_XML"
| "leaf_type (I_uuid _) = Some T_UUID"
| "leaf_type _ = None"

fun tv_type :: "tval \<Rightarrow> ThriftType" where
  "tv_type (Leaf i) = the (leaf_type i)"
| "tv_type (Elements ty vs) = T_LIST"
| "tv_type (Struct fs) = T_STRUCT"

fun tv_items :: "tval \<Rightarrow> item list" where
  "tv_items (Leaf i) = [i]"
| "tv_items (Elements ty vs) =
     I_list_begin ty (word_of_nat (length vs)) # concat (map tv_items vs) @ [I_list_end]"
| "tv_items (Struct fs) =
     I_struct_begin # concat (map (\<lambda>(i, v). I_field_begin (tv_type v) i # tv_items v @ [I_field_end]) fs) @
     [I_field_stop, I_struct_end]"

fun tv_ok :: "tval \<Rightarrow> bool" where
  "tv_ok (Leaf i) = (item_ok i \<and> leaf_type i \<noteq> None)"
| "tv_ok (Elements ty vs) =
     (unat ty < 128 \<and> length vs < 2 ^ 31 \<and> list_all (\<lambda>v. tv_ok v \<and> tv_type v = ty) vs)"
| "tv_ok (Struct fs) = list_all (\<lambda>(i, v). tv_ok v) fs"

definition tv_enc :: "tval \<Rightarrow> byte list" where
  "tv_enc v = concat (map enc (tv_items v))"

lemma tv_enc_simps:
  "tv_enc (Leaf i) = enc i"
  "tv_enc (Elements ty vs) = [ucast ty] @ be_bytes 4 (word_of_nat (length vs) :: uint32) @ concat (map tv_enc vs)"
  "tv_enc (Struct fs) =
     concat (map (\<lambda>(i, v). [ucast (tv_type v)] @ be_bytes 2 i @ tv_enc v) fs) @ [0]"
proof -
  have "concat (map enc (concat (map tv_items vs))) = concat (map tv_enc vs)"
    by (induction vs) (simp_all add: tv_enc_def)
  then show "tv_enc (Elements ty vs) =
      [ucast ty] @ be_bytes 4 (word_of_nat (length vs) :: uint32) @ concat (map tv_enc vs)"
    by (simp add: tv_enc_def)
  show "tv_enc (Struct fs) = concat (map (\<lambda>(i, v). [ucast (tv_type v)] @ be_bytes 2 i @ tv_enc v) fs) @ [0]"
    by (induction fs) (auto simp: tv_enc_def)
qed (simp add: tv_enc_def)

lemma leaf_type_range: "leaf_type i = Some ty \<Longrightarrow> unat ty < 128 \<and> ty \<noteq> 0"
  by (cases i) auto

lemma tv_type_range: "tv_ok v \<Longrightarrow> unat (tv_type v) < 128 \<and> tv_type v \<noteq> 0"
  by (cases v) (auto dest: leaf_type_range)

subsection \<open>A value is skipped exactly\<close>

lemma protocol_reads:
  "thrift_protocol_read_bool (thrift_protocol_init mem xml T_PROTOCOL_BINARY tr) = thrift_binary_protocol_read_bool tr"
  "thrift_protocol_read_byte (thrift_protocol_init mem xml T_PROTOCOL_BINARY tr) = thrift_binary_protocol_read_byte tr"
  "thrift_protocol_read_i16 (thrift_protocol_init mem xml T_PROTOCOL_BINARY tr) = thrift_binary_protocol_read_i16 tr"
  "thrift_protocol_read_i32 (thrift_protocol_init mem xml T_PROTOCOL_BINARY tr) = thrift_binary_protocol_read_i32 tr"
  "thrift_protocol_read_i64 (thrift_protocol_init mem xml T_PROTOCOL_BINARY tr) = thrift_binary_protocol_read_i64 tr"
  "thrift_protocol_read_u16 (thrift_protocol_init mem xml T_PROTOCOL_BINARY tr) = thrift_binary_protocol_read_u16 tr"
  "thrift_protocol_read_u32 (thrift_protocol_init mem xml T_PROTOCOL_BINARY tr) = thrift_binary_protocol_read_u32 tr"
  "thrift_protocol_read_u64 (thrift_protocol_init mem xml T_PROTOCOL_BINARY tr) = thrift_binary_protocol_read_u64 tr"
  "thrift_protocol_read_ipv4 (thrift_protocol_init mem xml T_PROTOCOL_BINARY tr) = thrift_binary_protocol_read_ipv4 tr"
  "thrift_protocol_read_double (thrift_protocol_init mem xml T_PROTOCOL_BINARY tr) = thrift_binary_protocol_read_double tr"
  "thrift_protocol_read_binary (thrift_protocol_init mem xml T_PROTOCOL_BINARY tr) = thrift_binary_protocol_read_binary mem tr"
  "thrift_protocol_read_uuid_t (thrift_protocol_init mem xml T_PROTOCOL_BINARY tr) = thrift_binary_protocol_read_uuid_t tr"
  "thrift_protocol_read_struct_begin (thrift_protocol_init mem xml T_PROTOCOL_BINARY tr) = thrift_binary_protocol_read_struct_begin"
  "thrift_protocol_read_struct_end (thrift_protocol_init mem xml T_PROTOCOL_BINARY tr) = thrift_binary_protocol_read_struct_end"
  "thrift_protocol_read_field_begin (thrift_protocol_init mem xml T_PROTOCOL_BINARY tr) = thrift_binary_protocol_read_field_begin tr"
  "thrift_protocol_read_field_end (thrift_protocol_init mem xml T_PROTOCOL_BINARY tr) = thrift_binary_protocol_read_field_end"
  "thrift_protocol_read_list_begin (thrift_protocol_init mem xml T_PROTOCOL_BINARY tr) = thrift_binary_protocol_read_list_begin tr"
  "thrift_protocol_read_list_end (thrift_protocol_init mem xml T_PROTOCOL_BINARY tr) = thrift_binary_protocol_read_list_end"
  by (simp_all add: dispatch)

context source
begin

definition passes :: "int32 \<Rightarrow> 't writer \<Rightarrow> byte list \<Rightarrow> bool" where
  "passes x f bs = (length bs < 2 ^ 31 \<longrightarrow> (\<forall>t e rest. ok t \<longrightarrow> pending t = bs @ rest \<longrightarrow>
     (\<exists>t'. f \<lparr>dev = t, err = e\<rparr> = Some (x + word_of_nat (length bs), \<lparr>dev = t', err = e\<rparr>) \<and>
           ok t' \<and> pending t' = rest)))"

lemma passesE:
  assumes "passes x f bs" and "length bs < 2 ^ 31" and "ok t" and "pending t = bs @ rest"
  obtains t' where "f \<lparr>dev = t, err = e\<rparr> = Some (x + word_of_nat (length bs), \<lparr>dev = t', err = e\<rparr>)"
    and "ok t'" and "pending t' = rest"
  using assms unfolding passes_def by blast

lemma passes_seq:
  assumes f: "takes 0 f as v" and g: "passes x (g (word_of_nat (length as)) v) bs"
    and x: "x = y + word_of_nat (length as)"
  shows "passes y (\<lambda>w. do { (ret, v, w) \<leftarrow> f w; g ret v w }) (as @ bs)"
  unfolding passes_def
proof (intro impI allI)
  fix t e rest assume len: "length (as @ bs) < 2 ^ 31" and t: "ok t" "pending t = (as @ bs) @ rest"
  have la: "length as < 2 ^ 31" and lb: "length bs < 2 ^ 31" and pa: "pending t = as @ (bs @ rest)"
    using len t by simp_all
  obtain t1 where t1: "f \<lparr>dev = t, err = e\<rparr> = Some (0 + word_of_nat (length as), v, \<lparr>dev = t1, err = e\<rparr>)"
      "ok t1" "pending t1 = bs @ rest"
    using takesE [OF f la t(1) pa] by blast
  obtain t2 where "g (word_of_nat (length as)) v \<lparr>dev = t1, err = e\<rparr> =
        Some (x + word_of_nat (length bs), \<lparr>dev = t2, err = e\<rparr>)" "ok t2" "pending t2 = rest"
    using passesE [OF g lb t1(2,3)] by blast
  then show "\<exists>t'. (do { (ret, v, w) \<leftarrow> f \<lparr>dev = t, err = e\<rparr>; g ret v w }) =
      Some (y + word_of_nat (length (as @ bs)), \<lparr>dev = t', err = e\<rparr>) \<and> ok t' \<and> pending t' = rest"
    using t1(1) x by (simp add: add.assoc)
qed

lemma passes_then:
  assumes f: "passes 0 f as" and g: "passes x (g (word_of_nat (length as))) bs"
    and x: "x = y + word_of_nat (length as)"
  shows "passes y (\<lambda>w. do { (ret, w) \<leftarrow> f w; g ret w }) (as @ bs)"
  unfolding passes_def
proof (intro impI allI)
  fix t e rest assume len: "length (as @ bs) < 2 ^ 31" and t: "ok t" "pending t = (as @ bs) @ rest"
  have la: "length as < 2 ^ 31" and lb: "length bs < 2 ^ 31" and pa: "pending t = as @ (bs @ rest)"
    using len t by simp_all
  obtain t1 where t1: "f \<lparr>dev = t, err = e\<rparr> = Some (0 + word_of_nat (length as), \<lparr>dev = t1, err = e\<rparr>)"
      "ok t1" "pending t1 = bs @ rest"
    using passesE [OF f la t(1) pa] by blast
  obtain t2 where "g (word_of_nat (length as)) \<lparr>dev = t1, err = e\<rparr> =
        Some (x + word_of_nat (length bs), \<lparr>dev = t2, err = e\<rparr>)" "ok t2" "pending t2 = rest"
    using passesE [OF g lb t1(2,3)] by blast
  then show "\<exists>t'. (do { (ret, w) \<leftarrow> f \<lparr>dev = t, err = e\<rparr>; g ret w }) =
      Some (y + word_of_nat (length (as @ bs)), \<lparr>dev = t', err = e\<rparr>) \<and> ok t' \<and> pending t' = rest"
    using t1(1) x by (simp add: add.assoc)
qed

lemma passes_nil: "y = x \<Longrightarrow> passes x (\<lambda>w. Some (y, w)) []"
  by (auto simp: passes_def)

lemma passes_only: "takes 0 f bs v \<Longrightarrow> passes 0 (only f) bs"
  using passes_seq [of f bs v "word_of_nat (length bs)" "\<lambda>ret v w. Some (ret, w)" "[]" 0]
  by (simp add: only_def [abs_def] passes_nil)

lemma skip_leaf:
  assumes "provides mem" and "item_ok i" and "leaf_type i \<noteq> None"
  shows "passes 0 (skip_run (thrift_protocol_init mem xml T_PROTOCOL_BINARY tr) (Skip (the (leaf_type i)))) (enc i)"
proof -
  have binary: "passes 0 (\<lambda>w. do { (ret, d, w) \<leftarrow> thrift_binary_protocol_read_binary mem tr w;
      data \<leftarrow> fst d; Some (ret, w) }) (enc_bytes s)" if "length s < 2 ^ 31" for s
    using passes_seq [where bs = "[]" and g = "\<lambda>ret d w. do { data \<leftarrow> fst d; Some (ret, w) }"
        and x = "word_of_nat (length (enc_bytes s))" and y = 0, OF takes_binary [OF assms(1) that]]
    by (cases "s = []") (simp_all add: enc_bytes_def passes_nil)
  show ?thesis
    unfolding skip_run.simps [of _ "Skip (the (leaf_type i))", abs_def]
    using assms(2,3)
    by (cases i)
      (simp_all add: protocol_reads string_ok_def binary passes_only [OF takes_byte]
         passes_only [OF takes_bool] passes_only [OF takes_16(1)] passes_only [OF takes_16(2)]
         passes_only [OF takes_32(1)] passes_only [OF takes_32(2)] passes_only [OF takes_32(3)]
         passes_only [OF takes_64(1)] passes_only [OF takes_64(2)] passes_only [OF takes_64(3)]
         passes_only [OF takes_uuid])
qed

end

context source
begin

lemma skip_Fields_eq:
  fixes xml :: "'t ThriftProtocol"
  assumes "p = thrift_protocol_init mem xml T_PROTOCOL_BINARY tr"
  shows "skip_run p (Fields x ft) = (\<lambda>w. do {
     (ret, h, w) \<leftarrow> thrift_binary_protocol_read_field_begin tr w;
     ftype \<leftarrow> (case fst h of None \<Rightarrow> ft | Some ty \<Rightarrow> Some ty);
     if ftype = T_STOP then Some (x + ret, w)
     else do { (ret', w) \<leftarrow> skip_run p (Skip ftype) w;
               skip_run p (Fields (x + ret + ret') (Some ftype)) w } })"
  by (rule ext, subst skip_run.simps) (simp add: assms protocol_reads no_op_defs cong: if_cong)

lemma skip_Elems_eq:
  fixes xml :: "'t ThriftProtocol"
  assumes "p = thrift_protocol_init mem xml T_PROTOCOL_BINARY tr"
  shows "skip_run p (Elems x ty i sz) = (\<lambda>w.
     if i < sz then do { (ret, w) \<leftarrow> skip_run p (Skip ty) w; skip_run p (Elems (x + ret) ty (i + 1) sz) w }
     else Some (x, w))"
  by (rule ext, subst skip_run.simps) (simp add: assms protocol_reads no_op_defs cong: if_cong)

lemma skip_List_eq:
  fixes xml :: "'t ThriftProtocol"
  assumes "p = thrift_protocol_init mem xml T_PROTOCOL_BINARY tr"
  shows "skip_run p (Skip T_LIST) = (\<lambda>w. do {
     (ret, h, w) \<leftarrow> thrift_binary_protocol_read_list_begin tr w;
     sz \<leftarrow> snd h; elem_type \<leftarrow> fst h; skip_run p (Elems ret elem_type 0 sz) w })"
  by (rule ext, subst skip_run.simps) (simp add: assms protocol_reads)

lemma skip_Struct_eq:
  fixes xml :: "'t ThriftProtocol"
  assumes "p = thrift_protocol_init mem xml T_PROTOCOL_BINARY tr"
  shows "skip_run p (Skip T_STRUCT) = skip_run p (Fields 0 None)"
  by (rule ext, subst skip_run.simps) (simp add: assms protocol_reads no_op_defs)

lemma skip_elems:
  fixes xml :: "'t ThriftProtocol"
  assumes p: "p = thrift_protocol_init mem xml T_PROTOCOL_BINARY tr"
    and "\<forall>v \<in> set vs. passes 0 (skip_run p (Skip ty)) (tv_enc v)" and "unat i + length vs = unat sz"
  shows "passes x (skip_run p (Elems x ty i sz)) (concat (map tv_enc vs))"
  using assms(2,3)
proof (induction vs arbitrary: x i)
  case Nil
  then have "i = sz"
    by (simp add: word_unat_eq_iff)
  then show ?case
    by (simp add: skip_Elems_eq [OF p] passes_nil)
next
  case (Cons v vs)
  have "unat i < unat sz"
    using Cons.prems(2) by simp
  then have lt: "i < sz"
    by (simp add: word_less_nat_alt)
  have "unat (i + 1) = unat i + 1"
    using \<open>unat i < unat sz\<close> unat_lt_u32 [of sz] by (subst unat_add_small) simp_all
  then have "passes (x + word_of_nat (length (tv_enc v)))
      (skip_run p (Elems (x + word_of_nat (length (tv_enc v))) ty (i + 1) sz)) (concat (map tv_enc vs))"
    using Cons.prems by (intro Cons.IH) simp_all
  from passes_then [where f = "skip_run p (Skip ty)" and y = x
      and g = "\<lambda>ret. skip_run p (Elems (x + ret) ty (i + 1) sz)", OF _ this refl] Cons.prems(1)
  show ?case
    by (subst skip_Elems_eq [OF p]) (simp add: lt)
qed

lemma skip_fields:
  fixes xml :: "'t ThriftProtocol" and fs :: "(16 word \<times> tval) list"
  assumes p: "p = thrift_protocol_init mem xml T_PROTOCOL_BINARY tr"
    and "\<forall>(i, v) \<in> set fs. tv_ok v \<and> passes 0 (skip_run p (Skip (tv_type v))) (tv_enc v)"
  shows "passes x (skip_run p (Fields x ft))
           (concat (map (\<lambda>(i, v). [ucast (tv_type v)] @ be_bytes 2 i @ tv_enc v) fs) @ [0])"
  using assms(2)
proof (induction fs arbitrary: x ft)
  case Nil
  have "passes x (skip_run p (Fields x ft)) ([0] @ [])"
    unfolding skip_Fields_eq [OF p, of x ft]
    by (rule passes_seq [OF takes_field_stop]) (simp_all add: passes_nil)
  then show ?case
    by simp
next
  case (Cons f fs)
  obtain i v where f: "f = (i, v)"
    by (cases f)
  define ty where "ty = tv_type v"
  have v: "tv_ok v" "passes 0 (skip_run p (Skip ty)) (tv_enc v)"
    using Cons.prems f by (auto simp: ty_def)
  have range: "unat ty < 128" "ty \<noteq> 0"
    using tv_type_range [OF v(1)] by (simp_all add: ty_def)
  have byte: "ucast ty \<noteq> (0 :: byte)"
    using range scast_type [of ty] by (auto simp: scast_byte_zero)
  define rest where "rest = concat (map (\<lambda>(i, v). [ucast (tv_type v)] @ be_bytes 2 i @ tv_enc v) fs) @ [0]"
  define y where "y = x + word_of_nat (length ([ucast ty :: byte] @ be_bytes 2 i))"
  have "passes (y + word_of_nat (length (tv_enc v)))
      (skip_run p (Fields (y + word_of_nat (length (tv_enc v))) (Some ty))) rest"
    using Cons.prems unfolding rest_def by (intro Cons.IH) simp
  from passes_then [where f = "skip_run p (Skip ty)" and y = y
      and g = "\<lambda>ret. skip_run p (Fields (y + ret) (Some ty))", OF v(2) this refl]
  have "passes y (\<lambda>w. do { (ret, w) \<leftarrow> skip_run p (Skip ty) w;
      skip_run p (Fields (y + ret) (Some ty)) w }) (tv_enc v @ rest)" .
  then have "passes x (skip_run p (Fields x ft)) (([ucast ty] @ be_bytes 2 i) @ (tv_enc v @ rest))"
    unfolding skip_Fields_eq [OF p, of x ft]
    by (intro passes_seq [where x = y, OF takes_field_begin [OF byte, of i]]) (simp_all add: y_def scast_type range)
  then show ?case
    by (simp add: f ty_def rest_def)
qed

lemma skip_value:
  fixes xml :: "'t ThriftProtocol"
  assumes p: "p = thrift_protocol_init mem xml T_PROTOCOL_BINARY tr" and "provides mem" and "tv_ok v"
  shows "passes 0 (skip_run p (Skip (tv_type v))) (tv_enc v)"
  using assms(3)
proof (induction v)
  case (Leaf i)
  then show ?case
    using skip_leaf [OF assms(2), of i xml] by (simp add: tv_enc_simps p)
next
  case (Elements ty vs)
  define n :: uint32 where "n = word_of_nat (length vs)"
  have n: "unat n = length vs" "\<not> negative n"
    using Elements.prems unat_len [of "length vs"] negative_nat [of "length vs"] by (auto simp: n_def)
  have ty: "scast (ucast ty :: byte) = ty"
    using Elements.prems by (simp add: scast_type)
  have "\<forall>v \<in> set vs. passes 0 (skip_run p (Skip ty)) (tv_enc v)"
    using Elements by (auto simp: list_all_iff)
  then have "passes 5 (skip_run p (Elems 5 ty 0 n)) (concat (map tv_enc vs))"
    by (intro skip_elems [OF p]) (simp_all add: n)
  then have "passes 0 (skip_run p (Skip T_LIST)) (([ucast ty] @ be_bytes 4 n) @ concat (map tv_enc vs))"
    unfolding skip_List_eq [OF p]
    by (intro passes_seq [where x = 5, OF takes_list_begin [OF n(2)]]) (simp_all add: ty)
  then show ?case
    by (simp add: tv_enc_simps n_def)
next
  case (Struct fs)
  then have "passes 0 (skip_run p (Fields 0 None)) (tv_enc (Struct fs))"
    unfolding tv_enc_simps by (intro skip_fields [OF p]) (fastforce simp: list_all_iff)
  then show ?case
    by (simp add: skip_Struct_eq [OF p])
qed

end

subsection \<open>Skipping in a buffer agrees\<close>

lemma le_len: "unat a \<le> n \<Longrightarrow> n < 2 ^ 32 \<Longrightarrow> (a :: uint32) \<le> word_of_nat n"
  by (simp add: word_le_nat_alt unat_len)

lemma not_less_len: "unat a \<le> n \<Longrightarrow> n < 2 ^ 32 \<Longrightarrow> \<not> word_of_nat n < (a :: uint32)"
  using le_len [of a n] by (simp add: leD)

lemma need_ok: "unat n \<le> len \<Longrightarrow> len < 2 ^ 31 \<Longrightarrow> need n (word_of_nat len) e = Some (n, e)"
  using le_len [of n len] by (simp add: need_def leD)

lemma diff_len:
  "length pre \<le> n \<Longrightarrow> word_of_nat n - word_of_nat (length pre) = (word_of_nat (n - length pre) :: uint32)"
  by (simp add: of_nat_diff)

definition clears :: "(byte list \<Rightarrow> uint32) \<Rightarrow> ThriftType \<Rightarrow> byte list \<Rightarrow> bool" where
  "clears junk ty bs = (\<forall>rest e. length (bs @ rest) < 2 ^ 31 \<longrightarrow>
     skip_from junk (From ty) (bs @ rest) (word_of_nat (length (bs @ rest))) e =
       Some (word_of_nat (length bs), e))"

lemma clearsD:
  "clears junk ty bs \<Longrightarrow> length (bs @ rest) < 2 ^ 31 \<Longrightarrow>
   skip_from junk (From ty) (bs @ rest) (word_of_nat (length (bs @ rest))) e = Some (word_of_nat (length bs), e)"
  by (simp add: clears_def del: length_append of_nat_add)

lemma clears_bytes:
  assumes "ty = T_STRING \<or> ty = T_XML"
  shows "clears junk ty (enc_bytes s)"
  unfolding clears_def
proof (intro allI impI)
  fix rest :: "byte list" and e :: int32
  define len where "len = length (enc_bytes s @ rest)"
  assume small: "length (enc_bytes s @ rest) < 2 ^ 31"
  have len: "len = 4 + length s + length rest" "len < 2 ^ 31"
    using small by (simp_all add: len_def enc_bytes_def)
  then have ls: "length s < 2 ^ 31"
    by simp
  have four: "\<not> 4 > (word_of_nat len :: uint32)"
    using le_len [of 4 len] len by simp
  have val: "be_value (be_bytes 4 (word_of_nat (length s) :: uint32)) = (word_of_nat (length s) :: int32)"
    by (simp add: be_value_bytes)
  have "unat (4 + word_of_nat (length s) :: uint32) = 4 + length s"
    using unat_add_small [of 4 "word_of_nat (length s)"] unat_len [of "length s"] len by simp
  then have fits: "\<not> 4 + word_of_nat (length s) > (word_of_nat len :: uint32)"
    using le_len [of "4 + word_of_nat (length s)" len] len by simp
  have pk: "peek (enc_bytes s @ rest) 0 4 = Some (be_bytes 4 (word_of_nat (length s) :: uint32))"
    by (simp add: peek_def enc_bytes_def)
  show "skip_from junk (From ty) (enc_bytes s @ rest) (word_of_nat (length (enc_bytes s @ rest))) e =
      Some (word_of_nat (length (enc_bytes s)), e)"
    using assms four fits pk val sint_len [OF ls] unfolding len_def [symmetric]
    by (subst skip_from.simps) (auto simp: Let_def enc_bytes_def)
qed

lemma clears_fixed:
  assumes "\<And>base len e. skip_from junk (From ty) base len e = need n len e" and "unat n = length bs"
    and "n = word_of_nat (length bs)"
  shows "clears junk ty bs"
  unfolding clears_def
proof (intro allI impI)
  fix rest :: "byte list" and e :: int32
  assume "length (bs @ rest) < 2 ^ 31"
  then show "skip_from junk (From ty) (bs @ rest) (word_of_nat (length (bs @ rest))) e =
      Some (word_of_nat (length bs), e)"
    using need_ok [of n "length (bs @ rest)" e] assms by simp
qed

lemma skip_from_widths:
  "skip_from junk (From T_BOOL) base len e = need 1 len e"
  "skip_from junk (From T_BYTE) base len e = need 1 len e"
  "skip_from junk (From T_I16) base len e = need 2 len e"
  "skip_from junk (From T_U16) base len e = need 2 len e"
  "skip_from junk (From T_I32) base len e = need 4 len e"
  "skip_from junk (From T_U32) base len e = need 4 len e"
  "skip_from junk (From T_IPV4) base len e = need 4 len e"
  "skip_from junk (From T_I64) base len e = need 8 len e"
  "skip_from junk (From T_U64) base len e = need 8 len e"
  "skip_from junk (From T_DOUBLE) base len e = need 8 len e"
  "skip_from junk (From T_UUID) base len e = need 16 len e"
  by (subst skip_from.simps, simp)+

lemma clears_leaf:
  assumes "item_ok i" and "leaf_type i \<noteq> None"
  shows "clears junk (the (leaf_type i)) (enc i)"
  using assms
  by (cases i)
    (auto simp: host_bytes_def intro: clears_bytes
      intro: clears_fixed [of junk, OF skip_from_widths(1)] clears_fixed [of junk, OF skip_from_widths(2)]
        clears_fixed [of junk, OF skip_from_widths(3)] clears_fixed [of junk, OF skip_from_widths(4)]
        clears_fixed [of junk, OF skip_from_widths(5)] clears_fixed [of junk, OF skip_from_widths(6)]
        clears_fixed [of junk, OF skip_from_widths(7)] clears_fixed [of junk, OF skip_from_widths(8)]
        clears_fixed [of junk, OF skip_from_widths(9)] clears_fixed [of junk, OF skip_from_widths(10)]
        clears_fixed [of junk, OF skip_from_widths(11)])

lemma clears_elems:
  assumes "\<forall>v \<in> set vs. clears junk ty (tv_enc v)" and "i + length vs = n" and "n < 2 ^ 31"
    and "length (pre @ concat (map tv_enc vs) @ rest) < 2 ^ 31"
  shows "skip_from junk (From_elems (word_of_nat (length pre)) ty (word_of_nat i) (word_of_nat n))
           (pre @ concat (map tv_enc vs) @ rest)
           (word_of_nat (length (pre @ concat (map tv_enc vs) @ rest))) e =
         Some (word_of_nat (length (pre @ concat (map tv_enc vs))), e)"
  using assms
proof (induction vs arbitrary: pre i)
  case Nil
  then show ?case
    by (subst skip_from.simps) simp
next
  case (Cons v vs)
  define base where "base = pre @ concat (map tv_enc (v # vs)) @ rest"
  have small: "length base < 2 ^ 31" and lt: "i < n"
    using Cons.prems by (simp_all add: base_def)
  have off: "unat (word_of_nat (length pre) :: uint32) = length pre"
    using small by (intro unat_len) (simp add: base_def)
  define more where "more = tv_enc v @ (concat (map tv_enc vs) @ rest)"
  have tail: "drop (length pre) base = more"
    by (simp add: base_def more_def)
  have left: "word_of_nat (length base) - word_of_nat (length pre) = (word_of_nat (length more) :: uint32)"
    by (simp add: base_def more_def)
  have one: "skip_from junk (From ty) more (word_of_nat (length more)) e = Some (word_of_nat (length (tv_enc v)), e)"
    using Cons.prems(1) small unfolding more_def by (intro clearsD) (simp_all add: base_def)
  have "sint (word_of_nat i :: int32) < sint (word_of_nat n :: int32)"
    using lt Cons.prems(3) by (simp add: sint_len)
  then have "skip_from junk (From_elems (word_of_nat (length pre)) ty (word_of_nat i) (word_of_nat n)) base
      (word_of_nat (length base)) e =
    skip_from junk (From_elems (word_of_nat (length (pre @ tv_enc v))) ty (word_of_nat (Suc i)) (word_of_nat n)) base
      (word_of_nat (length base)) e"
    by (subst skip_from.simps) (simp only: buffer_call.case if_True off tail left one option.case bind.bind_lunit
        prod.case length_append of_nat_add of_nat_Suc add.commute [of 1])
  also have "\<dots> = Some (word_of_nat (length ((pre @ tv_enc v) @ concat (map tv_enc vs))), e)"
    using Cons.IH [of "Suc i" "pre @ tv_enc v"] Cons.prems by (simp add: base_def)
  finally show ?case
    by (simp add: base_def)
qed

lemma clears_fields:
  assumes "\<forall>(i, v) \<in> set fs. tv_ok v \<and> clears junk (tv_type v) (tv_enc v)"
  defines "fbytes \<equiv> \<lambda>(i :: 16 word, v). [ucast (tv_type v)] @ be_bytes 2 i @ tv_enc v"
  assumes "length (pre @ concat (map fbytes fs) @ [0] @ rest) < 2 ^ 31"
  shows "skip_from junk (From_fields (word_of_nat (length pre))) (pre @ concat (map fbytes fs) @ [0] @ rest)
           (word_of_nat (length (pre @ concat (map fbytes fs) @ [0] @ rest))) e =
         Some (word_of_nat (length (pre @ concat (map fbytes fs) @ [0])), e)"
  using assms(1,3)
proof (induction fs arbitrary: pre)
  case Nil
  define base where "base = pre @ [0] @ rest"
  have small: "length base < 2 ^ 31"
    using Nil by (simp add: base_def)
  have off: "unat (word_of_nat (length pre) :: uint32) = length pre"
    using small by (intro unat_len) (simp add: base_def)
  have left: "word_of_nat (length base) - word_of_nat (length pre) = (word_of_nat (length ([0] @ rest)) :: uint32)"
    by (simp add: base_def)
  have one: "\<not> 1 > (word_of_nat (length ([0] @ rest)) :: uint32)"
    using small by (intro not_less_len) (simp_all add: base_def)
  have pk: "peek base (length pre) 1 = Some [0]"
    by (simp add: peek_def base_def)
  have "skip_from junk (From_fields (word_of_nat (length pre))) base (word_of_nat (length base)) e =
      Some (word_of_nat (length pre) + 1, e)"
    by (subst skip_from.simps) (simp only: buffer_call.case off left one if_False pk bind.bind_lunit Let_def, simp)
  then show ?case
    by (simp add: base_def add.commute)
next
  case (Cons f fs)
  obtain i v where f: "f = (i, v)"
    by (cases f)
  define ty where "ty = tv_type v"
  have v: "tv_ok v" "clears junk ty (tv_enc v)"
    using Cons.prems(1) f by (auto simp: ty_def)
  have range: "unat ty < 128" "ty \<noteq> 0"
    using tv_type_range [OF v(1)] by (simp_all add: ty_def)
  define tail where "tail = concat (map fbytes fs) @ [0] @ rest"
  define base where "base = pre @ [ucast ty] @ be_bytes 2 i @ tv_enc v @ tail"
  have base: "base = pre @ concat (map fbytes (f # fs)) @ [0] @ rest"
    by (simp add: base_def tail_def fbytes_def f ty_def)
  have small: "length base < 2 ^ 31"
    using Cons.prems(2) by (simp only: base)
  define r1 r3 :: uint32 where "r1 = word_of_nat (length pre) + 1" and "r3 = word_of_nat (length pre) + 1 + 2"
  have off: "unat (word_of_nat (length pre) :: uint32) = length pre"
    using small by (intro unat_len) (simp add: base_def)
  have off3: "unat r3 = length pre + 3"
    using unat_len [of "length pre + 3"] small by (simp add: r3_def base_def add.assoc)
  have left: "word_of_nat (length base) - word_of_nat (length pre) =
      (word_of_nat (3 + length (tv_enc v @ tail)) :: uint32)"
    "word_of_nat (length base) - r1 = (word_of_nat (2 + length (tv_enc v @ tail)) :: uint32)"
    "word_of_nat (length base) - r3 = (word_of_nat (length (tv_enc v @ tail)) :: uint32)"
    by (simp_all add: base_def r1_def r3_def)
  have ge: "\<not> 1 > (word_of_nat (3 + length (tv_enc v @ tail)) :: uint32)"
    "\<not> 2 > (word_of_nat (2 + length (tv_enc v @ tail)) :: uint32)"
    using small by (intro not_less_len; simp add: base_def)+
  have pk: "peek base (length pre) 1 = Some [ucast ty]"
    by (simp add: peek_def base_def)
  have dr: "drop (length pre + 3) base = tv_enc v @ tail"
    by (simp add: base_def)
  have inner: "skip_from junk (From ty) (tv_enc v @ tail) (word_of_nat (length (tv_enc v @ tail))) e =
      Some (word_of_nat (length (tv_enc v)), e)"
    using v(2) small by (intro clearsD) (simp_all add: base_def)
  have "skip_from junk (From_fields (word_of_nat (length pre))) base (word_of_nat (length base)) e =
      skip_from junk (From_fields (r3 + word_of_nat (length (tv_enc v)))) base (word_of_nat (length base)) e"
    by (subst skip_from.simps)
      (simp only: buffer_call.case off left(1) ge if_False pk bind.bind_lunit Let_def nth_Cons_0
        scast_type [OF range(1)] range(2) r1_def [symmetric] left(2) r3_def [folded r1_def, symmetric] left(3)
        off3 dr inner prod.case)
  also have "r3 + word_of_nat (length (tv_enc v)) =
      word_of_nat (length (pre @ [ucast ty :: byte] @ be_bytes 2 i @ tv_enc v))"
    by (simp add: r3_def)
  also have "skip_from junk (From_fields \<dots>) base (word_of_nat (length base)) e =
      Some (word_of_nat (length ((pre @ [ucast ty] @ be_bytes 2 i @ tv_enc v) @ concat (map fbytes fs) @ [0])), e)"
    using Cons.IH [of "pre @ [ucast ty] @ be_bytes 2 i @ tv_enc v"] Cons.prems(1) small
    by (simp add: base_def tail_def)
  finally show ?case
    unfolding base [symmetric] by (simp add: fbytes_def f ty_def)
qed

lemma take_bit_type: "unat ty < 128 \<Longrightarrow> take_bit 8 (ty :: uint32) = ty"
  by (rule word_unat_eq_iff [THEN iffD2]) (simp add: unsigned_take_bit_eq take_bit_nat_eq_self)

lemma clears_value:
  assumes "\<forall>b. junk b = 0" and "tv_ok v"
  shows "clears junk (tv_type v) (tv_enc v)"
  using assms(2)
proof (induction v)
  case (Leaf i)
  then show ?case
    using clears_leaf [of i junk] by (simp add: tv_enc_simps)
next
  case (Elements ty vs)
  define h where "h = [ucast ty] @ be_bytes 4 (word_of_nat (length vs) :: uint32)"
  have h: "length h = 5" "tv_enc (Elements ty vs) = h @ concat (map tv_enc vs)"
    by (simp_all add: h_def tv_enc_simps)
  have n: "length vs < 2 ^ 31" and ty: "unat ty < 128"
    using Elements.prems by simp_all
  have elem: "ucast (ucast ty :: byte) OR push_bit 8 0 = ty"
    using take_bit_type [OF ty] by (simp add: ucast_byte_mask)
  have all: "\<forall>v \<in> set vs. clears junk ty (tv_enc v)"
    using Elements by (auto simp: list_all_iff)
  show ?case
    unfolding clears_def
  proof (intro allI impI)
    fix rest :: "byte list" and e :: int32
    define base where "base = h @ concat (map tv_enc vs) @ rest"
    assume "length (tv_enc (Elements ty vs) @ rest) < 2 ^ 31"
    then have small: "length base < 2 ^ 31"
      by (simp add: base_def h(2))
    have ge: "\<not> 1 > (word_of_nat (length base) :: uint32)" "\<not> 1 + 4 > (word_of_nat (length base) :: uint32)"
      using small by (intro not_less_len; simp add: base_def h(1))+
    have pk: "peek base 0 1 = Some [ucast ty]" "peek base 1 4 = Some (be_bytes 4 (word_of_nat (length vs) :: uint32))"
      by (simp_all add: peek_def base_def h_def)
    have "skip_from junk (From T_LIST) base (word_of_nat (length base)) e =
        skip_from junk (From_elems (word_of_nat (length h)) ty (word_of_nat 0) (word_of_nat (length vs))) base
          (word_of_nat (length base)) e"
      using ge pk elem negative_nat [OF n] assms(1)
      by (subst skip_from.simps) (simp add: Let_def be_value_bytes h(1))
    also have "\<dots> = Some (word_of_nat (length (h @ concat (map tv_enc vs))), e)"
      unfolding base_def using small all n by (intro clears_elems) (simp_all add: base_def)
    finally show "skip_from junk (From (tv_type (Elements ty vs))) (tv_enc (Elements ty vs) @ rest)
        (word_of_nat (length (tv_enc (Elements ty vs) @ rest))) e =
        Some (word_of_nat (length (tv_enc (Elements ty vs))), e)"
      by (simp add: base_def h(2))
  qed
next
  case (Struct fs)
  have all: "\<forall>(i, v) \<in> set fs. tv_ok v \<and> clears junk (tv_type v) (tv_enc v)"
    using Struct by (fastforce simp: list_all_iff)
  show ?case
    unfolding clears_def
  proof (intro allI impI)
    fix rest :: "byte list" and e :: int32
    assume "length (tv_enc (Struct fs) @ rest) < 2 ^ 31"
    then show "skip_from junk (From (tv_type (Struct fs))) (tv_enc (Struct fs) @ rest)
        (word_of_nat (length (tv_enc (Struct fs) @ rest))) e = Some (word_of_nat (length (tv_enc (Struct fs))), e)"
      using clears_fields [OF all, of "[]" rest e]
      by (subst skip_from.simps) (simp add: tv_enc_simps)
  qed
qed

subsection \<open>Input that ends too early\<close>

definition fixed_type :: "ThriftType \<Rightarrow> bool" where
  "fixed_type ty = (ty \<in> {T_BOOL, T_BYTE, T_I16, T_I32, T_I64, T_U16, T_U32, T_U64, T_IPV4, T_DOUBLE, T_UUID})"

context source
begin

lemma skip_starved:
  assumes "p = thrift_protocol_init mem xml T_PROTOCOL_BINARY tr" and "fixed_type ty" and "ok t" and "pending t = []"
  shows "skip_run p (Skip ty) \<lparr>dev = t, err = e\<rparr> =
           Some (-1, \<lparr>dev = t, err = THRIFT_TRANSPORT_ERROR_RECEIVE\<rparr>)"
  using assms(2-4) unfolding fixed_type_def
  by (subst skip_run.simps)
    (auto simp: assms(1) protocol_reads only_def fixed_defs fixed_short)

lemma stuck_fields:
  fixes xml :: "'t ThriftProtocol"
  assumes p: "p = thrift_protocol_init mem xml T_PROTOCOL_BINARY tr"
    and "skip_run p c w = Some y" and "ok (dev w)" and "pending (dev w) = []" and "fixed_type ty"
  shows "(c = Skip ty \<longrightarrow> dev (snd y) = dev w) \<and> c \<noteq> Fields r (Some ty)"
  using assms(2,1,3-5)
proof (induction p c w y arbitrary: ty r rule: skip_run.raw_induct [rotated, consumes 1])
  case (1 run p c w y)
  obtain t e where w: "w = \<lparr>dev = t, err = e\<rparr>"
    by (cases w) simp
  note t = 1(4,5) [unfolded w, simplified]
  have nz: "ty \<noteq> 0"
    using 1(6) by (auto simp: fixed_type_def)
  have "dev (snd y) = dev w" if "c = Skip ty"
    using 1(2,6) t unfolding that fixed_type_def w
    by (auto simp: 1(3) protocol_reads only_def fixed_defs fixed_short)
  moreover have False if c: "c = Fields r (Some ty)"
  proof -
    have reads: "thrift_protocol_read_field_begin p = thrift_binary_protocol_read_field_begin tr"
      "thrift_protocol_read_field_end p = (\<lambda>w. Some (0, w))" "thrift_protocol_read_struct_end p = (\<lambda>w. Some (0, w))"
      by (simp_all add: 1(3) protocol_reads no_op_defs)
    have "thrift_binary_protocol_read_field_begin tr w =
        Some (-1, (None, None), \<lparr>dev = t, err = THRIFT_TRANSPORT_ERROR_RECEIVE\<rparr>)"
      using t by (simp add: w thrift_binary_protocol_read_field_begin_def fixed_defs fixed_short)
    then obtain ret w2 x where run: "run p (Skip ty) \<lparr>dev = t, err = THRIFT_TRANSPORT_ERROR_RECEIVE\<rparr> = Some (ret, w2)"
        "run p (Fields x (Some ty)) w2 = Some y"
      using 1(2) [unfolded c skip_call.case reads] nz by (auto simp: bind_eq_Some_conv)
    have "dev w2 = t"
      using 1(1) [OF run(1) 1(3), of ty] t 1(6) by simp
    then show False
      using 1(1) [OF run(2) 1(3), of ty x] t 1(6) by simp
  qed
  ultimately show ?case
    by blast
qed

lemma skip_cut_struct:
  fixes xml :: "'t ThriftProtocol"
  assumes p: "p = thrift_protocol_init mem xml T_PROTOCOL_BINARY tr" and "fixed_type ty"
    and "ok t" and "pending t = [ucast ty] @ be_bytes 2 (i :: 16 word)"
  shows "skip_run p (Skip T_STRUCT) \<lparr>dev = t, err = e\<rparr> = None"
proof -
  have range: "unat ty < 128" "ty \<noteq> 0"
    using assms(2) by (auto simp: fixed_type_def)
  have byte: "ucast ty \<noteq> (0 :: byte)"
    using range scast_type [of ty] by (auto simp: scast_byte_zero)
  have pend: "pending t = ([ucast ty] @ be_bytes 2 i) @ []"
    using assms(4) by simp
  obtain t1 where t1: "thrift_binary_protocol_read_field_begin tr \<lparr>dev = t, err = e\<rparr> =
        Some (0 + word_of_nat (length ([ucast ty :: byte] @ be_bytes 2 i)), (Some (scast (ucast ty :: byte)), Some i),
              \<lparr>dev = t1, err = e\<rparr>)" "ok t1" "pending t1 = []"
    using takesE [OF takes_field_begin [OF byte, of i] _ assms(3) pend] by auto
  have "skip_run p (Fields x (Some ty)) \<lparr>dev = t1, err = THRIFT_TRANSPORT_ERROR_RECEIVE\<rparr> = None" for x
    using stuck_fields [OF p _ _ _ assms(2), of "Fields x (Some ty)" "\<lparr>dev = t1, err = THRIFT_TRANSPORT_ERROR_RECEIVE\<rparr>"]
      t1(2,3) by (cases "skip_run p (Fields x (Some ty)) \<lparr>dev = t1, err = THRIFT_TRANSPORT_ERROR_RECEIVE\<rparr>") auto
  then show ?thesis
    using t1 range skip_starved [OF p assms(2) t1(2,3)]
    by (simp add: skip_Struct_eq [OF p] skip_Fields_eq [OF p, of 0 None] scast_type)
qed

end

subsection \<open>Skipping over the memory buffer\<close>

text \<open>
  C8. Skipping a value returns and skips exactly that value. A value is a leaf of a type that the
  skip functions have a case for, which is every type that the protocol writes but \<open>T_IPADDR\<close>, or a list or
  struct of values, nested in any way, of less than 2 GiB. The call consumes the bytes that carry it,
  returns their number, reports no error and leaves what follows pending.\<close>

theorem skip_exact:
  assumes "provides mem" and "tv_ok v" and "length (tv_enc v) < 2 ^ 31"
    and "mb_ok t" and "mb_pending t = tv_enc v @ rest"
  shows "\<exists>t'. thrift_protocol_skip (memory_protocol mem xml) (tv_type v) \<lparr>dev = t, err = e\<rparr> =
           Some (word_of_nat (length (tv_enc v)), \<lparr>dev = t', err = e\<rparr>) \<and> mb_ok t' \<and> mb_pending t' = rest"
  using mb.passesE [OF mb.skip_value [OF refl assms(1,2)] assms(3-5)]
  unfolding thrift_protocol_skip_def by (metis add_0)

text \<open>
  C24. The two ways to skip agree on well-formed input without an address of type \<open>T_IPADDR\<close>, for which
  neither has a case: on a buffer of less than 2 GiB that starts with a value, skipping in place
  returns what skipping through the protocol returns, the length of the value, and neither reports
  an error.  It assumes that the three bytes read with the element type of a list happen to be zero.\<close>

theorem skip_from_buffer_agrees:
  assumes "provides mem" and "tv_ok v" and "mb_ok t" and "mb_pending t = tv_enc v @ rest"
    and "length (tv_enc v @ rest) < 2 ^ 31" and "junk = (\<lambda>_. 0)"
  shows "\<exists>n t'. thrift_protocol_skip (memory_protocol mem xml) (tv_type v) \<lparr>dev = t, err = e\<rparr> =
             Some (n, \<lparr>dev = t', err = e\<rparr>) \<and>
           thrift_binary_protocol_skip_from_buffer junk (mb_pending t) (word_of_nat (length (mb_pending t)))
             (tv_type v) e = Some (n, e) \<and>
           unat n = length (tv_enc v)"
proof -
  have small: "length (tv_enc v) < 2 ^ 31"
    using assms(5) by simp
  obtain t' where "skip_run (memory_protocol mem xml) (Skip (tv_type v)) \<lparr>dev = t, err = e\<rparr> =
      Some (0 + word_of_nat (length (tv_enc v)), \<lparr>dev = t', err = e\<rparr>)"
    using mb.passesE [OF mb.skip_value [OF refl assms(1,2)] small assms(3,4)] by metis
  moreover have "skip_from junk (From (tv_type v)) (tv_enc v @ rest) (word_of_nat (length (tv_enc v @ rest))) e =
      Some (word_of_nat (length (tv_enc v)), e)"
    using assms(2,5,6) by (intro clearsD clears_value) simp_all
  moreover have "unat (word_of_nat (length (tv_enc v)) :: int32) = length (tv_enc v)"
    using small by (intro unat_len) simp
  ultimately show ?thesis
    unfolding thrift_protocol_skip_def thrift_binary_protocol_skip_from_buffer_def assms(4) by simp
qed

text \<open>
  C27. Skipping a struct that is cut off after the header of a field of fixed size does not return.
  The failed read of the next header leaves the type of the last field in place, the failed
  skip of its value changes nothing, and the loop, which looks at neither result, starts over.\<close>

theorem skip_cut_struct_diverges:
  assumes "fixed_type ty" and "mb_ok t" and "mb_pending t = enc (I_field_begin ty i)"
  shows "thrift_protocol_skip (memory_protocol mem xml) T_STRUCT \<lparr>dev = t, err = e\<rparr> = None"
  using mb.skip_cut_struct [OF refl assms(1,2)] assms(3) unfolding thrift_protocol_skip_def by simp

subsection \<open>A struct with a list\<close>

definition demo_value :: tval where
  "demo_value = Struct [(1, Elements T_U16 [Leaf (I_u16 5), Leaf (I_u16 6)]), (2, Leaf (I_bool 1))]"

definition demo_input :: "byte list \<Rightarrow> ThriftMemoryBuffer" where
  "demo_input bs = \<lparr>buf = Some bs, buf_roffset = 0, buf_woffset = word_of_nat (length bs),
     buf_size = word_of_nat (length bs), owner = False\<rparr>"

lemma demo_input_ok:
  assumes "length bs < 2 ^ 31"
  shows "mb_ok (demo_input bs)" and "mb_pending (demo_input bs) = bs"
  using assms unat_len [of "length bs"]
  by (simp_all add: demo_input_def mb_ok_def mb_pending_def contents_def)

lemma demo_value_ok: "tv_ok demo_value" "length (tv_enc demo_value) = 17"
  by (simp_all add: demo_value_def tv_enc_simps)

theorem skip_exact_witness:
  "tv_ok demo_value \<and>
   (\<exists>t'. thrift_protocol_skip (memory_protocol demo_heap (memory_protocol demo_heap undefined)) (tv_type demo_value)
      \<lparr>dev = demo_input (tv_enc demo_value @ [7]), err = 0\<rparr> = Some (17, \<lparr>dev = t', err = 0\<rparr>) \<and>
      mb_ok t' \<and> mb_pending t' = [7])"
  using skip_exact [OF demo_heap_provides demo_value_ok(1) _ demo_input_ok [of "tv_enc demo_value @ [7]"],
      of "memory_protocol demo_heap undefined" 0] demo_value_ok by simp

theorem skip_from_buffer_agrees_witness:
  "\<exists>n t'. thrift_protocol_skip (memory_protocol demo_heap (memory_protocol demo_heap undefined)) (tv_type demo_value)
       \<lparr>dev = demo_input (tv_enc demo_value @ [7]), err = 0\<rparr> = Some (n, \<lparr>dev = t', err = 0\<rparr>) \<and>
     thrift_binary_protocol_skip_from_buffer (\<lambda>_. 0) (mb_pending (demo_input (tv_enc demo_value @ [7])))
       (word_of_nat (length (mb_pending (demo_input (tv_enc demo_value @ [7]))))) (tv_type demo_value) 0 = Some (n, 0) \<and>
     unat n = length (tv_enc demo_value)"
  by (rule skip_from_buffer_agrees [OF demo_heap_provides demo_value_ok(1) demo_input_ok])
    (simp_all add: demo_value_ok)

theorem skip_cut_struct_diverges_witness:
  "mb_pending (demo_input [8, 0, 1]) = enc (I_field_begin T_I32 1) \<and>
   thrift_protocol_skip (memory_protocol demo_heap (memory_protocol demo_heap undefined)) T_STRUCT
     \<lparr>dev = demo_input [8, 0, 1], err = 0\<rparr> = None"
proof
  show "mb_pending (demo_input [8, 0, 1]) = enc (I_field_begin T_I32 1)"
    by (simp add: demo_input_ok be_bytes_def upt_conv_Cons)
  then show "thrift_protocol_skip (memory_protocol demo_heap (memory_protocol demo_heap undefined)) T_STRUCT
      \<lparr>dev = demo_input [8, 0, 1], err = 0\<rparr> = None"
    by (intro skip_cut_struct_diverges [of T_I32 _ 1]) (simp_all add: fixed_type_def demo_input_ok)
qed

end
