(* ===== verification/Sandesh_Codec.thy ===== *)
theory Sandesh_Codec
  imports Thrift_Skip
begin

text \<open>
  Decoding a buffer of sandeshs and dispatching each to its handler, encoding one and measuring
  one (\<open>src/sandesh/library/c/sandesh.c\<close>).
\<close>

subsection \<open>The handlers of a sandesh\<close>

text \<open>
  The functions of a \<open>sandesh_info_t\<close> are generated from the interface definitions: they are
  fields of the record, arguments of what follows.  \<open>'o\<close> is the decoded object and \<open>'s\<close> the state
  its handler works on.
\<close>

abbreviation (input) EINVAL :: int32 where "EINVAL \<equiv> 22"

record ('o, 's) sandesh_info =
  si_name :: "byte list"
  si_size :: uint32
  si_read_from :: "byte list \<Rightarrow> uint32 \<Rightarrow> int32 \<Rightarrow> int32 \<times> 'o \<times> int32"
  si_write :: "'o \<Rightarrow> unit ThriftProtocol \<Rightarrow> unit writer"
  si_write_to :: "'o \<Rightarrow> byte list \<Rightarrow> uint32 \<Rightarrow> int32 \<Rightarrow> int32 \<times> byte list \<times> int32"
  si_process :: "'o \<Rightarrow> 's \<Rightarrow> 's"

definition c_string :: "byte list \<Rightarrow> byte list" where
  "c_string s = takeWhile (\<lambda>c. c \<noteq> 0) s"

fun sandesh_find_info :: "('o, 's) sandesh_info list \<Rightarrow> byte list \<Rightarrow> ('o, 's) sandesh_info option" where
  "sandesh_find_info [] name = None"
| "sandesh_find_info (i # infos) name =
     (if c_string (si_name i) = c_string name then Some i else sandesh_find_info infos name)"

definition sandesh_decode_one ::
    "heap \<Rightarrow> (byte list \<Rightarrow> ('o, 's) sandesh_info option) \<Rightarrow> byte list \<Rightarrow> uint32 \<Rightarrow> int32 \<times> 's \<Rightarrow>
     (int32 \<times> int32 \<times> 's) option" where
  "sandesh_decode_one mem sinfo_find_fn base buf_len w =
     (if buf_len < 4 then Some (-1, w)
      else do {
        bytes4 \<leftarrow> peek base 0 4;
        let sread_len = (be_value bytes4 :: int32);
        if sint sread_len > 0 then
          if sint sread_len + 4 \<ge> 2 ^ 31 then None
          else if buf_len < 4 + sread_len then Some (-1, w)
          else do {
            space \<leftarrow> os_malloc mem (unat (sread_len + 1));
            sname \<leftarrow> peek base 4 (unat sread_len);
            case sinfo_find_fn (c_string sname) of
              None \<Rightarrow> Some (-1, EINVAL, snd w)
            | Some sinfo \<Rightarrow>
                (case os_malloc mem (unat (si_size sinfo)) of
                   None \<Rightarrow> Some (-1, ENOMEM, snd w)
                 | Some space \<Rightarrow>
                     let (rxfer, sandesh, e) = si_read_from sinfo base buf_len (fst w)
                     in if negative rxfer then Some (-1, e, snd w)
                        else Some (rxfer, e, si_process sinfo sandesh (snd w)))
          }
        else Some (-1, w)
      })"

partial_function (option) decode_loop ::
    "heap \<Rightarrow> (byte list \<Rightarrow> ('o, 's) sandesh_info option) \<Rightarrow> byte list \<Rightarrow> uint32 \<Rightarrow> uint32 \<Rightarrow> int32 \<times> 's \<Rightarrow>
     (int32 \<times> int32 \<times> 's) option" where
  "decode_loop mem sinfo_find_fn base buf_len xfer w =
     (if xfer < buf_len
      then do {
        (ret, w) \<leftarrow> sandesh_decode_one mem sinfo_find_fn (drop (unat xfer) base) (buf_len - xfer) w;
        if negative ret then Some (ret, w)
        else decode_loop mem sinfo_find_fn base buf_len (xfer + ret) w
      }
      else Some (xfer, w))"

definition sandesh_decode ::
    "heap \<Rightarrow> (byte list \<Rightarrow> ('o, 's) sandesh_info option) \<Rightarrow> byte list \<Rightarrow> uint32 \<Rightarrow> int32 \<times> 's \<Rightarrow>
     (int32 \<times> int32 \<times> 's) option" where
  "sandesh_decode mem sinfo_find_fn base buf_len w = decode_loop mem sinfo_find_fn base buf_len 0 w"

definition sandesh_encode ::
    "'o \<Rightarrow> byte list \<Rightarrow> (byte list \<Rightarrow> ('o, 's) sandesh_info option) \<Rightarrow> byte list \<Rightarrow> uint32 \<Rightarrow> int32 \<Rightarrow>
     int32 \<times> byte list \<times> int32" where
  "sandesh_encode sandesh sname sinfo_find_fn base buf_len e =
     (case sinfo_find_fn sname of
        None \<Rightarrow> (-1, base, EINVAL)
      | Some sinfo \<Rightarrow>
          let (wxfer, base, e) = si_write_to sinfo sandesh base buf_len e
          in if negative wxfer then (-1, base, e) else (wxfer, base, e))"

definition sandesh_get_encoded_length ::
    "heap \<Rightarrow> unit ThriftProtocol \<Rightarrow> 'o \<Rightarrow> byte list \<Rightarrow> (byte list \<Rightarrow> ('o, 's) sandesh_info option) \<Rightarrow> int32 \<Rightarrow>
     (int32 \<times> int32) option" where
  "sandesh_get_encoded_length mem xml sandesh sname sinfo_find_fn e =
     (case sinfo_find_fn sname of
        None \<Rightarrow> Some (-1, EINVAL)
      | Some sinfo \<Rightarrow> do {
          let transport = thrift_fake_transport_init;
          let protocol = thrift_protocol_init mem xml T_PROTOCOL_BINARY transport;
          (wxfer, w) \<leftarrow> si_write sinfo sandesh protocol \<lparr>dev = (), err = e\<rparr>;
          Some (if negative wxfer then -1 else wxfer, err w)
        })"

subsection \<open>A stream of messages\<close>

text \<open>
  A packet is a named message: the name as \<open>write_sandesh_begin\<close> sends it, and a body.  What the
  decoder relies on of the generated code: \<open>reads_packet\<close>, the reader of the type named
  consumes the packet, whatever follows it, and yields the object.
\<close>

record 'o packet =
  pk_name :: "byte list"
  pk_body :: "byte list"
  pk_object :: 'o

definition pk_bytes :: "'o packet \<Rightarrow> byte list" where
  "pk_bytes k = enc_bytes (pk_name k) @ pk_body k"

definition packet_ok :: "'o packet \<Rightarrow> bool" where
  "packet_ok k = (pk_name k \<noteq> [] \<and> 0 \<notin> set (pk_name k) \<and> length (pk_name k) < 2 ^ 30)"

definition reads_packet :: "('o, 's) sandesh_info \<Rightarrow> 'o packet \<Rightarrow> bool" where
  "reads_packet i k = (\<forall>rest e. length (pk_bytes k @ rest) < 2 ^ 31 \<longrightarrow>
     si_read_from i (pk_bytes k @ rest) (word_of_nat (length (pk_bytes k @ rest))) e =
       (word_of_nat (length (pk_bytes k)), pk_object k, e))"

definition handle :: "(byte list \<Rightarrow> ('o, 's) sandesh_info option) \<Rightarrow> 'o packet \<Rightarrow> 's \<Rightarrow> 's" where
  "handle finder k s = si_process (the (finder (pk_name k))) (pk_object k) s"

lemma decode_one_packet:
  assumes "provides mem" and "packet_ok k" and "finder (pk_name k) = Some i" and "reads_packet i k"
    and small: "length (pk_bytes k @ rest) < 2 ^ 31"
  shows "sandesh_decode_one mem finder (pk_bytes k @ rest) (word_of_nat (length (pk_bytes k @ rest))) (e, s) =
           Some (word_of_nat (length (pk_bytes k)), e, handle finder k s)"
proof -
  define base where "base = pk_bytes k @ rest"
  define nm where "nm = pk_name k"
  have nm: "nm \<noteq> []" "0 \<notin> set nm" "length nm < 2 ^ 30"
    using assms(2) by (simp_all add: packet_ok_def nm_def)
  have base: "base = be_bytes 4 (word_of_nat (length nm) :: uint32) @ nm @ pk_body k @ rest"
    by (simp add: base_def pk_bytes_def enc_bytes_def nm_def)
  have len: "length base = 4 + length nm + length (pk_body k @ rest)" "length base < 2 ^ 31"
    using small by (simp_all add: base base_def [symmetric])
  have ge4: "\<not> word_of_nat (length base) < (4 :: uint32)"
    using len by (intro not_less_len) simp_all
  have un: "unat (word_of_nat (length nm) :: int32) = length nm"
    using nm(3) by (intro unat_len) simp
  have "unat (4 + word_of_nat (length nm) :: uint32) = 4 + length nm"
    using unat_add_small [of 4 "word_of_nat (length nm)"] un nm(3) by simp
  then have fits: "\<not> word_of_nat (length base) < (4 + word_of_nat (length nm) :: uint32)"
    using len by (intro not_less_len) simp_all
  have pk: "peek base 0 4 = Some (be_bytes 4 (word_of_nat (length nm) :: uint32))"
      "peek base 4 (length nm) = Some nm"
    using len by (simp_all add: peek_def base)
  have cs: "c_string nm = nm"
    using nm(2) by (simp add: c_string_def takeWhile_eq_all_conv) metis
  have val: "be_value (be_bytes 4 (word_of_nat (length nm) :: uint32)) = (word_of_nat (length nm) :: int32)"
    by (simp add: be_value_bytes)
  have si: "sint (word_of_nat (length nm) :: int32) = int (length nm)"
    using nm(3) by (intro sint_len) simp
  obtain b1 where b1: "os_malloc mem (unat (word_of_nat (length nm) + 1 :: int32)) = Some b1"
    using os_malloc_provides [OF assms(1)] by blast
  obtain b2 where b2: "os_malloc mem (unat (si_size i)) = Some b2"
    using os_malloc_provides [OF assms(1)] by blast
  have rd: "si_read_from i base (word_of_nat (length base)) e = (word_of_nat (length (pk_bytes k)), pk_object k, e)"
    using assms(4) small unfolding reads_packet_def base_def by blast
  have pos: "\<not> negative (word_of_nat (length (pk_bytes k)) :: int32)"
    using small by (intro negative_nat) simp
  have "sandesh_decode_one mem finder base (word_of_nat (length base)) (e, s) =
      Some (word_of_nat (length (pk_bytes k)), e, si_process i (pk_object k) s)"
    unfolding sandesh_decode_one_def using ge4 nm(1,3) fits assms(3)
    by (simp add: pk val si un b1 cs b2 rd pos nm_def [symmetric] Let_def)
  then show ?thesis
    by (simp add: base_def handle_def assms(3))
qed

lemma pk_bytes_pos: "0 < length (pk_bytes k)"
  by (simp add: pk_bytes_def enc_bytes_def)

lemma decode_packets:
  assumes "provides mem" and "\<forall>k \<in> set ks. packet_ok k \<and> (\<exists>i. finder (pk_name k) = Some i \<and> reads_packet i k)"
    and "length (pre @ concat (map pk_bytes ks)) < 2 ^ 31"
  shows "decode_loop mem finder (pre @ concat (map pk_bytes ks)) (word_of_nat (length (pre @ concat (map pk_bytes ks))))
           (word_of_nat (length pre)) (e, s) =
         Some (word_of_nat (length (pre @ concat (map pk_bytes ks))), e, fold (handle finder) ks s)"
  using assms(2,3)
proof (induction ks arbitrary: pre s)
  case Nil
  then show ?case
    by (subst decode_loop.simps) simp
next
  case (Cons k ks)
  define tail where "tail = pk_bytes k @ concat (map pk_bytes ks)"
  define base where "base = pre @ tail"
  have small: "length base < 2 ^ 31"
    using Cons.prems(2) by (simp add: base_def tail_def)
  have off: "unat (word_of_nat (length pre) :: uint32) = length pre"
    and top: "unat (word_of_nat (length base) :: uint32) = length base"
    using small by (intro unat_len; simp add: base_def)+
  have lt: "(word_of_nat (length pre) :: uint32) < word_of_nat (length base)"
    using off top pk_bytes_pos [of k] by (simp add: word_less_nat_alt base_def tail_def)
  have left: "word_of_nat (length base) - word_of_nat (length pre) = (word_of_nat (length tail) :: uint32)"
    by (simp add: base_def)
  have dr: "drop (length pre) base = tail"
    by (simp add: base_def)
  obtain i where i: "packet_ok k" "finder (pk_name k) = Some i" "reads_packet i k"
    using Cons.prems(1) by auto
  have one: "sandesh_decode_one mem finder tail (word_of_nat (length tail)) (e, s) =
      Some (word_of_nat (length (pk_bytes k)), e, handle finder k s)"
    using decode_one_packet [where finder = finder, OF assms(1) i, of "concat (map pk_bytes ks)" e s] small
    by (simp add: tail_def base_def)
  have pos: "\<not> negative (word_of_nat (length (pk_bytes k)) :: int32)"
    using small by (intro negative_nat) (simp add: base_def tail_def)
  have "decode_loop mem finder base (word_of_nat (length base)) (word_of_nat (length pre)) (e, s) =
      decode_loop mem finder base (word_of_nat (length base)) (word_of_nat (length (pre @ pk_bytes k)))
        (e, handle finder k s)"
    by (subst decode_loop.simps)
      (simp only: lt if_True off dr left one bind.bind_lunit prod.case pos if_False length_append of_nat_add)
  also have "\<dots> = Some (word_of_nat (length base), e, fold (handle finder) ks (handle finder k s))"
    using Cons.IH [of "pre @ pk_bytes k" "handle finder k s"] Cons.prems by (simp add: base_def tail_def)
  finally show ?case
    by (simp add: base_def tail_def)
qed

text \<open>
  C21. Decoding a buffer of messages whose types are known returns: it hands every message to the
  handler of its type, in the order of the buffer, and returns the length of the buffer without
  an error.\<close>

theorem sandesh_decode_all:
  assumes "provides mem" and "list_all packet_ok ks" and "length (concat (map pk_bytes ks)) < 2 ^ 31"
    and "\<forall>k \<in> set ks. \<exists>i. finder (pk_name k) = Some i \<and> reads_packet i k"
  shows "sandesh_decode mem finder (concat (map pk_bytes ks)) (word_of_nat (length (concat (map pk_bytes ks)))) (e, s) =
           Some (word_of_nat (length (concat (map pk_bytes ks))), e, fold (handle finder) ks s)"
  using decode_packets [OF assms(1), of ks finder "[]" e s] assms(2-4)
  unfolding sandesh_decode_def by (simp add: list_all_iff)

text \<open>
  C25. The length reported for a sandesh is the number of bytes it takes: when the generated writer
  makes the protocol calls of a message, \<open>sandesh_get_encoded_length\<close> returns what writing the
  message into a memory buffer with room for it returns, and that many bytes are then in the
  buffer.\<close>

theorem encoded_length:
  assumes "finder name = Some i" and "si_write i obj (fake_protocol mem' xml') = write_items (fake_protocol mem' xml') ms"
    and "list_all item_ok ms" and "length (concat (map enc ms)) < 2 ^ 31"
    and "mb_ok t" and "mb_room mem t (length (concat (map enc ms)))"
  shows "\<exists>n t'. sandesh_get_encoded_length mem' xml' obj name finder e = Some (n, e) \<and>
     write_items (memory_protocol mem xml) ms \<lparr>dev = t, err = e\<rparr> = Some (n, \<lparr>dev = t', err = e\<rparr>) \<and>
     length (mb_pending t') = length (mb_pending t) + unat n"
proof -
  obtain n t' where "write_items (fake_protocol mem' xml') ms \<lparr>dev = (), err = e\<rparr> = Some (n, \<lparr>dev = (), err = e\<rparr>)"
      "write_items (memory_protocol mem xml) ms \<lparr>dev = t, err = e\<rparr> = Some (n, \<lparr>dev = t', err = e\<rparr>)"
      "length (mb_pending t') = length (mb_pending t) + unat n" "\<not> negative n"
    using lengths_agree [OF assms(3-6)] by metis
  then show ?thesis
    using assms(1,2) by (simp add: sandesh_get_encoded_length_def Let_def)
qed

subsection \<open>Two messages in a buffer\<close>

definition demo_info :: "(byte, byte list) sandesh_info" where
  "demo_info = \<lparr>si_name = [65], si_size = 8,
     si_read_from = (\<lambda>base len e. (6, base ! 5, e)),
     si_write = (\<lambda>obj p. write_items p [I_sandesh_begin (Some [65]), I_byte obj, I_sandesh_end]),
     si_write_to = (\<lambda>obj base len e. (6, [0, 0, 0, 1, 65, obj] @ drop 6 base, e)),
     si_process = (\<lambda>obj s. s @ [obj])\<rparr>"

definition demo_packet :: "byte \<Rightarrow> byte packet" where
  "demo_packet v = \<lparr>pk_name = [65], pk_body = [v], pk_object = v\<rparr>"

lemma demo_packet_ok: "packet_ok (demo_packet v)" "length (pk_bytes (demo_packet v)) = 6"
  "sandesh_find_info [demo_info] (pk_name (demo_packet v)) = Some demo_info" "reads_packet demo_info (demo_packet v)"
  by (simp_all add: packet_ok_def demo_packet_def pk_bytes_def enc_bytes_def reads_packet_def demo_info_def
      c_string_def nth_append)

lemma demo_handle: "handle (sandesh_find_info [demo_info]) (demo_packet v) s = s @ [v]"
  by (simp add: handle_def demo_packet_def demo_info_def)

theorem sandesh_decode_all_witness:
  "sandesh_decode demo_heap (sandesh_find_info [demo_info]) (concat (map pk_bytes [demo_packet 1, demo_packet 2])) 12
     (0, []) = Some (12, 0, [1, 2])"
  using sandesh_decode_all [of demo_heap "[demo_packet 1, demo_packet 2]" "sandesh_find_info [demo_info]" 0 "[]"]
  by (simp add: demo_heap_provides demo_packet_ok demo_handle del: sandesh_find_info.simps)

theorem encoded_length_witness:
  "\<exists>n t'. sandesh_get_encoded_length demo_heap (fake_protocol demo_heap undefined) 7 [65]
       (sandesh_find_info [demo_info]) 0 = Some (n, 0) \<and>
     write_items (memory_protocol demo_heap (memory_protocol demo_heap undefined))
       [I_sandesh_begin (Some [65]), I_byte 7, I_sandesh_end] \<lparr>dev = demo_buffer, err = 0\<rparr> =
         Some (n, \<lparr>dev = t', err = 0\<rparr>) \<and>
     length (mb_pending t') = length (mb_pending demo_buffer) + unat n"
proof (rule encoded_length [where i = demo_info])
  show "mb_room demo_heap demo_buffer
      (length (concat (map enc [I_sandesh_begin (Some [65]), I_byte 7, I_sandesh_end])))"
    using mb.room_less [OF demo_buffer_ok(3)] by (simp add: enc_bytes_def contents_def)
qed (simp_all add: demo_info_def c_string_def string_ok_def contents_def enc_bytes_def demo_buffer_ok)

end
