(* ===== verification/Tcp_Reader.thy ===== *)
theory Tcp_Reader
  imports Prelude
begin

text \<open>
  \<open>TcpMessageReader\<close> of src/io/tcp_session.cc, which cuts the byte stream of a \<open>TcpSession\<close> into messages, with
  the buffers of the session it reads from. What a message is, is up to the derived class: \<open>MsgLength\<close>,
  \<open>GetHeaderLenSize\<close> and \<open>GetMaxMessageSize\<close> are arguments, and the locale \<open>framing\<close> states what the reader relies on. The
  result is that the messages do not depend on how the stream is cut into reads.
\<close>

section \<open>Buffers\<close>

text \<open>
  A buffer is an array at an address. Lengths and offsets are \<open>int\<close>, as in the code; buffers are shorter
  than \<open>2 ^ 31\<close> bytes. Reading or writing outside an array is \<open>None\<close>.
\<close>

record 'b Buffer =
  bf_addr :: nat
  bf_data :: "'b list"

abbreviation BufferSize :: "'b Buffer \<Rightarrow> int" where
  "BufferSize b \<equiv> int (length (bf_data b))"

definition region :: "'b list \<Rightarrow> int \<Rightarrow> int \<Rightarrow> 'b list option" where
  "region xs i n = (if 0 \<le> i \<and> 0 \<le> n \<and> i + n \<le> int (length xs) then Some (take (nat n) (drop (nat i) xs)) else None)"

text \<open>\<open>memcpy\<close> to the end of what has been written to an array of \<open>cap\<close> bytes.\<close>

definition copy_to :: "int \<Rightarrow> 'b list \<Rightarrow> 'b list \<Rightarrow> int \<Rightarrow> int \<Rightarrow> 'b list option" where
  "copy_to cap dst src i n = do {
     bytes \<leftarrow> region src i n;
     if int (length dst) + n \<le> cap then Some (dst @ bytes) else None
   }"

section \<open>The reader\<close>

text \<open>
  The state of the reader. \<open>rd_buffers\<close> are the addresses of the buffers that the session has allocated, and
  \<open>rd_received\<close> are the messages passed to the callback so far.
\<close>

record 'b TcpMessageReader =
  rd_queue :: "'b Buffer list"
  rd_offset :: int
  rd_remain :: int
  rd_buffers :: "nat list"
  rd_received :: "'b list list"

definition mk_TcpMessageReader :: "'b TcpMessageReader" where
  "mk_TcpMessageReader = \<lparr>rd_queue = [], rd_offset = 0, rd_remain = -1, rd_buffers = [], rd_received = []\<rparr>"

definition AllocateBuffer :: "nat \<Rightarrow> 'b TcpMessageReader \<Rightarrow> 'b TcpMessageReader" where
  "AllocateBuffer data s = s\<lparr>rd_buffers := rd_buffers s @ [data]\<rparr>"

definition ReleaseBuffer :: "'b Buffer \<Rightarrow> 'b TcpMessageReader \<Rightarrow> 'b TcpMessageReader option" where
  "ReleaseBuffer b s = (if bf_addr b \<in> set (rd_buffers s) then Some (s\<lparr>rd_buffers := remove1 (bf_addr b) (rd_buffers s)\<rparr>) else None)"

text \<open>The loop of \<open>AllocBufferSize\<close> doubles \<open>bufsize = 2 ^ k\<close>.\<close>

function AllocBufferSize_loop :: "int \<Rightarrow> int \<Rightarrow> nat \<Rightarrow> int" where
  "AllocBufferSize_loop kMaxMessageSize length' k =
     (if 2 ^ k < kMaxMessageSize \<and> 2 ^ k < length' then AllocBufferSize_loop kMaxMessageSize length' (Suc k) else 2 ^ k)"
  by pat_completeness auto
termination
  by (relation "measure (\<lambda>(m, n, k). nat (n - 2 ^ k))") auto

declare AllocBufferSize_loop.simps [simp del]

definition AllocBufferSize :: "int \<Rightarrow> int \<Rightarrow> int" where
  "AllocBufferSize kMaxMessageSize length' = (if length' = -1 then kMaxMessageSize else AllocBufferSize_loop kMaxMessageSize length' 8)"

text \<open>\<open>data\<close> is what has been copied so far to the array, which has \<open>cap\<close> bytes.\<close>

fun BufferConcat_loop :: "int \<Rightarrow> int \<Rightarrow> 'b list \<Rightarrow> 'b Buffer list \<Rightarrow> 'b TcpMessageReader \<Rightarrow> ('b list \<times> 'b TcpMessageReader) option" where
  "BufferConcat_loop cap msglength data [] s = Some (data, s)"
| "BufferConcat_loop cap msglength data (head # q) s = (let bytes = BufferSize head - rd_offset s in do {
     _ \<leftarrow> cpp_assert (int (length data) + bytes < msglength);
     data \<leftarrow> copy_to cap data (bf_data head) (rd_offset s) bytes;
     s \<leftarrow> ReleaseBuffer head (s\<lparr>rd_queue := q\<rparr>);
     BufferConcat_loop cap msglength data q (s\<lparr>rd_offset := 0, rd_remain := -1\<rparr>) })"

definition BufferConcat :: "int \<Rightarrow> 'b Buffer \<Rightarrow> int \<Rightarrow> 'b TcpMessageReader \<Rightarrow> ('b list \<times> 'b TcpMessageReader) option" where
  "BufferConcat cap buffer msglength s = do {
     (data, s) \<leftarrow> BufferConcat_loop cap msglength [] (rd_queue s) s;
     let count = msglength - int (length data);
     _ \<leftarrow> cpp_assert (int (length data) + count \<le> msglength);
     data \<leftarrow> copy_to cap data (bf_data buffer) 0 count;
     Some (data, s\<lparr>rd_offset := count\<rparr>) }"

fun QueueByteLength_loop :: "int \<Rightarrow> int \<Rightarrow> 'b Buffer list \<Rightarrow> int" where
  "QueueByteLength_loop offset acc [] = acc"
| "QueueByteLength_loop offset acc (b # q) =
     QueueByteLength_loop offset (if acc = 0 then BufferSize b - offset else acc + BufferSize b) q"

definition QueueByteLength :: "'b TcpMessageReader \<Rightarrow> int" where
  "QueueByteLength s = QueueByteLength_loop (rd_offset s) 0 (rd_queue s)"

text \<open>\<open>PullUp\<close> copies the first \<open>size\<close> bytes of the stream; its result is empty when there are fewer.\<close>

fun PullUp_loop :: "int \<Rightarrow> int \<Rightarrow> 'b list \<Rightarrow> 'b Buffer list \<Rightarrow> 'b list option" where
  "PullUp_loop size' first data [] = Some data"
| "PullUp_loop size' first data (b # q) = (let
     cp = (if data = [] then first else 0);
     avail = (if data = [] then BufferSize b - first else BufferSize b);
     remain = size' - int (length data);
     avail = min avail remain in do {
     _ \<leftarrow> cpp_assert (int (length data) + avail \<le> size');
     data \<leftarrow> copy_to size' data (bf_data b) cp avail;
     PullUp_loop size' first data q })"

definition PullUp :: "'b Buffer \<Rightarrow> int \<Rightarrow> 'b TcpMessageReader \<Rightarrow> 'b list option" where
  "PullUp buffer size' s = do {
     data \<leftarrow> PullUp_loop size' (rd_offset s) [] (rd_queue s);
     let avail = min (BufferSize buffer) (size' - int (length data));
     _ \<leftarrow> cpp_assert (int (length data) + avail \<le> size');
     data \<leftarrow> copy_to size' data (bf_data buffer) 0 avail;
     Some (if int (length data) < size' then [] else data) }"

text \<open>
  \<open>OnRead\<close>: the message that began in earlier buffers, then the messages in this buffer. The first result of the parts says
  whether the function returns. \<open>callback\<close> tells for a message whether it succeeds.
\<close>

definition OnRead_queue :: "('b list \<Rightarrow> int \<Rightarrow> int) \<Rightarrow> int \<Rightarrow> int \<Rightarrow> ('b list \<Rightarrow> bool) \<Rightarrow> 'b Buffer \<Rightarrow> 'b TcpMessageReader \<Rightarrow>
    (bool \<times> 'b TcpMessageReader) option" where
  "OnRead_queue MsgLength kHeaderLenSize kMaxMessageSize callback buffer s = (let sz = BufferSize buffer in do {
     (returned, msglength, s) \<leftarrow> (let msglength = MsgLength (bf_data (hd (rd_queue s))) (rd_offset s) in
       if msglength < 0 then let queuelen = QueueByteLength s in
         if queuelen + sz < kHeaderLenSize then Some (True, msglength, s\<lparr>rd_queue := rd_queue s @ [buffer]\<rparr>)
         else do {
           header \<leftarrow> PullUp buffer kHeaderLenSize s;
           _ \<leftarrow> cpp_assert (int (length header) = kHeaderLenSize);
           let msglength = MsgLength header 0;
           Some (False, msglength, s\<lparr>rd_remain := msglength - queuelen\<rparr>) }
       else Some (False, msglength, s));
     if returned then Some (True, s) else do {
       _ \<leftarrow> cpp_assert (rd_remain s > 0);
       if sz < rd_remain s then Some (True, s\<lparr>rd_queue := rd_queue s @ [buffer], rd_remain := rd_remain s - sz\<rparr>)
       else do {
         (data, s) \<leftarrow> BufferConcat (AllocBufferSize kMaxMessageSize msglength) buffer msglength s;
         _ \<leftarrow> cpp_assert (rd_remain s = -1);
         Some (\<not> callback data, s\<lparr>rd_received := rd_received s @ [data]\<rparr>) }}})"

partial_function (option) OnRead_loop :: "('b list \<Rightarrow> int \<Rightarrow> int) \<Rightarrow> ('b list \<Rightarrow> bool) \<Rightarrow> 'b Buffer \<Rightarrow> int \<Rightarrow> 'b TcpMessageReader \<Rightarrow>
    (bool \<times> int \<times> 'b TcpMessageReader) option" where
  "OnRead_loop MsgLength callback buffer avail s =
     (if avail > 0 then let msglength = MsgLength (bf_data buffer) (rd_offset s) in
        if msglength < 0 then Some (False, avail, s)
        else if msglength > avail then Some (False, avail, s\<lparr>rd_remain := msglength - avail\<rparr>)
        else do {
          msg \<leftarrow> region (bf_data buffer) (rd_offset s) msglength;
          let s = s\<lparr>rd_received := rd_received s @ [msg], rd_offset := rd_offset s + msglength\<rparr>;
          if \<not> callback msg then Some (True, avail - msglength, s)
          else OnRead_loop MsgLength callback buffer (avail - msglength) s }
      else Some (False, avail, s))"

definition OnRead :: "('b list \<Rightarrow> int \<Rightarrow> int) \<Rightarrow> int \<Rightarrow> int \<Rightarrow> ('b list \<Rightarrow> bool) \<Rightarrow> 'b Buffer \<Rightarrow> 'b TcpMessageReader \<Rightarrow> 'b TcpMessageReader option" where
  "OnRead MsgLength kHeaderLenSize kMaxMessageSize callback buffer s = do {
     (returned, s) \<leftarrow> (if rd_queue s \<noteq> [] then OnRead_queue MsgLength kHeaderLenSize kMaxMessageSize callback buffer s else Some (False, s));
     if returned then Some s else do {
       (returned, avail, s) \<leftarrow> OnRead_loop MsgLength callback buffer (BufferSize buffer - rd_offset s) s;
       if returned then Some s
       else if avail > 0 then Some (s\<lparr>rd_queue := rd_queue s @ [buffer]\<rparr>)
       else do {
         s \<leftarrow> ReleaseBuffer buffer s;
         let s = s\<lparr>rd_offset := 0\<rparr>;
         _ \<leftarrow> cpp_assert (rd_remain s = -1);
         Some s }}}"

text \<open>
  Reads of the session, one buffer after the other: \<open>AsyncReadHandler\<close> allocates a buffer at an address, reads some bytes and
  the task of the reader calls \<open>OnRead\<close>.
\<close>

fun reads :: "('b list \<Rightarrow> int \<Rightarrow> int) \<Rightarrow> int \<Rightarrow> int \<Rightarrow> ('b list \<Rightarrow> bool) \<Rightarrow> 'b Buffer list \<Rightarrow> 'b TcpMessageReader \<Rightarrow> 'b TcpMessageReader option" where
  "reads MsgLength kHeaderLenSize kMaxMessageSize callback [] s = Some s"
| "reads MsgLength kHeaderLenSize kMaxMessageSize callback (b # bs) s = do {
     s \<leftarrow> OnRead MsgLength kHeaderLenSize kMaxMessageSize callback b (AllocateBuffer (bf_addr b) s);
     reads MsgLength kHeaderLenSize kMaxMessageSize callback bs s }"

text \<open>The reader of src/io/test/tcp_server_test.cc: the length is the big-endian number in the bytes 16 and 17.\<close>

definition test_length :: "8 word list \<Rightarrow> nat" where
  "test_length h = unat (h ! 16) * 256 + unat (h ! 17)"

definition test_MsgLength :: "8 word list \<Rightarrow> int \<Rightarrow> int" where
  "test_MsgLength data offset = (if int (length data) - offset < 18 then -1 else int (test_length (drop (nat offset) data)))"

section \<open>The messages of a stream\<close>

text \<open>
  The reference: a message begins with a header of \<open>hl\<close> bytes that gives its length. \<open>frames\<close> cuts off the messages that are
  complete. A stream is well framed when the lengths in its headers are at least that of a header and at most the maximum.
\<close>

function frames :: "nat \<Rightarrow> ('b list \<Rightarrow> nat) \<Rightarrow> 'b list \<Rightarrow> 'b list list \<times> 'b list" where
  "frames hl len xs = (let n = len (take hl xs) in
     if length xs < hl \<or> length xs < n \<or> n = 0 then ([], xs)
     else case frames hl len (drop n xs) of (ms, rest) \<Rightarrow> (take n xs # ms, rest))"
  by pat_completeness auto
termination
  by (relation "measure (\<lambda>(h, l, xs). length xs)") auto

declare frames.simps [simp del]

function well_framed :: "nat \<Rightarrow> ('b list \<Rightarrow> nat) \<Rightarrow> nat \<Rightarrow> 'b list \<Rightarrow> bool" where
  "well_framed hl len mx xs = (let n = len (take hl xs) in
     length xs < hl \<or> (hl \<le> n \<and> n \<le> mx \<and> 0 < n \<and> (n \<le> length xs \<longrightarrow> 0 < n \<longrightarrow> well_framed hl len mx (drop n xs))))"
  by pat_completeness auto
termination
  by (relation "measure (\<lambda>(h, l, m, xs). length xs)") auto

declare well_framed.simps [simp del]

text \<open>What the reader relies on: \<open>MsgLength\<close> is negative when there is no full header, and otherwise the length in the header.\<close>

locale framing =
  fixes MsgLength :: "'b list \<Rightarrow> int \<Rightarrow> int" and hl :: nat and len :: "'b list \<Rightarrow> nat"
  assumes header_pos: "0 < hl"
    and MsgLength_short: "0 \<le> i \<Longrightarrow> i \<le> int (length xs) \<Longrightarrow> int (length xs) - i < int hl \<Longrightarrow> MsgLength xs i < 0"
    and MsgLength_header: "0 \<le> i \<Longrightarrow> int hl \<le> int (length xs) - i \<Longrightarrow> MsgLength xs i = int (len (take hl (drop (nat i) xs)))"

interpretation test_reader: framing test_MsgLength 18 test_length
  by unfold_locales (auto simp: test_MsgLength_def test_length_def)

text \<open>The stream may be cut anywhere.\<close>

lemma frames_append:
  "well_framed hl len mx (xs @ ys) \<Longrightarrow> 0 < hl \<Longrightarrow>
     frames hl len (xs @ ys) = (case frames hl len xs of (ms, rest) \<Rightarrow> case frames hl len (rest @ ys) of (ms', rest') \<Rightarrow> (ms @ ms', rest'))"
proof (induction "length xs" arbitrary: xs rule: less_induct)
  case less
  define n where "n = len (take hl xs)"
  show ?case
  proof (cases "length xs < hl \<or> length xs < n \<or> n = 0")
    case True
    then have "frames hl len xs = ([], xs)" by (simp add: frames.simps [of hl len xs] Let_def n_def)
    then show ?thesis by (simp split: prod.splits)
  next
    case False
    then have t: "take hl (xs @ ys) = take hl xs" "hl \<le> length xs" "n \<le> length xs" "0 < n" by auto
    have w: "well_framed hl len mx (drop n xs @ ys)"
      using less.prems(1) t False unfolding well_framed.simps [of hl len mx "xs @ ys"] Let_def t(1) n_def [symmetric] by simp
    have "frames hl len (xs @ ys) = (case frames hl len (drop n xs @ ys) of (ms, rest) \<Rightarrow> (take n xs # ms, rest))"
      using t unfolding frames.simps [of hl len "xs @ ys"] Let_def t(1) n_def [symmetric] by simp
    moreover have "frames hl len xs = (case frames hl len (drop n xs) of (ms, rest) \<Rightarrow> (take n xs # ms, rest))"
      using False unfolding frames.simps [of hl len xs] Let_def n_def [symmetric] by simp
    moreover have "length (drop n xs) < length xs" using t by simp
    ultimately show ?thesis using less.hyps [OF _ w less.prems(2)] by (simp split: prod.splits)
  qed
qed

lemma well_framed_append:
  "well_framed hl len mx (xs @ ys) \<Longrightarrow> frames hl len xs = (ms, rest) \<Longrightarrow> well_framed hl len mx (rest @ ys)"
proof (induction "length xs" arbitrary: xs ms rule: less_induct)
  case less
  define n where "n = len (take hl xs)"
  show ?case
  proof (cases "length xs < hl \<or> length xs < n \<or> n = 0")
    case True
    then have "frames hl len xs = ([], xs)" by (simp add: frames.simps [of hl len xs] Let_def n_def)
    then show ?thesis using less.prems by simp
  next
    case False
    then have t: "take hl (xs @ ys) = take hl xs" "hl \<le> length xs" "n \<le> length xs" "0 < n" by auto
    have w: "well_framed hl len mx (drop n xs @ ys)"
      using less.prems(1) t False unfolding well_framed.simps [of hl len mx "xs @ ys"] Let_def t(1) n_def [symmetric] by simp
    have "frames hl len xs = (case frames hl len (drop n xs) of (ms, rest) \<Rightarrow> (take n xs # ms, rest))"
      using False unfolding frames.simps [of hl len xs] Let_def n_def [symmetric] by simp
    then obtain ms' where "frames hl len (drop n xs) = (ms', rest)" using less.prems(2) by (auto split: prod.splits)
    moreover have "length (drop n xs) < length xs" using t by simp
    ultimately show ?thesis using less.hyps [OF _ w] by blast
  qed
qed

lemma well_framed_prefix: "well_framed hl len mx (xs @ ys) \<Longrightarrow> well_framed hl len mx xs"
proof (induction "length xs" arbitrary: xs rule: less_induct)
  case less
  define n where "n = len (take hl xs)"
  show ?case
  proof (cases "length xs < hl")
    case True
    then show ?thesis by (simp add: well_framed.simps [of hl len mx xs] Let_def)
  next
    case False
    then have t: "take hl (xs @ ys) = take hl xs" by simp
    have n: "hl \<le> n" "n \<le> mx" "0 < n" and d: "n \<le> length xs \<Longrightarrow> well_framed hl len mx (drop n xs @ ys)"
      using less.prems False unfolding well_framed.simps [of hl len mx "xs @ ys"] Let_def t n_def [symmetric] by auto
    have "well_framed hl len mx (drop n xs)" if "n \<le> length xs"
      by (rule less.hyps [OF _ d [OF that]]) (use n that in simp)
    then show ?thesis using n unfolding well_framed.simps [of hl len mx xs] Let_def n_def [symmetric] by simp
  qed
qed

lemma well_framed_header:
  assumes "well_framed hl len mx xs" "hl \<le> length xs"
  shows "hl \<le> len (take hl xs)" "len (take hl xs) \<le> mx" "0 < len (take hl xs)"
    "len (take hl xs) \<le> length xs \<Longrightarrow> well_framed hl len mx (drop (len (take hl xs)) xs)"
  using assms by (auto simp: well_framed.simps [of hl len mx xs] Let_def)

section \<open>The reader and the reference\<close>

text \<open>The bytes in the queue that do not belong to a message passed on.\<close>

definition unread :: "'b TcpMessageReader \<Rightarrow> 'b list" where
  "unread s = drop (nat (rd_offset s)) (concat (map bf_data (rd_queue s)))"

text \<open>The queue begins with a message that is not complete; \<open>remain_\<close> is right once the first buffer has the header.\<close>

definition reader_ok :: "nat \<Rightarrow> ('b list \<Rightarrow> nat) \<Rightarrow> 'b TcpMessageReader \<Rightarrow> bool" where
  "reader_ok hl len s = (rd_buffers s = map bf_addr (rd_queue s) \<and> distinct (rd_buffers s) \<and>
     (case rd_queue s of
        [] \<Rightarrow> rd_offset s = 0 \<and> rd_remain s = -1
      | b # q \<Rightarrow> 0 \<le> rd_offset s \<and> rd_offset s < BufferSize b \<and> frames hl len (unread s) = ([], unread s) \<and>
          (int hl \<le> BufferSize b - rd_offset s \<longrightarrow> rd_remain s = int (len (take hl (unread s))) - int (length (unread s)))))"

lemma reader_ok_Cons:
  assumes "reader_ok hl len s" "rd_queue s = b # q"
  shows "0 \<le> rd_offset s" "rd_offset s < BufferSize b" "frames hl len (unread s) = ([], unread s)"
    "int hl \<le> BufferSize b - rd_offset s \<Longrightarrow> rd_remain s = int (len (take hl (unread s))) - int (length (unread s))"
    "unread s = drop (nat (rd_offset s)) (bf_data b) @ concat (map bf_data q)" "unread s \<noteq> []"
    "rd_buffers s = bf_addr b # map bf_addr q" "distinct (rd_buffers s)"
proof -
  show a: "0 \<le> rd_offset s" "rd_offset s < BufferSize b" "frames hl len (unread s) = ([], unread s)"
    "int hl \<le> BufferSize b - rd_offset s \<Longrightarrow> rd_remain s = int (len (take hl (unread s))) - int (length (unread s))"
    "rd_buffers s = bf_addr b # map bf_addr q" "distinct (rd_buffers s)"
    using assms(1) unfolding reader_ok_def assms(2) list.case list.map by blast+
  show u: "unread s = drop (nat (rd_offset s)) (bf_data b) @ concat (map bf_data q)"
    using a(1,2) assms(2) by (simp add: unread_def)
  show "unread s \<noteq> []" unfolding u using a(1,2) by auto
qed

lemma frames_incomplete:
  assumes "well_framed hl len mx (xs @ ys)" "frames hl len xs = ([], xs)" "hl \<le> length xs" "0 < hl"
  shows "length xs < len (take hl xs)"
proof -
  have "take hl (xs @ ys) = take hl xs" using assms(3) by simp
  then have "0 < len (take hl xs)" using well_framed_header(3) [OF assms(1)] assms(3) by simp
  then show ?thesis using assms(2,3) by (auto simp: frames.simps [of hl len xs] Let_def split: if_splits prod.splits)
qed

lemma AllocBufferSize_loop_ge: "n \<le> m \<Longrightarrow> n \<le> AllocBufferSize_loop m n k"
proof (induction m n k rule: AllocBufferSize_loop.induct)
  case (1 m n k)
  then show ?case by (cases "2 ^ k < m \<and> 2 ^ k < n") (auto simp: AllocBufferSize_loop.simps [of m n k])
qed

lemma AllocBufferSize_ge: "n \<le> m \<Longrightarrow> n \<noteq> -1 \<Longrightarrow> n \<le> AllocBufferSize m n"
  by (simp add: AllocBufferSize_def AllocBufferSize_loop_ge)

lemma QueueByteLength_loop_pos:
  "0 < acc \<Longrightarrow> QueueByteLength_loop i acc q = acc + int (length (concat (map bf_data q)))"
  by (induction i acc q rule: QueueByteLength_loop.induct) auto

lemma QueueByteLength_unread:
  assumes "reader_ok hl len s" "rd_queue s = b # q"
  shows "QueueByteLength s = int (length (unread s))"
proof -
  note o = reader_ok_Cons [OF assms]
  have "0 < BufferSize b - rd_offset s" using o(2) by simp
  then show ?thesis using QueueByteLength_loop_pos [of "BufferSize b - rd_offset s" "rd_offset s" q] o(1,2) assms(2)
    by (simp add: QueueByteLength_def o(5) of_nat_diff nat_less_iff)
qed

lemma copy_to_Some:
  assumes "0 \<le> i" "0 \<le> n" "i + n \<le> int (length src)" "int (length dst) + n \<le> cap"
  shows "copy_to cap dst src i n = Some (dst @ take (nat n) (drop (nat i) src))"
  using assms by (simp add: copy_to_def region_def)

lemma PullUp_loop_rest:
  "data \<noteq> [] \<Longrightarrow> length data \<le> n \<Longrightarrow> PullUp_loop (int n) i data q = Some (take n (data @ concat (map bf_data q)))"
proof (induction "int n" i data q rule: PullUp_loop.induct)
  case (2 i data b q)
  define m where "m = min (length (bf_data b)) (n - length data)"
  have m: "min (BufferSize b) (int n - int (length data)) = int m" using "2.prems" by (auto simp: m_def min_def)
  have c: "copy_to (int n) data (bf_data b) 0 (int m) = Some (data @ take m (bf_data b))"
    using "2.prems" by (subst copy_to_Some) (auto simp: m_def)
  have l: "length data + m \<le> n" using "2.prems" by (auto simp: m_def)
  have "PullUp_loop (int n) i (data @ take m (bf_data b)) q = Some (take n ((data @ take m (bf_data b)) @ concat (map bf_data q)))"
    using "2.hyps" [OF refl refl refl refl, of "()" "data @ take m (bf_data b)"] "2.prems" m c l by (simp add: Let_def m_def)
  moreover have "take n ((data @ take m (bf_data b)) @ concat (map bf_data q)) = take n (data @ bf_data b @ concat (map bf_data q))"
    by (cases "length (bf_data b) \<le> n - length data") (auto simp: m_def min_def)
  ultimately show ?case using "2.prems"(1) m c l by (simp add: Let_def)
qed simp

lemma PullUp_unread:
  assumes "reader_ok hl len s" "rd_queue s = b # q" "n \<le> length (unread s @ bf_data buffer)" "0 < n"
  shows "PullUp buffer (int n) s = Some (take n (unread s @ bf_data buffer))"
proof -
  note o = reader_ok_Cons [OF assms(1,2)]
  define d where "d = take n (drop (nat (rd_offset s)) (bf_data b))"
  have d: "d \<noteq> []" "length d \<le> n" using o(1,2) assms(4) by (auto simp: d_def)
  define m where "m = min (length (bf_data b) - nat (rd_offset s)) n"
  have m: "min (BufferSize b - rd_offset s) (int n) = int m" using o(1,2) by (auto simp: m_def min_def)
  have "copy_to (int n) [] (bf_data b) (rd_offset s) (int m) = Some d"
    using o(1,2) by (subst copy_to_Some) (auto simp: m_def d_def min_def)
  then have "PullUp_loop (int n) (rd_offset s) [] (b # q) = PullUp_loop (int n) (rd_offset s) d q"
    using m by (simp add: Let_def m_def)
  also have "\<dots> = Some (take n (d @ concat (map bf_data q)))" by (rule PullUp_loop_rest [OF d])
  also have "take n (d @ concat (map bf_data q)) = take n (unread s)" unfolding o(5) d_def by (auto simp: min_def)
  finally have p: "PullUp_loop (int n) (rd_offset s) [] (rd_queue s) = Some (take n (unread s))" using assms(2) by simp
  define k where "k = min (length (bf_data buffer)) (n - length (unread s))"
  have k: "min (BufferSize buffer) (int n - int (length (take n (unread s)))) = int k" by (auto simp: k_def min_def)
  have c: "copy_to (int n) (take n (unread s)) (bf_data buffer) 0 (int k) = Some (take n (unread s) @ take k (bf_data buffer))"
    by (subst copy_to_Some) (auto simp: k_def min_def)
  have t: "take n (unread s) @ take k (bf_data buffer) = take n (unread s @ bf_data buffer)" using assms(3) by (auto simp: k_def min_def)
  have l: "int (length (take n (unread s))) + int k \<le> int n" by (auto simp: k_def min_def)
  define w where "w = take n (unread s @ bf_data buffer)"
  have "length w = n" using assms(3) by (simp add: w_def)
  moreover have "copy_to (int n) (take n (unread s)) (bf_data buffer) 0 (int k) = Some w" unfolding c t w_def ..
  ultimately show ?thesis unfolding PullUp_def p bind.bind_lunit Let_def k w_def [symmetric] using l by simp
qed

text \<open>The queue is copied and its buffers are released.\<close>

lemma BufferConcat_loop_rest:
  "rd_offset s = 0 \<Longrightarrow> rd_remain s = -1 \<Longrightarrow> rd_queue s = q \<Longrightarrow> rd_buffers s = map bf_addr q @ as \<Longrightarrow>
     int (length (data @ concat (map bf_data q))) < n \<Longrightarrow> n \<le> cap \<Longrightarrow>
     BufferConcat_loop cap n data q s = Some (data @ concat (map bf_data q), s\<lparr>rd_queue := [], rd_buffers := as\<rparr>)"
proof (induction q arbitrary: data s)
  case (Cons h q)
  have c: "copy_to cap data (bf_data h) 0 (BufferSize h) = Some (data @ bf_data h)"
    using Cons.prems(5,6) by (subst copy_to_Some) auto
  have r: "ReleaseBuffer h (s\<lparr>rd_queue := q\<rparr>) = Some (s\<lparr>rd_queue := q, rd_buffers := map bf_addr q @ as\<rparr>)"
    using Cons.prems(4) by (simp add: ReleaseBuffer_def)
  define s' where "s' = s\<lparr>rd_queue := q, rd_buffers := map bf_addr q @ as, rd_offset := 0, rd_remain := -1\<rparr>"
  have "BufferConcat_loop cap n (data @ bf_data h) q s' = Some ((data @ bf_data h) @ concat (map bf_data q), s'\<lparr>rd_queue := [], rd_buffers := as\<rparr>)"
    by (rule Cons.IH) (use Cons.prems in \<open>simp_all add: s'_def\<close>)
  moreover have "s'\<lparr>rd_queue := [], rd_buffers := as\<rparr> = s\<lparr>rd_queue := [], rd_buffers := as\<rparr>" using Cons.prems(1,2) by (simp add: s'_def)
  moreover have "int (length data) + BufferSize h < n" using Cons.prems(5) by simp
  ultimately show ?case using c r Cons.prems(1) by (simp add: s'_def)
qed simp

lemma BufferConcat_unread:
  assumes ok: "reader_ok hl len s" "rd_queue s = b # q" and n: "length (unread s) < n" "n \<le> length (unread s @ bf_data buffer)" "int n \<le> cap"
  shows "BufferConcat cap buffer (int n) (s\<lparr>rd_buffers := rd_buffers s @ as, rd_remain := x\<rparr>) =
    Some (take n (unread s @ bf_data buffer), s\<lparr>rd_queue := [], rd_offset := int n - int (length (unread s)), rd_remain := -1, rd_buffers := as\<rparr>)"
proof -
  note o = reader_ok_Cons [OF ok]
  define s0 where "s0 = s\<lparr>rd_buffers := rd_buffers s @ as, rd_remain := x\<rparr>"
  define d where "d = drop (nat (rd_offset s)) (bf_data b)"
  have ld: "int (length d) = BufferSize b - rd_offset s" using o(1,2) by (simp add: d_def of_nat_diff)
  have u: "unread s = d @ concat (map bf_data q)" using o(5) by (simp add: d_def)
  have c: "copy_to cap [] (bf_data b) (rd_offset s) (BufferSize b - rd_offset s) = Some d"
    using o(1,2) n ld u by (subst copy_to_Some) (auto simp: d_def nat_diff_distrib)
  have r: "ReleaseBuffer b (s0\<lparr>rd_queue := q\<rparr>) = Some (s0\<lparr>rd_queue := q, rd_buffers := map bf_addr q @ as\<rparr>)"
    using o(7) by (simp add: ReleaseBuffer_def s0_def)
  define s1 where "s1 = s0\<lparr>rd_queue := q, rd_buffers := map bf_addr q @ as, rd_offset := 0, rd_remain := -1\<rparr>"
  have "BufferConcat_loop cap (int n) d q s1 = Some (d @ concat (map bf_data q), s1\<lparr>rd_queue := [], rd_buffers := as\<rparr>)"
    by (rule BufferConcat_loop_rest) (use n u in \<open>simp_all add: s1_def\<close>)
  moreover have "int (length d) < int n" using n(1) u by simp
  ultimately have l: "BufferConcat_loop cap (int n) [] (b # q) s0 = Some (unread s, s1\<lparr>rd_queue := [], rd_buffers := as\<rparr>)"
    using c r ld u by (simp add: s0_def s1_def)
  have "copy_to cap (unread s) (bf_data buffer) 0 (int n - int (length (unread s))) = Some (unread s @ take (n - length (unread s)) (bf_data buffer))"
    using n by (subst copy_to_Some) (auto simp: nat_diff_distrib)
  moreover have "unread s @ take (n - length (unread s)) (bf_data buffer) = take n (unread s @ bf_data buffer)" using n(1) by simp
  moreover have "s1\<lparr>rd_queue := [], rd_buffers := as, rd_offset := int n - int (length (unread s))\<rparr> =
      s\<lparr>rd_queue := [], rd_offset := int n - int (length (unread s)), rd_remain := -1, rd_buffers := as\<rparr>" by (simp add: s1_def s0_def)
  moreover have "rd_queue s0 = b # q" using ok(2) by (simp add: s0_def)
  ultimately show ?thesis using l unfolding BufferConcat_def s0_def [symmetric] by (simp add: Let_def)
qed

context framing
begin

text \<open>The loop over the messages in one buffer.\<close>

lemma OnRead_loop_frames:
  assumes "\<And>m. callback m" "well_framed hl len mx (drop i (bf_data b))" "i \<le> length (bf_data b)" "rd_offset s = int i"
    "frames hl len (drop i (bf_data b)) = (ms, rest)"
  shows "OnRead_loop MsgLength callback b (int (length (bf_data b) - i)) s =
    Some (False, int (length rest), s\<lparr>rd_received := rd_received s @ ms, rd_offset := int (length (bf_data b) - length rest),
      rd_remain := (if hl \<le> length rest then int (len (take hl rest)) - int (length rest) else rd_remain s)\<rparr>) \<and> length rest \<le> length (bf_data b) - i \<and>
    rest = drop (length (bf_data b) - length rest) (bf_data b)"
  using assms(2-)
proof (induction "length (bf_data b) - i" arbitrary: i s ms rule: less_induct)
  case less
  define xs where "xs = drop i (bf_data b)"
  define n where "n = len (take hl xs)"
  have lx: "length xs = length (bf_data b) - i" by (simp add: xs_def)
  have e: "hl \<le> length xs \<Longrightarrow> MsgLength (bf_data b) (rd_offset s) = int n"
    using MsgLength_header [of "int i" "bf_data b"] less.prems(2,3) lx by (simp add: n_def xs_def)
  have sh: "length xs < hl \<Longrightarrow> MsgLength (bf_data b) (rd_offset s) < 0"
    using MsgLength_short [of "int i" "bf_data b"] less.prems(2,3) lx by simp
  note lp = OnRead_loop.simps [of MsgLength callback b "int (length (bf_data b) - i)" s]
  have np: "hl \<le> length xs \<Longrightarrow> 0 < n" using well_framed_header(3) [OF less.prems(1) [folded xs_def]] by (simp add: n_def)
  consider (short) "length xs < hl" | (cut) "hl \<le> length xs" "length xs < n" | (full) "hl \<le> length xs" "n \<le> length xs" by linarith
  then show ?case
  proof cases
    case short
    then have "frames hl len xs = ([], xs)" by (simp add: frames.simps [of hl len xs] Let_def)
    then have "ms = []" "rest = xs" using less.prems(4) by (simp_all add: xs_def)
    then show ?thesis using short sh lx less.prems(2,3) unfolding lp by (cases "xs = []") (auto simp: Let_def xs_def)
  next
    case cut
    then have "frames hl len xs = ([], xs)" by (simp add: frames.simps [of hl len xs] Let_def n_def)
    then have "ms = []" "rest = xs" using less.prems(4) by (simp_all add: xs_def)
    then show ?thesis using cut e lx less.prems(2,3) header_pos unfolding lp by (auto simp: Let_def xs_def n_def of_nat_diff)
  next
    case full
    obtain ms' where ms: "frames hl len (drop (i + n) (bf_data b)) = (ms', rest)" "ms = take n xs # ms'"
      using less.prems(4) full np unfolding xs_def [symmetric] frames.simps [of hl len xs] Let_def n_def [symmetric]
      by (auto simp: xs_def add.commute split: prod.splits)
    have w: "well_framed hl len mx (drop (i + n) (bf_data b))"
      using well_framed_header(4) [OF less.prems(1) [folded xs_def] full(1)] full(2) by (simp add: n_def xs_def add.commute)
    define s' where "s' = s\<lparr>rd_received := rd_received s @ [take n xs], rd_offset := int (i + n)\<rparr>"
    have g: "region (bf_data b) (rd_offset s) (int n) = Some (take n xs)"
      using full(2) lx less.prems(2,3) by (auto simp: region_def xs_def)
    have "OnRead_loop MsgLength callback b (int (length (bf_data b) - i)) s = OnRead_loop MsgLength callback b (int (length (bf_data b) - (i + n))) s'"
      unfolding lp using e full np lx g assms(1) header_pos less.prems(3) by (auto simp: Let_def s'_def of_nat_diff algebra_simps)
    moreover have "length (bf_data b) - (i + n) < length (bf_data b) - i" using np full lx header_pos by linarith
    ultimately show ?thesis
      using less.hyps [of "i + n" s', OF _ w _ _ ms(1)] full lx ms(2) less.prems(2) by (simp add: s'_def) linarith
  qed
qed

end

lemma frames_rest: "frames hl len xs = (ms, rest) \<Longrightarrow> frames hl len rest = ([], rest)"
proof (induction "length xs" arbitrary: xs ms rule: less_induct)
  case less
  define n where "n = len (take hl xs)"
  show ?case
  proof (cases "length xs < hl \<or> length xs < n \<or> n = 0")
    case True
    then have "frames hl len xs = ([], xs)" by (simp add: frames.simps [of hl len xs] Let_def n_def)
    then show ?thesis using less.prems by simp
  next
    case False
    then have "frames hl len xs = (case frames hl len (drop n xs) of (ms, rest) \<Rightarrow> (take n xs # ms, rest))"
      unfolding frames.simps [of hl len xs] Let_def n_def [symmetric] by simp
    then obtain ms' where "frames hl len (drop n xs) = (ms', rest)" using less.prems by (auto split: prod.splits)
    then show ?thesis using less.hyps [of "drop n xs" ms'] False by auto
  qed
qed

text \<open>A queue with one buffer more and still no complete message.\<close>

lemma reader_ok_push:
  assumes ok: "reader_ok hl len s" "rd_queue s = b # q" and a: "a \<notin> set (rd_buffers s)" "bf_addr c = a"
    and f: "frames hl len (unread s @ bf_data c) = ([], unread s @ bf_data c)"
    and x: "int hl \<le> BufferSize b - rd_offset s \<Longrightarrow> x = rd_remain s - BufferSize c"
  shows "reader_ok hl len (s\<lparr>rd_buffers := rd_buffers s @ [a], rd_queue := rd_queue s @ [c], rd_remain := x\<rparr>)"
    "unread (s\<lparr>rd_buffers := rd_buffers s @ [a], rd_queue := rd_queue s @ [c], rd_remain := x\<rparr>) = unread s @ bf_data c"
proof -
  let ?s = "s\<lparr>rd_buffers := rd_buffers s @ [a], rd_queue := rd_queue s @ [c], rd_remain := x\<rparr>"
  note o = reader_ok_Cons [OF ok]
  show u: "unread ?s = unread s @ bf_data c" using o(1,2,5) ok(2) by (simp add: unread_def)
  have "take hl (unread s @ bf_data c) = take hl (unread s)" if "int hl \<le> BufferSize b - rd_offset s"
    using that o(1,2) unfolding o(5) by simp
  then show "reader_ok hl len ?s"
    unfolding reader_ok_def u using o ok(2) a f x by simp
qed

context framing
begin

text \<open>The rest of \<open>OnRead\<close> when the queue is empty: \<open>i\<close> bytes of the buffer belong to the message before.\<close>

lemma OnRead_rest:
  assumes "\<And>m. callback m" "well_framed hl len mx (drop i (bf_data b))" "i \<le> length (bf_data b)" "rd_offset s = int i" "rd_remain s = -1"
    "rd_queue s = []" "rd_buffers s = [bf_addr b]" "frames hl len (drop i (bf_data b)) = (ms, rest)"
  shows "\<exists>s'. do { (returned, avail, s) \<leftarrow> OnRead_loop MsgLength callback b (BufferSize b - rd_offset s) s;
       if returned then Some s
       else if avail > 0 then Some (s\<lparr>rd_queue := rd_queue s @ [b]\<rparr>)
       else do {
         s \<leftarrow> ReleaseBuffer b s;
         let s = s\<lparr>rd_offset := 0\<rparr>;
         _ \<leftarrow> cpp_assert (rd_remain s = -1);
         Some s }} = Some s' \<and> reader_ok hl len s' \<and> rd_received s' = rd_received s @ ms \<and> unread s' = rest \<and> set (rd_buffers s') \<subseteq> {bf_addr b}"
proof -
  define s1 where "s1 = s\<lparr>rd_received := rd_received s @ ms, rd_offset := int (length (bf_data b) - length rest),
      rd_remain := (if hl \<le> length rest then int (len (take hl rest)) - int (length rest) else rd_remain s)\<rparr>"
  have l: "OnRead_loop MsgLength callback b (BufferSize b - rd_offset s) s = Some (False, int (length rest), s1)"
    and r: "length rest \<le> length (bf_data b) - i" "rest = drop (length (bf_data b) - length rest) (bf_data b)"
    using OnRead_loop_frames [OF assms(1-4,8)] assms(3,4) by (simp_all add: s1_def of_nat_diff)
  show ?thesis
  proof (cases "rest = []")
    case True
    define s2 where "s2 = s1\<lparr>rd_buffers := [], rd_offset := 0\<rparr>"
    have "ReleaseBuffer b s1 = Some (s1\<lparr>rd_buffers := []\<rparr>)" using assms(7) by (simp add: ReleaseBuffer_def s1_def)
    moreover have "rd_remain s2 = -1" using True header_pos assms(5) by (simp add: s2_def s1_def)
    moreover have "reader_ok hl len s2" "unread s2 = []" "rd_received s2 = rd_received s @ ms" "rd_buffers s2 = []"
      using True header_pos assms(5,6) by (simp_all add: reader_ok_def s2_def s1_def unread_def)
    ultimately show ?thesis unfolding l using True by (intro exI [of _ s2]) (simp add: s2_def Let_def)
  next
    case False
    define s2 where "s2 = s1\<lparr>rd_queue := [b]\<rparr>"
    have u: "unread s2 = rest" using r(2) by (simp add: unread_def s2_def s1_def)
    have "reader_ok hl len s2"
      unfolding reader_ok_def u using False assms(7) r(1) frames_rest [OF assms(8)] by (simp add: s2_def s1_def of_nat_diff)
    then show ?thesis unfolding l using False u assms(6,7) by (intro exI [of _ s2]) (simp add: s2_def s1_def)
  qed
qed

text \<open>When there is a full header, \<open>OnRead\<close> knows the length of the message and how much of it is missing.\<close>

lemma OnRead_queue_long:
  fixes c :: "'b Buffer" and s :: "'b TcpMessageReader"
  assumes ok: "reader_ok hl len s" and Cons: "rd_queue s = b # q" and long: "hl \<le> length (unread s @ bf_data c)"
  defines "n \<equiv> len (take hl (unread s @ bf_data c))"
  defines "s1 \<equiv> (AllocateBuffer (bf_addr c) s)\<lparr>rd_remain := int n - int (length (unread s))\<rparr>"
  shows "OnRead_queue MsgLength (int hl) mx callback c (AllocateBuffer (bf_addr c) s) = do {
       _ \<leftarrow> cpp_assert (rd_remain s1 > 0);
       if BufferSize c < rd_remain s1 then Some (True, s1\<lparr>rd_queue := rd_queue s1 @ [c], rd_remain := rd_remain s1 - BufferSize c\<rparr>)
       else do {
         (data, s) \<leftarrow> BufferConcat (AllocBufferSize mx (int n)) c (int n) s1;
         _ \<leftarrow> cpp_assert (rd_remain s = -1);
         Some (\<not> callback data, s\<lparr>rd_received := rd_received s @ [data]\<rparr>) }}"
    "int hl \<le> BufferSize b - rd_offset s \<Longrightarrow> rd_remain s1 = rd_remain s"
proof -
  note o = reader_ok_Cons [OF ok Cons]
  define u where "u = unread s"
  define s0 where "s0 = AllocateBuffer (bf_addr c) s"
  define hb where "hb \<longleftrightarrow> int hl \<le> BufferSize b - rd_offset s"
  have ml: "MsgLength (bf_data b) (rd_offset s) = int n" "rd_remain s = int n - int (length u)" if hb
  proof -
    have t: "take hl (u @ bf_data c) = take hl (drop (nat (rd_offset s)) (bf_data b))" "take hl (u @ bf_data c) = take hl u"
      using that o(1,2) unfolding u_def o(5) hb_def by simp_all
    show "MsgLength (bf_data b) (rd_offset s) = int n" using MsgLength_header [OF o(1)] that t(1) by (simp add: hb_def n_def u_def)
    show "rd_remain s = int n - int (length u)" using o(4) that t(2) unfolding n_def u_def [symmetric] t(2) by (simp add: hb_def)
  qed
  have sh: "MsgLength (bf_data b) (rd_offset s) < 0" if "\<not> hb" using MsgLength_short [OF o(1)] o(2) that by (simp add: hb_def)
  have q: "QueueByteLength s0 = int (length u)" using QueueByteLength_unread [OF ok Cons] by (simp add: QueueByteLength_def s0_def AllocateBuffer_def u_def)
  have s0: "rd_queue s0 = b # q" "rd_offset s0 = rd_offset s" "rd_remain s0 = rd_remain s" using Cons by (simp_all add: s0_def AllocateBuffer_def)
  have pu: "PullUp c (int hl) s0 = Some (take hl (u @ bf_data c))"
    using PullUp_unread [OF ok Cons long header_pos] by (simp add: PullUp_def s0_def AllocateBuffer_def u_def)
  define h where "h = take hl (u @ bf_data c)"
  have lh: "length h = hl" using long by (simp add: h_def u_def)
  then have mh: "MsgLength (take hl (u @ bf_data c)) 0 = int n"
    using MsgLength_header [of 0 h] unfolding n_def u_def [symmetric] h_def [symmetric] by simp
  have head: "(let msglength = MsgLength (bf_data (hd (rd_queue s0))) (rd_offset s0) in
     if msglength < 0 then let queuelen = QueueByteLength s0 in
       if queuelen + BufferSize c < int hl then Some (True, msglength, s0\<lparr>rd_queue := rd_queue s0 @ [c]\<rparr>)
       else do {
         header \<leftarrow> PullUp c (int hl) s0;
         _ \<leftarrow> cpp_assert (int (length header) = int hl);
         let msglength = MsgLength header 0;
         Some (False, msglength, s0\<lparr>rd_remain := msglength - queuelen\<rparr>) }
     else Some (False, msglength, s0)) = Some (False, int n, s1)"
  proof (cases hb)
    case True
    then have "s1 = s0" using ml(2) s0(3) by (simp add: s1_def s0_def u_def)
    then show ?thesis using ml(1) [OF True] s0 by simp
  next
    case False
    have "\<not> int (length u) + BufferSize c < int hl" using long by (simp add: u_def)
    then show ?thesis using sh [OF False] s0 q pu mh lh unfolding Let_def h_def [symmetric] by (simp add: s1_def s0_def u_def)
  qed
  show "OnRead_queue MsgLength (int hl) mx callback c (AllocateBuffer (bf_addr c) s) = do {
       _ \<leftarrow> cpp_assert (rd_remain s1 > 0);
       if BufferSize c < rd_remain s1 then Some (True, s1\<lparr>rd_queue := rd_queue s1 @ [c], rd_remain := rd_remain s1 - BufferSize c\<rparr>)
       else do {
         (data, s) \<leftarrow> BufferConcat (AllocBufferSize mx (int n)) c (int n) s1;
         _ \<leftarrow> cpp_assert (rd_remain s = -1);
         Some (\<not> callback data, s\<lparr>rd_received := rd_received s @ [data]\<rparr>) }}"
    unfolding OnRead_queue_def s0_def [symmetric] Let_def [of "BufferSize c"] head by simp
  show "int hl \<le> BufferSize b - rd_offset s \<Longrightarrow> rd_remain s1 = rd_remain s" using ml(2) by (simp add: hb_def s1_def u_def)
qed

text \<open>One call of \<open>OnRead\<close> cuts off the messages of the unread bytes and the new ones.\<close>

lemma OnRead_frames:
  assumes cb: "\<And>m. callback m" and w: "well_framed hl len mx (unread s @ bf_data c)" and ok: "reader_ok hl len s"
    and a: "bf_addr c \<notin> set (rd_buffers s)" and f: "frames hl len (unread s @ bf_data c) = (ms, rest)"
  shows "\<exists>s'. OnRead MsgLength (int hl) (int mx) callback c (AllocateBuffer (bf_addr c) s) = Some s' \<and> reader_ok hl len s' \<and>
    rd_received s' = rd_received s @ ms \<and> unread s' = rest \<and> set (rd_buffers s') \<subseteq> insert (bf_addr c) (set (rd_buffers s))"
proof (cases "rd_queue s")
  case Nil
  then have z: "unread s = []" "rd_offset s = 0" "rd_remain s = -1" "rd_buffers s = []" using ok by (simp_all add: unread_def reader_ok_def)
  show ?thesis
    using OnRead_rest [of callback mx 0 c "AllocateBuffer (bf_addr c) s" ms rest] cb w f z Nil by (simp add: OnRead_def AllocateBuffer_def)
next
  case (Cons b q)
  note o = reader_ok_Cons [OF ok Cons]
  define u where "u = unread s"
  define s0 where "s0 = AllocateBuffer (bf_addr c) s"
  define n where "n = len (take hl (u @ bf_data c))"
  have s0: "rd_queue s0 = b # q" "rd_offset s0 = rd_offset s" "rd_remain s0 = rd_remain s" using Cons by (simp_all add: s0_def AllocateBuffer_def)
  show ?thesis
  proof (cases "length (u @ bf_data c) < hl")
    case short: True
    have lu: "BufferSize b - rd_offset s \<le> int (length u)" unfolding u_def o(5) using o(1,2) by (simp add: nat_diff_distrib)
    then have nb: "\<not> int hl \<le> BufferSize b - rd_offset s" using short by auto
    have sh: "MsgLength (bf_data b) (rd_offset s) < 0" using MsgLength_short [OF o(1)] o(2) nb by simp
    have q: "QueueByteLength s0 = int (length u)" using QueueByteLength_unread [OF ok Cons] by (simp add: QueueByteLength_def s0_def AllocateBuffer_def u_def)
    have fr: "frames hl len (u @ bf_data c) = ([], u @ bf_data c)" using short by (simp add: frames.simps [of hl len "u @ bf_data c"] Let_def)
    have "OnRead MsgLength (int hl) (int mx) callback c s0 = Some (s0\<lparr>rd_queue := rd_queue s0 @ [c]\<rparr>)"
      using sh s0 q short by (simp add: OnRead_def OnRead_queue_def Let_def)
    moreover have "s0\<lparr>rd_queue := rd_queue s0 @ [c]\<rparr> = s\<lparr>rd_buffers := rd_buffers s @ [bf_addr c], rd_queue := rd_queue s @ [c], rd_remain := rd_remain s\<rparr>"
      by (simp add: s0_def AllocateBuffer_def)
    ultimately show ?thesis
      using reader_ok_push [OF ok Cons a refl, of "rd_remain s"] fr f nb by (simp add: u_def s0_def)
  next
    case long: False
    note wh = well_framed_header [OF w [folded u_def]]
    have n: "hl \<le> n" "n \<le> mx" using wh(1,2) long by (simp_all add: n_def)
    have un: "length u < n"
    proof (cases "hl \<le> length u")
      case True
      then show ?thesis using frames_incomplete [OF w o(3) _ header_pos] by (simp add: u_def n_def)
    qed (use n in simp)
    define s1 where "s1 = s0\<lparr>rd_remain := int n - int (length u)\<rparr>"
    have lg: "hl \<le> length (unread s @ bf_data c)" using long by (simp add: u_def)
    note qq = OnRead_queue_long [OF ok Cons lg, folded u_def, folded n_def, folded s0_def, folded s1_def]
    have pos: "0 < rd_remain s1" using un by (simp add: s1_def)
    show ?thesis
    proof (cases "length (u @ bf_data c) < n")
      case cut: True
      have fr: "frames hl len (u @ bf_data c) = ([], u @ bf_data c)" using cut by (simp add: frames.simps [of hl len "u @ bf_data c"] Let_def n_def)
      have "OnRead MsgLength (int hl) (int mx) callback c s0 = Some (s1\<lparr>rd_queue := rd_queue s1 @ [c], rd_remain := rd_remain s1 - BufferSize c\<rparr>)"
        using s0(1) pos cut unfolding OnRead_def qq(1) by (simp add: s1_def)
      moreover have "s1\<lparr>rd_queue := rd_queue s1 @ [c], rd_remain := rd_remain s1 - BufferSize c\<rparr> =
          s\<lparr>rd_buffers := rd_buffers s @ [bf_addr c], rd_queue := rd_queue s @ [c], rd_remain := rd_remain s1 - BufferSize c\<rparr>"
        by (simp add: s1_def s0_def AllocateBuffer_def)
      ultimately show ?thesis
        using reader_ok_push [OF ok Cons a refl, of "rd_remain s1 - BufferSize c"] fr f qq(2) by (simp add: u_def s0_def)
    next
      case full: False
      define s2 where "s2 = s\<lparr>rd_queue := [], rd_offset := int n - int (length u), rd_remain := -1, rd_buffers := [bf_addr c],
        rd_received := rd_received s @ [take n (u @ bf_data c)]\<rparr>"
      have cap: "int n \<le> AllocBufferSize (int mx) (int n)" using AllocBufferSize_ge [of "int n" "int mx"] n by simp
      have bc: "BufferConcat (AllocBufferSize (int mx) (int n)) c (int n) s1 =
          Some (take n (u @ bf_data c), s\<lparr>rd_queue := [], rd_offset := int n - int (length u), rd_remain := -1, rd_buffers := [bf_addr c]\<rparr>)"
        using BufferConcat_unread [OF ok Cons un [unfolded u_def] _ cap, where buffer = c and as = "[bf_addr c]" and x = "int n - int (length u)"] full
        by (simp add: s1_def s0_def AllocateBuffer_def u_def)
      have size: "\<not> BufferSize c < rd_remain s1" using full by (simp add: s1_def)
      have qd: "OnRead_queue MsgLength (int hl) (int mx) callback c s0 = Some (False, s2)"
        using pos size bc cb unfolding qq(1) by (simp add: s2_def)
      define i where "i = n - length u"
      have d: "drop n (u @ bf_data c) = drop i (bf_data c)" using un by (simp add: i_def)
      obtain ms' where m: "frames hl len (drop i (bf_data c)) = (ms', rest)" "ms = take n (u @ bf_data c) # ms'"
        using f long full n header_pos unfolding u_def [symmetric] frames.simps [of hl len "u @ bf_data c"] Let_def n_def [symmetric] d
        by (auto split: prod.splits)
      have w': "well_framed hl len mx (drop i (bf_data c))" using wh(4) long full d by (simp add: n_def)
      have i: "i \<le> length (bf_data c)" "rd_offset s2 = int i" "rd_remain s2 = -1" "rd_queue s2 = []" "rd_buffers s2 = [bf_addr c]"
        using full un by (auto simp: i_def s2_def of_nat_diff)
      define rst where "rst = (\<lambda>(returned, avail :: int, s). if returned then Some s
         else if avail > 0 then Some (s\<lparr>rd_queue := rd_queue s @ [c]\<rparr>)
         else do { s \<leftarrow> ReleaseBuffer c s; let s = s\<lparr>rd_offset := 0\<rparr>; _ \<leftarrow> cpp_assert (rd_remain s = -1); Some s })"
      obtain s' where s': "OnRead_loop MsgLength callback c (BufferSize c - rd_offset s2) s2 \<bind> rst = Some s'" "reader_ok hl len s'"
          "rd_received s' = rd_received s2 @ ms'" "unread s' = rest" "set (rd_buffers s') \<subseteq> {bf_addr c}"
        using OnRead_rest [of callback mx i c s2 ms' rest] cb w' i m(1) unfolding rst_def by blast
      have "OnRead MsgLength (int hl) (int mx) callback c s0 = OnRead_loop MsgLength callback c (BufferSize c - rd_offset s2) s2 \<bind> rst"
        using s0(1) qd unfolding OnRead_def rst_def by simp
      moreover have "rd_received s2 = rd_received s @ [take n (u @ bf_data c)]" by (simp add: s2_def)
      ultimately show ?thesis using s' m(2) by (intro exI [of _ s']) (auto simp: s0_def)
    qed
  qed
qed

end

context framing
begin

lemma reads_frames:
  "well_framed hl len mx (unread s @ concat (map bf_data bs)) \<Longrightarrow> reader_ok hl len s \<Longrightarrow> distinct (map bf_addr bs) \<Longrightarrow>
     set (rd_buffers s) \<inter> bf_addr ` set bs = {} \<Longrightarrow>
     \<exists>s'. reads MsgLength (int hl) (int mx) (\<lambda>_. True) bs s = Some s' \<and> reader_ok hl len s' \<and>
       (\<exists>ms. rd_received s' = rd_received s @ ms \<and> frames hl len (unread s @ concat (map bf_data bs)) = (ms, unread s'))"
proof (induction bs arbitrary: s)
  case Nil
  have "frames hl len (unread s) = ([], unread s)"
  proof (cases "rd_queue s")
    case Nil
    then show ?thesis using header_pos by (simp add: unread_def frames.simps [of hl len "[]"] Let_def)
  next
    case (Cons b q)
    then show ?thesis by (rule reader_ok_Cons(3) [OF Nil(2)])
  qed
  then show ?case using Nil(2) by simp
next
  case (Cons c bs)
  obtain ms rest where f: "frames hl len (unread s @ bf_data c) = (ms, rest)" by fastforce
  have w: "well_framed hl len mx ((unread s @ bf_data c) @ concat (map bf_data bs))" using Cons.prems(1) by simp
  have w1: "well_framed hl len mx (unread s @ bf_data c)" by (rule well_framed_prefix [OF w])
  have a: "bf_addr c \<notin> set (rd_buffers s)" using Cons.prems(4) by auto
  obtain s1 where s1: "OnRead MsgLength (int hl) (int mx) (\<lambda>_. True) c (AllocateBuffer (bf_addr c) s) = Some s1" "reader_ok hl len s1"
      "rd_received s1 = rd_received s @ ms" "unread s1 = rest" "set (rd_buffers s1) \<subseteq> insert (bf_addr c) (set (rd_buffers s))"
    using OnRead_frames [of "\<lambda>_. True", OF _ w1 Cons.prems(2) a f] by blast
  have w2: "well_framed hl len mx (unread s1 @ concat (map bf_data bs))" unfolding s1(4) by (rule well_framed_append [OF w f])
  have "insert (bf_addr c) (set (rd_buffers s)) \<inter> bf_addr ` set bs = {}" using Cons.prems(3,4) by auto
  then have "set (rd_buffers s1) \<inter> bf_addr ` set bs = {}" using s1(5) by blast
  from Cons.IH [OF w2 s1(2) _ this] Cons.prems(3)
  obtain s' ms' where s': "reads MsgLength (int hl) (int mx) (\<lambda>_. True) bs s1 = Some s'" "reader_ok hl len s'"
    "rd_received s' = rd_received s1 @ ms'" "frames hl len (rest @ concat (map bf_data bs)) = (ms', unread s')" unfolding s1(4) by auto
  have "frames hl len (unread s @ concat (map bf_data (c # bs))) = (ms @ ms', unread s')"
    using frames_append [OF w header_pos] f s'(4) by simp
  then show ?case using s1(1,3) s' by (intro exI [of _ s']) auto
qed

end

text \<open>
  C22. \<open>TcpMessageReader\<close> delivers the messages of the stream, however the stream is cut into reads: for a stream whose
  headers give lengths between that of a header and the maximum, every call of \<open>OnRead\<close> returns, the callback gets exactly the
  complete messages of the stream in their order, the bytes kept are those after the last of them, and
  every buffer that is no longer needed has been released.
\<close>

theorem tcp_reader_frames:
  assumes "framing MsgLength hl len" "well_framed hl len mx (concat (map bf_data bs))" "distinct (map bf_addr bs)"
  shows "\<exists>s. reads MsgLength (int hl) (int mx) (\<lambda>_. True) bs mk_TcpMessageReader = Some s \<and>
    (rd_received s, unread s) = frames hl len (concat (map bf_data bs)) \<and>
    rd_buffers s = map bf_addr (rd_queue s) \<and> (unread s = [] \<longrightarrow> rd_buffers s = [])"
proof -
  define s :: "'a TcpMessageReader" where "s = mk_TcpMessageReader"
  have s: "unread s = []" "reader_ok hl len s" "rd_buffers s = []" "rd_received s = []"
    by (simp_all add: s_def mk_TcpMessageReader_def unread_def reader_ok_def)
  obtain s' where s': "reads MsgLength (int hl) (int mx) (\<lambda>_. True) bs s = Some s'" "reader_ok hl len s'"
      "frames hl len (concat (map bf_data bs)) = (rd_received s', unread s')"
    using framing.reads_frames [OF assms(1) _ s(2) assms(3), of mx] assms(2) s by auto
  have "rd_buffers s' = []" if "unread s' = []"
    using reader_ok_Cons(6) [OF s'(2)] that s'(2) by (cases "rd_queue s'") (auto simp: reader_ok_def)
  then show ?thesis using s' unfolding s_def by (auto simp: reader_ok_def)
qed

lemma BufferConcat_fits: "BufferConcat cap c n s = Some (d, s') \<Longrightarrow> n \<le> cap"
  by (auto simp: BufferConcat_def copy_to_def Let_def split: bind_splits if_splits)

text \<open>
  A message that is longer than the maximum and arrives in more than one read is written outside the array allocated for it:
  \<open>AllocBufferSize\<close> stops at the maximum and \<open>BufferConcat\<close> copies as many bytes as the header asks for.
\<close>

theorem tcp_reader_overflow:
  assumes "framing MsgLength hl len" "reader_ok hl len s" "rd_queue s \<noteq> []" "hl \<le> length (unread s @ bf_data c)"
    "n = len (take hl (unread s @ bf_data c))" "length (unread s) < n" "n \<le> length (unread s @ bf_data c)" "AllocBufferSize mx (int n) < int n"
  shows "OnRead MsgLength (int hl) mx callback c (AllocateBuffer (bf_addr c) s) = None"
proof -
  obtain b q where q: "rd_queue s = b # q" using assms(3) by (cases "rd_queue s") auto
  define s1 where "s1 = (AllocateBuffer (bf_addr c) s)\<lparr>rd_remain := int n - int (length (unread s))\<rparr>"
  have "BufferConcat (AllocBufferSize mx (int n)) c (int n) s1 = None"
    using BufferConcat_fits [of "AllocBufferSize mx (int n)" c "int n" s1] assms(8) by (cases "BufferConcat (AllocBufferSize mx (int n)) c (int n) s1") auto
  moreover have "\<not> BufferSize c < rd_remain s1" using assms(7) by (simp add: s1_def)
  ultimately have "OnRead_queue MsgLength (int hl) mx callback c (AllocateBuffer (bf_addr c) s) = None"
    unfolding framing.OnRead_queue_long(1) [OF assms(1,2) q assms(4), folded assms(5), folded s1_def]
    by (cases "rd_remain s1 > 0") (simp_all add: cpp_assert_def)
  then show ?thesis using q by (simp add: OnRead_def AllocateBuffer_def)
qed

section \<open>The reader of the tests\<close>

text \<open>Two messages of 20 and 19 bytes in three reads, cut inside the second header.\<close>

definition demo_stream :: "8 word list" where
  "demo_stream = replicate 16 255 @ [0, 20, 1, 2] @ replicate 16 255 @ [0, 19, 3]"

definition demo_reads :: "8 word Buffer list" where
  "demo_reads = [\<lparr>bf_addr = 1, bf_data = take 7 demo_stream\<rparr>, \<lparr>bf_addr = 2, bf_data = take 30 (drop 7 demo_stream)\<rparr>,
     \<lparr>bf_addr = 3, bf_data = drop 37 demo_stream\<rparr>]"

theorem tcp_reader_frames_witness:
  "\<exists>s. reads test_MsgLength 18 4096 (\<lambda>_. True) demo_reads mk_TcpMessageReader = Some s \<and>
     rd_received s = [take 20 demo_stream, drop 20 demo_stream] \<and> rd_buffers s = []"
proof -
  have c: "concat (map bf_data demo_reads) = demo_stream"
    using append_take_drop_id [of 30 "drop 7 demo_stream"] append_take_drop_id [of 7 demo_stream] by (simp add: demo_reads_def)
  have h: "test_length (take 18 demo_stream) = 20" "test_length (take 18 (drop 20 demo_stream)) = 19"
    by (simp_all add: test_length_def demo_stream_def nth_append)
  have l: "length demo_stream = 39" by (simp add: demo_stream_def)
  have e: "frames 18 test_length [] = ([], [])" "well_framed 18 test_length 4096 []" by (simp add: frames.simps [of 18 test_length "[]"], subst well_framed.simps, simp)
  have f1: "frames 18 test_length (drop 20 demo_stream) = ([drop 20 demo_stream], [])"
    using h(2) l e by (simp add: frames.simps [of 18 test_length "drop 20 demo_stream"] Let_def)
  have f: "frames 18 test_length demo_stream = ([take 20 demo_stream, drop 20 demo_stream], [])"
    using h(1) l f1 by (simp add: frames.simps [of 18 test_length demo_stream] Let_def)
  have w1: "well_framed 18 test_length 4096 (drop 20 demo_stream)"
    using h(2) l e by (subst well_framed.simps) (simp add: Let_def)
  have "well_framed 18 test_length 4096 demo_stream"
    using h(1) l w1 by (subst well_framed.simps) (simp add: Let_def)
  moreover have "distinct (map bf_addr demo_reads)" by (simp add: demo_reads_def)
  ultimately show ?thesis using tcp_reader_frames [OF test_reader.framing_axioms, of 4096 demo_reads] unfolding c f by auto
qed

text \<open>A message of 4097 bytes, one more than the maximum of the tests' reader, of which the header arrives first.\<close>

definition demo_cut_header :: "8 word TcpMessageReader" where
  "demo_cut_header = \<lparr>rd_queue = [\<lparr>bf_addr = 1, bf_data = replicate 16 255 @ [16, 1]\<rparr>], rd_offset = 0, rd_remain = 4079, rd_buffers = [1], rd_received = []\<rparr>"

lemma AllocBufferSize_4096: "AllocBufferSize 4096 4097 = 4096"
  by (simp add: AllocBufferSize_def AllocBufferSize_loop.simps)

theorem tcp_reader_overflow_witness:
  "OnRead test_MsgLength 18 4096 (\<lambda>_. True) \<lparr>bf_addr = 2, bf_data = replicate 4079 0\<rparr> (AllocateBuffer 2 demo_cut_header) = None"
proof -
  define c :: "8 word Buffer" where "c = \<lparr>bf_addr = 2, bf_data = replicate 4079 0\<rparr>"
  define u :: "8 word list" where "u = replicate 16 255 @ [16, 1]"
  have u: "unread demo_cut_header = u" "length u = 18" by (simp_all add: demo_cut_header_def unread_def u_def)
  have h: "test_length u = 4097" by (simp add: test_length_def u_def nth_append)
  have t: "take 18 u = u" "take 18 (u @ bf_data c) = u" using u(2) by simp_all
  have "frames 18 test_length u = ([], u)" using u(2) h t(1) by (simp add: frames.simps [of 18 test_length u] Let_def)
  then have ok: "reader_ok 18 test_length demo_cut_header"
    unfolding reader_ok_def u(1) using h t(1) u(2) by (simp add: demo_cut_header_def)
  have "OnRead test_MsgLength (int 18) 4096 (\<lambda>_. True) c (AllocateBuffer (bf_addr c) demo_cut_header) = None"
    by (rule tcp_reader_overflow [OF test_reader.framing_axioms ok, where n = 4097])
      (use u h t(2) AllocBufferSize_4096 in \<open>simp_all add: demo_cut_header_def c_def\<close>)
  then show ?thesis by (simp add: c_def)
qed

end
