(* ===== verification/Spec2Isabelle.thy ===== *)
theory Spec2Isabelle
  imports Bit_Set Index_Alloc Work_Queue_Steps Task_Trigger Task_Timer Sandesh_Codec Tcp_Reader
begin

text \<open>
  \<^bold>\<open>The common library of the Tungsten Fabric controller.\<close>

  The program under src/ is the C++ and C library that the control node, the agent and the
  collector share. Its parts, from the bottom: data structures (src/base: \<open>BitSet\<close>, \<open>IndexAllocator\<close>,
  \<open>LabelBlock\<close>, \<open>IndexMap\<close>); the task scheduler (src/base/task.cc), which hands tasks to TBB threads so
  that tasks which exclude each other by policy never run at the same time; the clients of the
  scheduler, the work queue (src/base/queue_task.h), the trigger (task_trigger.cc) and the timer
  (timer.cc); and the Sandesh
  serialisation, whose C library (src/sandesh/library/c) encodes and decodes the messages
  exchanged with the kernel module through a Thrift binary protocol over a memory buffer; and the reader that cuts
  the byte stream of a TCP session into messages (src/io/tcp_session.cc).
  Network, database and HTTP code sits above and is listed at the end.

  \<^bold>\<open>Conventions.\<close> \<open>None\<close> of type \<open>option\<close> is a failed assertion, an access outside an object or
  a call that does not return; a loop with no evident bound is a \<open>partial_function (option)\<close>,
  so there is no fuel anywhere and every claim that a loop returns is proved as \<open>Some\<close>. Unsigned integers
  that may wrap are words or carry \<open>mod 2 ^ w\<close> (\<open>u32\<close>, \<open>u64\<close>, \<open>sub64\<close>). Objects reached by pointer
  (tasks, entries, label blocks) live in maps from references. Code that is not in the repository
  (TBB, the allocator, the generated functions of a Sandesh) is an argument of the
  definitions that call it.

  \<^bold>\<open>Theories.\<close>

  \<^item> \<open>Prelude\<close>: the collections of lemmas, the facts on lists, options, maps and words that the
    components share, and the locale \<open>invariant\<close> of transition systems.

  \<^item> \<open>Bit_Words\<close>: the static helpers of src/base/bitset.cc on one 64-bit block. Each
    agrees with its specification over bit positions.

  \<^item> \<open>Bit_Set\<close>: class \<open>BitSet\<close>, a list of words. \<open>mem\<close> maps it to a set of numbers; every method keeps
    \<open>check_invariants\<close> (no trailing zero block) and implements the operation on sets, the searches
    find the least or greatest element (proved once for set and for clear bits in the locale \<open>block_scan\<close>), and text written by \<open>ToString\<close> is read back.

  \<^item> \<open>Index_Alloc\<close>: \<open>IndexAllocator\<close>, \<open>LabelBlock\<close> with \<open>LabelBlockManager\<close>, and \<open>IndexMap\<close>, over \<open>BitSet\<close> through
    the locale \<open>slot_set\<close>.
    Allocation returns an index that was free, release makes it free again, the manager has
    one block per range, and inserted entries are found. An explicit index of \<open>IndexMap\<close> that is in use is overwritten. Two error theorems show the use of a manager after its
    deletion, where \<open>None\<close> is the unlocking of its mutex, and an \<open>IndexMap\<close> call that aborts after \<open>ReserveBit\<close>. Indices
    of \<open>IndexMap\<close> are natural numbers.

  \<^item> \<open>Task_Sched\<close>: the definitions of src/base/task.cc: \<open>Task\<close>, \<open>TaskEntry\<close>, \<open>TaskGroup\<close>, \<open>TaskScheduler\<close> as
    records in one state \<open>sched\<close>; policies, waiting and deferred queues, \<open>Enqueue\<close>, \<open>Cancel\<close>,
    \<open>OnTaskExit\<close>, \<open>Start\<close>, \<open>Stop\<close>, \<open>SetPolicy\<close>, and the two halves of \<open>TaskImpl::execute\<close>.

  \<^item> \<open>Task_Core\<close> and \<open>Task_Refine\<close>: an abstract scheduler of counts and queues with its invariants, and
    the simulation that the detailed definitions implement it.

  \<^item> \<open>Task_Steps\<close>: the step relation of the scheduler's threads, and the properties of every reachable
    state: no assertion fails, tasks that exclude each other do not run together (a rule of a group against itself
    is kept but for its tasks without an instance, which a wake-up starts all at once), a waiting task has a
    reason to wait, under every interleaving of the TBB threads (\<open>tbb_run\<close>) all enqueued tasks run,
    waiting tasks of an entry start in order, cancellation and emptiness
    report what they say. Policies are set while no task runs, and run counts are unbounded numbers. Two error theorems are about ids taken twice by racing threads and about
    a disabled group.

  \<^item> \<open>Task_Service\<close>: the locale \<open>task_service\<close>, the scheduler as its clients see it: the phase of a task and the
    laws of \<open>new\<close>, \<open>Enqueue\<close>, \<open>Cancel\<close> and of the return of \<open>Run\<close>. Its interpretation \<open>svc\<close> proves them for
    \<open>Task_Sched\<close>.

  \<^item> \<open>Water_Marks\<close>: \<open>WaterMarkTuple\<close>; a mark is reported once per crossing.

  \<^item> \<open>Work_Queue\<close> and \<open>Work_Queue_Steps\<close>: \<open>WorkQueue\<close> and \<open>QueueTaskRunner\<close>, and their interleaving with
    producers and the scheduler, proved over \<open>task_service\<close>. No entry is lost or reordered, a queue with
    entries has a runner or a reason for none (a \<open>start_runner_\<close> callback that begins to accept does not wake the
    queue by itself), its counters are exact, no assertion fails. An error theorem shows a
    scheduled shutdown that never happens.

  \<^item> \<open>Task_Trigger\<close>: \<open>TaskTrigger\<close> and its interleaving with the scheduler, over \<open>task_service\<close>. A call of \<open>Set\<close> made
    before the function has begun is served, down to the steps in which the task calls the function; an error theorem shows that one made between its return and \<open>Reset\<close> is lost.

  \<^item> \<open>Task_Timer\<close>: \<open>Timer\<close>, \<open>TimerTask\<close> and \<open>TimerManager\<close>, with the ASIO timer as an argument and its completions as steps, over
    \<open>task_service\<close>. No assertion fails, a timer that runs has a pending wait or a task, and a cancelled timer calls no
    handler; an error theorem shows that the restart of a timer can undo a cancellation.

  \<^item> \<open>Thrift_Transport\<close>: the allocator as an argument, the memory buffer and the fake transport of
    src/sandesh/library/c/transport; the locales \<open>sink\<close>, \<open>source\<close> and \<open>channel\<close> of what a protocol may rely on, with the
    interpretations \<open>mb\<close> and \<open>fake\<close>.

  \<^item> \<open>Thrift_Binary\<close>, \<open>Thrift_Messages\<close>: the read and write functions of thrift_binary_protocol.c. What is
    written is read back, and a truncated message is an error.

  \<^item> \<open>Thrift_Skip\<close>: both skip functions of thrift_protocol.c. They end and consume exactly one value when it
    is well formed, and agree, for every type that the protocol writes but \<open>T_IPADDR\<close>, for which they have no case; an error
    theorem shows that one does not end on a struct cut short.

  \<^item> \<open>Sandesh_Codec\<close>: src/sandesh/library/c/sandesh.c: a buffer of encoded messages is decoded and processed one
    by one, and the length computed with the fake transport is the length written.

  \<^item> \<open>Tcp_Reader\<close>: \<open>TcpMessageReader\<close> of src/io/tcp_session.cc, with \<open>MsgLength\<close>, the length of a header and the maximum of a message
    as arguments (locale \<open>framing\<close>, interpreted on the reader of src/io/test/tcp_server_test.cc). Its messages are those of the
    reference \<open>frames\<close>, however the stream is cut into reads; a message longer than the maximum overflows its array.

  \<^bold>\<open>Bounds.\<close> The theorems on the scheduler assume that the 64-bit sequence number has not been
  used up (\<open>seq_room\<close>) and those on the work queue that \<open>count_\<close> stays below \<open>2 ^ 64\<close>; those on the timer that its
  32-bit \<open>seq_no_\<close> does not wrap; the ones on the
  Thrift functions that lengths stay below \<open>2 ^ 31\<close>, the range of the \<open>int32_t\<close> in which they are returned. The messages of \<open>Thrift_Messages\<close> have strings that are null or not empty, and the
  buffers of \<open>Tcp_Reader\<close> are shorter than \<open>2 ^ 31\<close> bytes. Where the
  code needs such a bound it does not check it, so the bound is a hypothesis.

  \<^bold>\<open>Not modelled\<close>, and why.

  \<^item> src/io but for the message reader, src/http, src/database, src/zookeeper and src/config-client-mgr are callbacks of Boost.Asio,
    the Cassandra, etcd, RabbitMQ and ZooKeeper client libraries: their behaviour is that of those libraries and of
    the peers.

  \<^item> src/base: logging, tracing, process and CPU information, option parsing and the parsers of \<open>proto.h\<close> built
    by template metaprogramming; \<open>patricia.h\<close>, \<open>tree.h\<close>, \<open>dependency.h\<close> and \<open>lifetime.cc\<close>, intrusive pointer structures
    over objects of the applications; the work pipeline, a template over stages that are not in the repository; \<open>tdigest.c\<close> on floating point numbers; the address classes over Boost.

  \<^item> In the timer: the clock and the ASIO timer behind \<open>TimerImpl\<close>, so the theorems speak of the order of events and not of
    durations.

  \<^item> In the scheduler: TBB itself, the destructors and \<open>Terminate\<close>, the thread counts read from the
    environment, \<open>Print\<close> and the introspection responses.

  \<^item> src/sandesh: the compiler, which is a program generator; the C++ and Python libraries; and, in the C library, the
    XML protocol, which prints only and enters as an argument of \<open>sandesh_encode\<close>'s protocol table, and the file transport.
\<close>

end
